(* ===== verification/Prelude.thy ===== *)
theory Prelude
  imports Main "HOL-Library.Word" "HOL-Library.Multiset"
begin

text \<open>
  What the components share: the widths of the C integers (an LP64 target, so
  \<open>unsigned long\<close> is 64 bits), the faults a step of C code can end in, sequencing of
  steps that may fault, an allocator whose requests can be refused, and lemmas on
  words and lists.
\<close>

unbundle bit_operations_syntax

type_synonym u32 = "32 word"
type_synonym u64 = "64 word"

named_theorems outcome_simps \<open>sequencing of steps that may fault\<close>
named_theorems word_bounds \<open>words read as natural numbers, under a no-overflow premise\<close>

section \<open>Faults and sequencing\<close>

text \<open>
  A C statement that dereferences a null or dead pointer, runs past an array or divides
  by zero has no defined result. In the model it ends the run with a fault.
\<close>

datatype fault = Null_deref | Out_of_bounds | Use_after_free | Double_free | Div_by_zero

type_synonym 'a outcome = "fault + 'a"

fun bnd :: "'e + 'a \<Rightarrow> ('a \<Rightarrow> 'e + 'b) \<Rightarrow> 'e + 'b" where
  "bnd (Inl e) f = Inl e"
| "bnd (Inr x) f = f x"

declare bnd.simps [outcome_simps]

lemma bnd_eq_Inr [outcome_simps]: "bnd m f = Inr y \<longleftrightarrow> (\<exists>x. m = Inr x \<and> f x = Inr y)"
  by (cases m) auto

lemma bnd_assoc: "bnd (bnd m f) g = bnd m (\<lambda>x. bnd (f x) g)"
  by (cases m) auto

text \<open>A loop over a list whose body may fault.\<close>

fun foldM :: "('b \<Rightarrow> 'a \<Rightarrow> 'e + 'a) \<Rightarrow> 'b list \<Rightarrow> 'a \<Rightarrow> 'e + 'a" where
  "foldM f [] s = Inr s"
| "foldM f (x # xs) s = bnd (f x s) (foldM f xs)"

lemma foldM_append: "foldM f (xs @ ys) s = bnd (foldM f xs s) (foldM f ys)"
proof (induction xs arbitrary: s)
  case (Cons x xs)
  then show ?case by (cases "f x s") auto
qed simp

text \<open>
  A loop keeps an invariant and does not fault when its body does, where the invariant may
  speak of the elements still to come.
\<close>

lemma foldM_total:
  assumes "I xs s"
    and "\<And>x ys t. I (x # ys) t \<Longrightarrow> \<exists>t'. f x t = Inr t' \<and> I ys t'"
  shows "\<exists>s'. foldM f xs s = Inr s' \<and> I [] s'"
  using assms(1)
proof (induction xs arbitrary: s)
  case (Cons x xs)
  from assms(2) [OF Cons.prems] obtain t where "f x s = Inr t" "I xs t" by blast
  with Cons.IH show ?case by simp
qed simp

lemma foldM_inv:
  assumes "foldM f xs s = Inr s'" and "P s"
    and "\<And>x t t'. x \<in> set xs \<Longrightarrow> P t \<Longrightarrow> f x t = Inr t' \<Longrightarrow> P t'"
  shows "P s'"
  using assms
proof (induction xs arbitrary: s)
  case (Cons x xs)
  then obtain t where "f x s = Inr t" "foldM f xs t = Inr s'"
    by (auto simp: outcome_simps)
  with Cons show ?case by (meson list.set_intros(1) list.set_intros(2))
qed simp

section \<open>An allocator whose requests can be refused\<close>

text \<open>
  Live objects by address. The \<open>n\<close>-th request of the run is granted when \<open>ok n\<close>: the
  parameter \<open>ok\<close> is the memory pressure the code meets. A granted request gets an address
  that was never handed out before. Releasing an address that is not live is a fault.
\<close>

record 'a kmem =
  cells :: "nat \<Rightarrow> 'a option"
  brk :: nat

definition kmem_empty :: "'a kmem" where
  "kmem_empty = \<lparr>cells = Map.empty, brk = 0\<rparr>"

definition kmalloc :: "(nat \<Rightarrow> bool) \<Rightarrow> 'a \<Rightarrow> 'a kmem \<Rightarrow> nat option \<times> 'a kmem" where
  "kmalloc ok x m =
     (if ok (brk m)
      then (Some (brk m), m\<lparr>cells := (cells m)(brk m \<mapsto> x), brk := Suc (brk m)\<rparr>)
      else (None, m\<lparr>brk := Suc (brk m)\<rparr>))"

definition kfree :: "nat \<Rightarrow> 'a kmem \<Rightarrow> 'a kmem outcome" where
  "kfree a m =
     (case cells m a of
        None \<Rightarrow> Inl Double_free
      | Some _ \<Rightarrow> Inr (m\<lparr>cells := (cells m)(a := None)\<rparr>))"

definition kread :: "nat \<Rightarrow> 'a kmem \<Rightarrow> 'a outcome" where
  "kread a m = (case cells m a of None \<Rightarrow> Inl Use_after_free | Some x \<Rightarrow> Inr x)"

definition kwrite :: "nat \<Rightarrow> 'a \<Rightarrow> 'a kmem \<Rightarrow> 'a kmem outcome" where
  "kwrite a x m =
     (case cells m a of
        None \<Rightarrow> Inl Use_after_free
      | Some _ \<Rightarrow> Inr (m\<lparr>cells := (cells m)(a \<mapsto> x)\<rparr>))"

definition live :: "'a kmem \<Rightarrow> nat set" where
  "live m = dom (cells m)"

definition kmem_ok :: "'a kmem \<Rightarrow> bool" where
  "kmem_ok m \<longleftrightarrow> (\<forall>a\<in>live m. a < brk m)"

text \<open>The contract its clients rely on.\<close>

locale allocator =
  fixes alloc :: "'a \<Rightarrow> 'm \<Rightarrow> nat option \<times> 'm"
    and free :: "nat \<Rightarrow> 'm \<Rightarrow> fault + 'm"
    and alive :: "'m \<Rightarrow> nat set"
    and inv :: "'m \<Rightarrow> bool"
  assumes alloc_granted:
      "inv m \<Longrightarrow> alloc x m = (Some a, m') \<Longrightarrow>
         a \<notin> alive m \<and> alive m' = insert a (alive m) \<and> inv m'"
    and alloc_refused:
      "inv m \<Longrightarrow> alloc x m = (None, m') \<Longrightarrow> alive m' = alive m \<and> inv m'"
    and free_alive:
      "inv m \<Longrightarrow> a \<in> alive m \<Longrightarrow>
         \<exists>m'. free a m = Inr m' \<and> alive m' = alive m - {a} \<and> inv m'"
begin

text \<open>Releasing distinct live objects one after the other never faults.\<close>

lemma free_list:
  assumes "inv m" "distinct as" "set as \<subseteq> alive m"
  shows "\<exists>m'. foldM free as m = Inr m' \<and> alive m' = alive m - set as \<and> inv m'"
  using assms
proof (induction as arbitrary: m)
  case (Cons a as)
  from Cons.prems free_alive [of m a] obtain t where
    t: "free a m = Inr t" "alive t = alive m - {a}" "inv t" by auto
  moreover from t Cons.prems have "set as \<subseteq> alive t" "distinct as" by auto
  ultimately obtain m' where "foldM free as t = Inr m'" "alive m' = alive t - set as" "inv m'"
    using Cons.IH by blast
  with t show ?case by auto
qed simp

end

text \<open>An allocator that notices a release of an object that is not live.\<close>

locale checked_allocator = allocator +
  assumes free_dead: "a \<notin> alive m \<Longrightarrow> free a m = Inl Double_free"
begin

text \<open>An object that is released twice in such a loop is a fault.\<close>

lemma free_twice:
  assumes "inv m" "a \<in> alive m"
  shows "foldM free [a, a] m = Inl Double_free"
proof -
  from free_alive [OF assms] obtain t where "free a m = Inr t" "alive t = alive m - {a}" by blast
  then show ?thesis by (simp add: free_dead)
qed

end

interpretation km: checked_allocator "kmalloc ok" kfree live kmem_ok
  by unfold_locales
     (auto simp: kmalloc_def kfree_def live_def kmem_ok_def less_Suc_eq dom_def
           split: if_splits option.splits)

text \<open>Releasing objects changes nothing else.\<close>

lemma foldM_kfree_cells:
  "foldM kfree as m = Inr m' \<Longrightarrow>
     cells m' = (\<lambda>n. if n \<in> set as then None else cells m n) \<and> brk m' = brk m"
proof (induction as arbitrary: m)
  case (Cons a as)
  then obtain t where "kfree a m = Inr t" "foldM kfree as t = Inr m'" by (auto simp: bnd_eq_Inr)
  with Cons.IH [OF this(2)] show ?case
    by (auto simp: kfree_def fun_eq_iff split: option.splits)
qed simp

lemma kread_live: "a \<in> live m \<Longrightarrow> \<exists>x. kread a m = Inr x \<and> cells m a = Some x"
  by (auto simp: kread_def live_def)

lemma kwrite_live:
  "a \<in> live m \<Longrightarrow> \<exists>m'. kwrite a x m = Inr m' \<and> live m' = live m \<and>
     cells m' = (cells m)(a \<mapsto> x) \<and> brk m' = brk m"
  by (auto simp: kwrite_def live_def)

section \<open>Arrays\<close>

text \<open>An array the module owns through a pointer.\<close>

datatype 'a buf = NullP | Freed | Arr "'a list"

fun buf_get :: "'a buf \<Rightarrow> nat \<Rightarrow> 'a outcome" where
  "buf_get NullP i = Inl Null_deref"
| "buf_get Freed i = Inl Use_after_free"
| "buf_get (Arr xs) i = (if i < length xs then Inr (xs ! i) else Inl Out_of_bounds)"

fun buf_set :: "'a buf \<Rightarrow> nat \<Rightarrow> 'a \<Rightarrow> 'a buf outcome" where
  "buf_set NullP i x = Inl Null_deref"
| "buf_set Freed i x = Inl Use_after_free"
| "buf_set (Arr xs) i x = (if i < length xs then Inr (Arr (xs[i := x])) else Inl Out_of_bounds)"

lemma buf_set_Arr: "buf_set b i x = Inr b' \<Longrightarrow> \<exists>xs. b = Arr xs \<and> i < length xs \<and> b' = Arr (xs[i := x])"
  by (cases b) (auto split: if_splits)

lemma buf_get_Arr: "buf_get b i = Inr x \<Longrightarrow> \<exists>xs. b = Arr xs \<and> i < length xs \<and> x = xs ! i"
  by (cases b) (auto split: if_splits)

text \<open>A request whose object the model does not track on the heap.\<close>

definition krequest :: "(nat \<Rightarrow> bool) \<Rightarrow> 'a kmem \<Rightarrow> bool \<times> 'a kmem" where
  "krequest ok m = (ok (brk m), m\<lparr>brk := Suc (brk m)\<rparr>)"

lemma krequest_kmem [simp]:
  "live (snd (krequest ok m)) = live m" "cells (snd (krequest ok m)) = cells m"
  "kmem_ok m \<Longrightarrow> kmem_ok (snd (krequest ok m))"
  by (auto simp: krequest_def live_def kmem_ok_def less_Suc_eq)

section \<open>Words\<close>

text \<open>
  A cumulative counter that wraps still gives the right difference: only the increment
  matters.
\<close>

lemma word_diff_add [simp]: "(p + d) - p = (d :: 'a::len word)"
  by simp

lemma unat_mult_small [word_bounds]:
  "unat (k :: u64) * unat x < 2 ^ 64 \<Longrightarrow> unat (k * x) = unat k * unat x"
  by (simp add: unat_word_ariths)

lemma unat_add_small [word_bounds]:
  "unat (x :: u64) + unat y < 2 ^ 64 \<Longrightarrow> unat (x + y) = unat x + unat y"
  by (simp add: unat_word_ariths)

lemma unat_scaled_div [word_bounds]:
  "unat (k :: u64) * unat x < 2 ^ 64 \<Longrightarrow> unat (k * x div t) = unat k * unat x div unat t"
  by (simp add: unat_div unat_mult_small)

lemma unat_sum_list: "unat (sum_list xs) = (\<Sum>x\<leftarrow>xs. unat (x :: u64)) mod 2 ^ 64"
  by (induction xs) (simp_all add: unat_word_ariths mod_add_right_eq)

lemma unat_of_nonneg: "0 \<le> i \<Longrightarrow> i < 2 ^ 64 \<Longrightarrow> unat (word_of_int i :: u64) = nat i"
  by (simp add: unat_eq_nat_uint uint_word_of_int)

text \<open>A share of a total, scaled by \<open>k\<close> and rounded down, is at most \<open>k\<close>.\<close>

lemma nat_share_le: "a \<le> t \<Longrightarrow> 0 < t \<Longrightarrow> k * a div t \<le> (k::nat)"
  by (metis div_le_mono mult_le_mono2 nonzero_mult_div_cancel_right not_less_zero)

text \<open>Rounded-down shares of a whole add up to at most the rounded share of their sum.\<close>

lemma nat_share_add: "k * a div t + k * b div t \<le> k * (a + b) div (t::nat)"
proof (cases "t = 0")
  case False
  have "(k * a div t) * t + (k * b div t) * t \<le> k * a + k * b"
    by (intro add_mono div_times_less_eq_dividend)
  then have "(k * a div t + k * b div t) * t \<le> k * (a + b)"
    by (simp add: algebra_simps)
  with False show ?thesis by (simp add: less_eq_div_iff_mult_less_eq)
qed simp

lemma nat_share_sum_list:
  "(\<Sum>a\<leftarrow>as. k * a div t) \<le> k * sum_list as div (t::nat)"
proof (induction as)
  case (Cons a as)
  then show ?case using nat_share_add [of k a t "sum_list as"] by simp
qed simp

text \<open>\<open>n\<close> rounded shares lose less than \<open>n\<close> against the exact one.\<close>

lemma nat_share_sum_list_lower:
  assumes "0 < (t::nat)"
  shows "k * sum_list as \<le> t * (\<Sum>a\<leftarrow>as. k * a div t) + length as * (t - 1)"
proof (induction as)
  case (Cons a as)
  have "k * a mod t \<le> t - 1" using assms by (simp add: Suc_leI less_Suc_eq_le [symmetric])
  then have "k * a \<le> t * (k * a div t) + (t - 1)"
    by (metis add.commute add_le_mono1 mod_mult_div_eq mult.commute)
  moreover have "length (a # as) * (t - 1) = length as * (t - 1) + (t - 1)" by simp
  ultimately show ?case using Cons by (simp only: list.map sum_list.Cons distrib_left)
qed simp

section \<open>Lists\<close>

lemma list_update_same_length [simp]: "length (xs[i := v]) = length xs"
  by simp

lemma filter_unique:
  "distinct (map f xs) \<Longrightarrow> x \<in> set xs \<Longrightarrow> filter (\<lambda>y. f y = f x) xs = [x]"
  by (induction xs) (auto simp: filter_empty_conv image_iff)

lemma find_in_set: "List.find P xs = Some x \<Longrightarrow> x \<in> set xs \<and> P x"
  by (auto simp: find_Some_iff)

lemma find_unique:
  "n \<in> set xs \<Longrightarrow> P n \<Longrightarrow> \<forall>m\<in>set xs. P m \<longrightarrow> m = n \<Longrightarrow> List.find P xs = Some n"
proof (induction xs)
  case (Cons x xs)
  show ?case
  proof (cases "P x")
    case True
    with Cons.prems(3) have "x = n" by (meson list.set_intros(1))
    with True show ?thesis by simp
  next
    case False
    with Cons.prems(1,2) have "n \<in> set xs" by auto
    moreover have "\<forall>m\<in>set xs. P m \<longrightarrow> m = n" using Cons.prems(3) by (meson list.set_intros(2))
    ultimately have "List.find P xs = Some n" using Cons.IH Cons.prems(2) by blast
    with False show ?thesis by simp
  qed
qed simp

end
