(* ===== verification/CpuTimes.thy ===== *)
theory CpuTimes
  imports Prelude
begin

text \<open>
  The system-wide CPU line: \<open>update_cpu_times\<close> and \<open>print_cpu_usage_statistics\<close> of
  \<open>ste_top.c\<close>, and the one-shot module \<open>cpu_usage3.c\<close>, which samples the same counters
  twice. The kernel's per-CPU counters are input: a list with one \<open>kcpustat\<close> per online
  CPU, in the order \<open>for_each_online_cpu\<close> visits them. All arithmetic is that of
  \<open>unsigned long\<close>, so every sum, difference and product wraps at \<open>2 ^ 64\<close>.
\<close>

section \<open>Data\<close>

text \<open>The entries of \<open>cpustat[]\<close> the modules read.\<close>

record kcpustat =
  k_user :: u64
  k_nice :: u64
  k_system :: u64
  k_idle :: u64
  k_iowait :: u64
  k_irq :: u64
  k_softirq :: u64
  k_steal :: u64
  k_guest :: u64
  k_guest_nice :: u64

record all_cpu_time =
  a_user :: u64
  a_system :: u64
  a_nice :: u64
  a_idle :: u64
  a_iowait :: u64
  a_irq :: u64
  a_softirq :: u64
  a_steal :: u64

definition zero_cpu_time :: all_cpu_time where
  "zero_cpu_time =
     \<lparr>a_user = 0, a_system = 0, a_nice = 0, a_idle = 0,
      a_iowait = 0, a_irq = 0, a_softirq = 0, a_steal = 0\<rparr>"

record cpu_state =
  old_all_cpu_time :: all_cpu_time
  new_all_cpu_time :: all_cpu_time

section \<open>Operations\<close>

text \<open>The body of the loop over the online CPUs.\<close>

definition add_cpu :: "kcpustat \<Rightarrow> all_cpu_time \<Rightarrow> all_cpu_time" where
  "add_cpu kstat t =
     t\<lparr>a_user := a_user t + k_user kstat,
       a_system := a_system t + k_system kstat,
       a_nice := a_nice t + k_nice kstat,
       a_idle := a_idle t + k_idle kstat,
       a_iowait := a_iowait t + k_iowait kstat,
       a_irq := a_irq t + k_irq kstat,
       a_softirq := a_softirq t + k_softirq kstat,
       a_steal := a_steal t + k_steal kstat\<rparr>"

definition update_cpu_times :: "kcpustat list \<Rightarrow> cpu_state \<Rightarrow> cpu_state" where
  "update_cpu_times online s =
     \<lparr>old_all_cpu_time = new_all_cpu_time s,
      new_all_cpu_time = fold add_cpu online zero_cpu_time\<rparr>"

definition cpu_diff :: "all_cpu_time \<Rightarrow> all_cpu_time \<Rightarrow> all_cpu_time" where
  "cpu_diff new old =
     \<lparr>a_user = a_user new - a_user old,
      a_system = a_system new - a_system old,
      a_nice = a_nice new - a_nice old,
      a_idle = a_idle new - a_idle old,
      a_iowait = a_iowait new - a_iowait old,
      a_irq = a_irq new - a_irq old,
      a_softirq = a_softirq new - a_softirq old,
      a_steal = a_steal new - a_steal old\<rparr>"

definition total_diff :: "all_cpu_time \<Rightarrow> u64" where
  "total_diff d =
     a_user d + a_system d + a_nice d + a_idle d + a_iowait d + a_irq d + a_softirq d + a_steal d"

text \<open>
  The permille values of the line, or none when no time has passed (nothing is printed).
  The idle share is what the others leave of 1000.
\<close>

definition cpu_permille :: "all_cpu_time \<Rightarrow> all_cpu_time option" where
  "cpu_permille d =
     (if total_diff d \<noteq> 0 then
        let user_pct = 1000 * a_user d div total_diff d;
            system_pct = 1000 * a_system d div total_diff d;
            nice_pct = 1000 * a_nice d div total_diff d;
            iowait_pct = 1000 * a_iowait d div total_diff d;
            irq_pct = 1000 * a_irq d div total_diff d;
            softirq_pct = 1000 * a_softirq d div total_diff d;
            steal_pct = 1000 * a_steal d div total_diff d;
            total_active_usage =
              user_pct + system_pct + nice_pct + iowait_pct + irq_pct + softirq_pct + steal_pct
        in Some
             \<lparr>a_user = user_pct, a_system = system_pct, a_nice = nice_pct,
              a_idle = 1000 - total_active_usage,
              a_iowait = iowait_pct, a_irq = irq_pct, a_softirq = softirq_pct,
              a_steal = steal_pct\<rparr>
      else None)"

text \<open>The printed pairs \<open>%lu.%lu\<close>, in the order us, sy, ni, id, wa, hi, si, st.\<close>

definition tenths :: "u64 \<Rightarrow> u64 \<times> u64" where
  "tenths p = (p div 10, p mod 10)"

definition cpu_line :: "all_cpu_time \<Rightarrow> (u64 \<times> u64) list" where
  "cpu_line p =
     map tenths [a_user p, a_system p, a_nice p, a_idle p, a_iowait p, a_irq p, a_softirq p,
                 a_steal p]"

definition print_cpu_usage_statistics :: "cpu_state \<Rightarrow> (u64 \<times> u64) list option" where
  "print_cpu_usage_statistics s =
     map_option cpu_line (cpu_permille (cpu_diff (new_all_cpu_time s) (old_all_cpu_time s)))"

text \<open>
  The module of \<open>cpu_usage3.c\<close>: eight accumulators per sample, both samples summed over
  the online CPUs from zero, and the line printed at load time.
\<close>

definition cpu_usage3_init :: "kcpustat list \<Rightarrow> kcpustat list \<Rightarrow> (u64 \<times> u64) list option" where
  "cpu_usage3_init start_stats end_stats =
     (let start = foldl (\<lambda>t k. add_cpu k t) zero_cpu_time start_stats;
          stop = foldl (\<lambda>t k. add_cpu k t) zero_cpu_time end_stats
      in map_option cpu_line (cpu_permille (cpu_diff stop start)))"

section \<open>Lemmas\<close>

text \<open>The eight entries of a record of times, as a list in the order of \<open>total_diff\<close>.\<close>

definition entries :: "all_cpu_time \<Rightarrow> u64 list" where
  "entries d = [a_user d, a_system d, a_nice d, a_idle d, a_iowait d, a_irq d, a_softirq d, a_steal d]"

definition exact_total :: "all_cpu_time \<Rightarrow> nat" where
  "exact_total d = (\<Sum>x\<leftarrow>entries d. unat x)"

text \<open>The premise under which no product and no sum of the line wraps.\<close>

definition fits :: "all_cpu_time \<Rightarrow> bool" where
  "fits d \<longleftrightarrow> 0 < exact_total d \<and> 1000 * exact_total d < 2 ^ 64"

lemma unat_total_diff:
  assumes "exact_total d < 2 ^ 64"
  shows "unat (total_diff d) = exact_total d"
proof -
  have "unat (total_diff d) = exact_total d mod 2 ^ 64"
    by (simp add: total_diff_def exact_total_def entries_def unat_word_ariths mod_add_left_eq
        mod_add_right_eq add.assoc [symmetric])
  with assms show ?thesis by simp
qed

lemma unat_share:
  assumes "fits d" "x \<in> set (entries d)"
  shows "unat (1000 * x div total_diff d) = 1000 * unat x div exact_total d"
proof -
  have "unat x \<le> exact_total d"
    using assms(2) by (auto simp: exact_total_def intro: member_le_sum_list)
  with assms(1) have "unat (1000 :: u64) * unat x < 2 ^ 64"
    by (simp add: fits_def)
  moreover from assms(1) have "unat (total_diff d) = exact_total d"
    by (intro unat_total_diff) (simp add: fits_def)
  ultimately show ?thesis by (simp add: unat_scaled_div)
qed

lemma cpu_permille_Some:
  assumes "fits d"
  shows "\<exists>p. cpu_permille d = Some p"
proof -
  from assms have "unat (total_diff d) \<noteq> 0" by (simp add: unat_total_diff fits_def)
  then have "total_diff d \<noteq> 0" by auto
  then show ?thesis by (simp add: cpu_permille_def Let_def)
qed

text \<open>The seven shares that are rounded down, in exact arithmetic.\<close>

definition active :: "all_cpu_time \<Rightarrow> u64 list" where
  "active d = [a_user d, a_system d, a_nice d, a_iowait d, a_irq d, a_softirq d, a_steal d]"

definition active_share :: "all_cpu_time \<Rightarrow> nat" where
  "active_share d = (\<Sum>x\<leftarrow>active d. 1000 * unat x div exact_total d)"

lemma exact_total_split: "exact_total d = (\<Sum>x\<leftarrow>active d. unat x) + unat (a_idle d)"
  by (simp add: exact_total_def entries_def active_def)

lemma active_share_alt:
  "active_share d = (\<Sum>n\<leftarrow>map unat (active d). 1000 * n div exact_total d)"
  by (simp add: active_share_def comp_def)

lemma active_share_upper:
  assumes "fits d"
  shows "active_share d + 1000 * unat (a_idle d) div exact_total d \<le> 1000"
proof -
  have "active_share d \<le> 1000 * (\<Sum>x\<leftarrow>active d. unat x) div exact_total d"
    unfolding active_share_alt by (rule nat_share_sum_list)
  then have "active_share d + 1000 * unat (a_idle d) div exact_total d
      \<le> 1000 * exact_total d div exact_total d"
    using nat_share_add [of 1000 "\<Sum>x\<leftarrow>active d. unat x" "exact_total d" "unat (a_idle d)"]
    by (simp add: exact_total_split)
  with assms show ?thesis by (simp add: fits_def)
qed

lemma active_share_lower:
  assumes "fits d"
  shows "1000 \<le> active_share d + 1000 * unat (a_idle d) div exact_total d + 7"
proof -
  let ?t = "exact_total d" and ?i = "unat (a_idle d)"
  let ?xs = "map unat (active d) @ [?i]"
  have t: "0 < ?t" using assms by (simp add: fits_def)
  have "1000 * sum_list ?xs \<le> ?t * (\<Sum>n\<leftarrow>?xs. 1000 * n div ?t) + length ?xs * (?t - 1)"
    by (rule nat_share_sum_list_lower [OF t])
  then have "?t * 1000 \<le> ?t * (active_share d + 1000 * ?i div ?t) + 8 * (?t - 1)"
    by (simp add: active_share_alt exact_total_split active_def algebra_simps)
  also have "\<dots> < ?t * (active_share d + 1000 * ?i div ?t) + 8 * ?t" using t by simp
  also have "\<dots> = ?t * (active_share d + 1000 * ?i div ?t + 8)"
    by (simp add: algebra_simps)
  finally have "1000 < active_share d + 1000 * ?i div ?t + 8" by simp
  then show ?thesis by simp
qed

lemma cpu_permille_entries:
  assumes "fits d" "cpu_permille d = Some p"
  shows "\<forall>x\<in>set (active p). unat x \<le> 1000"
    and "(\<Sum>x\<leftarrow>active p. unat x) = active_share d"
    and "unat (a_idle p) = 1000 - active_share d"
    and "map unat (active p) = map (\<lambda>x. 1000 * unat x div exact_total d) (active d)"
proof -
  let ?s = "\<lambda>x. 1000 * x div total_diff d"
  have p: "active p = map ?s (active d)"
    "a_idle p = 1000 - sum_list (map ?s (active d))"
    using assms(2)
    by (auto simp: cpu_permille_def Let_def active_def add.assoc split: if_splits)
  have share: "unat (?s x) = 1000 * unat x div exact_total d" if "x \<in> set (active d)" for x
    using that unat_share [OF assms(1)] by (auto simp: active_def entries_def)
  then show "map unat (active p) = map (\<lambda>x. 1000 * unat x div exact_total d) (active d)"
    by (simp add: p(1) comp_def cong: map_cong)
  have le: "active_share d \<le> 1000" using active_share_upper [OF assms(1)] by simp
  then show sum: "(\<Sum>x\<leftarrow>active p. unat x) = active_share d"
    by (simp add: p(1) comp_def active_share_def share cong: map_cong)
  have "unat x \<le> (\<Sum>x\<leftarrow>active p. unat x)" if "x \<in> set (active p)" for x
    using that by (auto intro: member_le_sum_list)
  with sum le show "\<forall>x\<in>set (active p). unat x \<le> 1000" by fastforce
  have "unat (sum_list (map ?s (active d))) = (\<Sum>x\<leftarrow>active p. unat x) mod 2 ^ 64"
    by (simp add: unat_sum_list p(1))
  with sum le have "unat (sum_list (map ?s (active d))) = active_share d" by simp
  then show "unat (a_idle p) = 1000 - active_share d"
    using le by (simp add: p(2) unat_sub word_le_nat_alt)
qed

section \<open>Wrapping counters\<close>

text \<open>The per-CPU counters of a later sample: those of an earlier one plus increments.\<close>

definition advance :: "kcpustat \<Rightarrow> kcpustat \<Rightarrow> kcpustat" where
  "advance k d =
     \<lparr>k_user = k_user k + k_user d, k_nice = k_nice k + k_nice d,
      k_system = k_system k + k_system d, k_idle = k_idle k + k_idle d,
      k_iowait = k_iowait k + k_iowait d, k_irq = k_irq k + k_irq d,
      k_softirq = k_softirq k + k_softirq d, k_steal = k_steal k + k_steal d,
      k_guest = k_guest k + k_guest d, k_guest_nice = k_guest_nice k + k_guest_nice d\<rparr>"

lemma cpu_diff_add_cpu:
  "cpu_diff (add_cpu (advance k d) t) (add_cpu k t') = add_cpu d (cpu_diff t t')"
  by (simp add: cpu_diff_def add_cpu_def advance_def)

lemma cpu_diff_fold:
  "length ks = length ds \<Longrightarrow>
     cpu_diff (fold add_cpu (map2 advance ks ds) t) (fold add_cpu ks t') =
     fold add_cpu ds (cpu_diff t t')"
  by (induction ks ds arbitrary: t t' rule: list_induct2) (auto simp: cpu_diff_add_cpu)

lemma cpu_diff_self [simp]: "cpu_diff t t = zero_cpu_time"
  by (simp add: cpu_diff_def zero_cpu_time_def)

section \<open>Properties\<close>

lemma cpu_permille_complete:
  assumes "fits d" and "cpu_permille d = Some p"
  shows "exact_total p = 1000
    \<and> 1000 * unat (a_idle d) div exact_total d \<le> unat (a_idle p)
    \<and> unat (a_idle p) \<le> 1000 * unat (a_idle d) div exact_total d + 7"
  using cpu_permille_entries [OF assms] active_share_upper [OF assms(1)] active_share_lower [OF assms(1)]
  by (auto simp: exact_total_split)

text \<open>
  The line depends on what was accounted between the two samples only: not on the state
  before, not on the absolute value of the per-CPU counters, and not on whether a counter or
  a sum over CPUs wrapped around \<open>2 ^ 64\<close> in between.
\<close>

lemma cpu_line_of_increments:
  assumes "length ks = length ds"
  shows "print_cpu_usage_statistics (update_cpu_times (map2 advance ks ds) (update_cpu_times ks s))
    = map_option cpu_line (cpu_permille (fold add_cpu ds zero_cpu_time))"
  using assms
  by (simp add: print_cpu_usage_statistics_def update_cpu_times_def cpu_diff_fold)

text \<open>
  The module \<open>cpu_usage3.c\<close> prints the line that two updates of \<open>ste_top.c\<close> over the
  same samples print, whatever the state of \<open>ste_top\<close> was before.
\<close>

lemma cpu_usage3_same_line:
  "cpu_usage3_init ks ks' =
     print_cpu_usage_statistics (update_cpu_times ks' (update_cpu_times ks s))"
  by (simp add: cpu_usage3_init_def print_cpu_usage_statistics_def update_cpu_times_def
      foldl_conv_fold)

text \<open>
  C4. The CPU line accounts for the whole interval between its two samples, \<open>d\<close>, whatever the
  counters were before and even when they wrap in between: unless a product wraps, \<open>ste_top\<close> and
  \<open>cpu_usage3\<close> both print, for seven of the states, the exact share in permille rounded down,
  and the idle share as what is missing to exactly 1000. The remainder is never negative, and it
  is at most 7 permille above the exact idle share (what the other roundings lose).
\<close>

theorem cpu_line_complete:
  assumes "length ks = length ds" and "fits (fold add_cpu ds zero_cpu_time)"
  shows "\<exists>d p. d = fold add_cpu ds zero_cpu_time
    \<and> print_cpu_usage_statistics (update_cpu_times (map2 advance ks ds) (update_cpu_times ks s)) = Some (cpu_line p)
    \<and> cpu_usage3_init ks (map2 advance ks ds) = Some (cpu_line p)
    \<and> map unat (active p) = map (\<lambda>x. 1000 * unat x div exact_total d) (active d)
    \<and> exact_total p = 1000
    \<and> 1000 * unat (a_idle d) div exact_total d \<le> unat (a_idle p)
    \<and> unat (a_idle p) \<le> 1000 * unat (a_idle d) div exact_total d + 7"
proof -
  let ?d = "fold add_cpu ds zero_cpu_time"
  from cpu_permille_Some [OF assms(2)] obtain p where p: "cpu_permille ?d = Some p" by blast
  have line: "print_cpu_usage_statistics (update_cpu_times (map2 advance ks ds) (update_cpu_times ks s))
      = Some (cpu_line p)" for s
    by (simp add: cpu_line_of_increments [OF assms(1)] p)
  then show ?thesis
    using cpu_permille_complete [OF assms(2) p] cpu_permille_entries(4) [OF assms(2) p]
    by (intro exI [of _ ?d] exI [of _ p]) (simp add: cpu_usage3_same_line [of _ _ s] line)
qed

theorem cpu_line_complete_witness:
  "let k = \<lparr>k_user = 2 ^ 64 - 1, k_nice = 0, k_system = 0, k_idle = 5, k_iowait = 0, k_irq = 0,
            k_softirq = 0, k_steal = 0, k_guest = 0, k_guest_nice = 0\<rparr>;
       d = \<lparr>k_user = 1, k_nice = 0, k_system = 0, k_idle = 2, k_iowait = 0, k_irq = 0,
            k_softirq = 0, k_steal = 0, k_guest = 0, k_guest_nice = 0\<rparr>;
       s = \<lparr>old_all_cpu_time = zero_cpu_time, new_all_cpu_time = zero_cpu_time\<rparr>
   in k_user (advance k d) = 0 \<and>
      (\<exists>p. print_cpu_usage_statistics (update_cpu_times [advance k d] (update_cpu_times [k] s)) = Some (cpu_line p) \<and>
        unat (a_user p) = 333 \<and> exact_total p = 1000 \<and> unat (a_idle p) \<in> {666..673})"
proof -
  define k where "k = \<lparr>k_user = 2 ^ 64 - 1 :: u64, k_nice = 0, k_system = 0, k_idle = 5, k_iowait = 0,
    k_irq = 0, k_softirq = 0, k_steal = 0, k_guest = 0, k_guest_nice = 0\<rparr>"
  define d where "d = \<lparr>k_user = 1 :: u64, k_nice = 0, k_system = 0, k_idle = 2, k_iowait = 0,
    k_irq = 0, k_softirq = 0, k_steal = 0, k_guest = 0, k_guest_nice = 0\<rparr>"
  have sum: "fold add_cpu [d] zero_cpu_time = zero_cpu_time\<lparr>a_user := 1, a_idle := 2\<rparr>"
    by (simp add: d_def add_cpu_def zero_cpu_time_def)
  have "fits (fold add_cpu [d] zero_cpu_time)"
    unfolding sum by (simp add: fits_def exact_total_def entries_def zero_cpu_time_def)
  from cpu_line_complete [of "[k]", OF _ this,
      of "\<lparr>old_all_cpu_time = zero_cpu_time, new_all_cpu_time = zero_cpu_time\<rparr>"]
  have "\<exists>p. print_cpu_usage_statistics (update_cpu_times [advance k d] (update_cpu_times [k]
        \<lparr>old_all_cpu_time = zero_cpu_time, new_all_cpu_time = zero_cpu_time\<rparr>)) = Some (cpu_line p) \<and>
        unat (a_user p) = 333 \<and> exact_total p = 1000 \<and> unat (a_idle p) \<in> {666..673}"
    unfolding sum by (auto simp: exact_total_def entries_def active_def zero_cpu_time_def)
  then show ?thesis by (simp add: k_def d_def advance_def)
qed

end
