(* ===== verification/CpuPercent.thy ===== *)
theory CpuPercent
  imports CpuTimes
begin

text \<open>
  The busy percentage most of the monitors print, and two modules built on it: the timer
  module \<open>cpu_usage2.c\<close> (the counters of all possible CPUs, one sample per second) and the
  kernel thread of \<open>cpu.c\<close>, which works from the idle time alone.
\<close>

section \<open>The busy percentage\<close>

text \<open>\<open>usage = 100 * (diff_total - diff_idle) / diff_total\<close> on \<open>unsigned long\<close>.\<close>

definition busy_pct :: "u64 \<Rightarrow> u64 \<Rightarrow> u64" where
  "busy_pct diff_total diff_idle = 100 * (diff_total - diff_idle) div diff_total"

lemma unat_busy_pct:
  assumes "unat di \<le> unat dt" "100 * unat dt < 2 ^ 64"
  shows "unat (busy_pct dt di) = 100 * (unat dt - unat di) div unat dt"
proof -
  have sub: "unat (dt - di) = unat dt - unat di"
    using assms(1) by (simp add: unat_sub word_le_nat_alt)
  with assms(2) have "unat (100 :: u64) * unat (dt - di) < 2 ^ 64" by simp
  from unat_scaled_div [OF this, of dt] show ?thesis unfolding busy_pct_def sub by simp
qed

lemma busy_pct_le:
  assumes "unat di \<le> unat dt" "100 * unat dt < 2 ^ 64"
  shows "unat (busy_pct dt di) \<le> 100"
  using assms by (cases "unat dt = 0") (auto simp: unat_busy_pct intro: nat_share_le)

text \<open>The value is stored in a \<open>long\<close>; where it is a percentage the sign bit is clear.\<close>

lemma sint_small:
  assumes "unat (x :: u64) < 2 ^ 63"
  shows "sint x = int (unat x)"
proof -
  have "int (unat x) < int (2 ^ 63)" using assms by (rule of_nat_less_iff [THEN iffD2])
  then have "uint x < 2 ^ 63" by simp
  moreover have "- (2 ^ 63) \<le> uint x" by (rule order_trans [OF _ uint_ge_0]) simp
  ultimately have "signed_take_bit 63 (uint x) = uint x"
    by (rule signed_take_bit_int_eq_self [rotated])
  then show ?thesis by (simp add: sint_uint)
qed

lemma sint_busy_pct:
  assumes "unat di \<le> unat dt" "100 * unat dt < 2 ^ 64"
  shows "sint (busy_pct dt di) = int (100 * (unat dt - unat di) div unat dt)"
  using sint_small [of "busy_pct dt di"] unat_busy_pct [OF assms] busy_pct_le [OF assms] by simp

section \<open>The timer module\<close>

record usage2_state =
  u2_prev_idle :: u64
  u2_prev_total :: u64

definition get_cpu_times :: "kcpustat list \<Rightarrow> u64 \<times> u64" where
  "get_cpu_times possible =
     (let t = fold add_cpu possible zero_cpu_time
      in (a_idle t,
          a_user t + a_nice t + a_system t + a_idle t + a_iowait t + a_irq t + a_softirq t
          + a_steal t))"

definition get_cpu_usage :: "kcpustat list \<Rightarrow> usage2_state \<Rightarrow> int option \<times> usage2_state" where
  "get_cpu_usage possible s =
     (let (idle, total) = get_cpu_times possible;
          delta_idle = idle - u2_prev_idle s;
          delta_total = total - u2_prev_total s;
          s' = \<lparr>u2_prev_idle = idle, u2_prev_total = total\<rparr>
      in (if delta_total \<noteq> 0 then (Some (sint (busy_pct delta_total delta_idle)), s')
          else (None, s')))"

text \<open>
  The timer handler prints the usage and arms the timer for one second from \<open>jiffies\<close>;
  \<open>m2j\<close> is the kernel's \<open>msecs_to_jiffies\<close>. The last component is the new expiry.
\<close>

definition timer_callback ::
  "(nat \<Rightarrow> nat) \<Rightarrow> nat \<Rightarrow> kcpustat list \<Rightarrow> usage2_state \<Rightarrow> int option \<times> usage2_state \<times> nat" where
  "timer_callback m2j jiffies possible s =
     (let (usage, s') = get_cpu_usage possible s in (usage, s', jiffies + m2j 1000))"

lemma get_cpu_times_diff:
  assumes "length ks = length ds"
    and "get_cpu_times (map2 advance ks ds) = (i', t')" and "get_cpu_times ks = (i, t)"
  shows "i' - i = a_idle (fold add_cpu ds zero_cpu_time)"
    and "t' - t = total_diff (fold add_cpu ds zero_cpu_time)"
proof -
  have d: "fold add_cpu ds zero_cpu_time =
      cpu_diff (fold add_cpu (map2 advance ks ds) zero_cpu_time) (fold add_cpu ks zero_cpu_time)"
    using assms(1) by (simp add: cpu_diff_fold)
  from assms(2,3) show "i' - i = a_idle (fold add_cpu ds zero_cpu_time)"
    unfolding d by (auto simp: get_cpu_times_def Let_def cpu_diff_def)
  from assms(2,3) show "t' - t = total_diff (fold add_cpu ds zero_cpu_time)"
    unfolding d by (auto simp: get_cpu_times_def Let_def cpu_diff_def total_diff_def)
qed

lemma snd_get_cpu_usage:
  "get_cpu_times ks = (i, t) \<Longrightarrow> snd (get_cpu_usage ks s) = \<lparr>u2_prev_idle = i, u2_prev_total = t\<rparr>"
  by (simp add: get_cpu_usage_def Let_def)

lemma idle_le_exact_total: "unat (a_idle d) \<le> exact_total d"
  by (simp add: exact_total_def entries_def)

section \<open>The kernel thread of cpu.c\<close>

text \<open>
  One round of the thread for an idle-time reading (in microseconds), and the rounds until
  the thread is told to stop. The first round only records the reading; so does every round
  after a reading of 0.
\<close>

definition cpu_usage_round :: "u64 \<Rightarrow> u64 \<Rightarrow> u64 option \<times> u64" where
  "cpu_usage_round idle_time prev_idle_time =
     ((if prev_idle_time \<noteq> 0
       then Some (100 - (idle_time - prev_idle_time) * 100 div 1000000) else None),
      idle_time)"

fun cpu_usage_thread :: "u64 list \<Rightarrow> u64 \<Rightarrow> u64 list" where
  "cpu_usage_thread [] prev = []"
| "cpu_usage_thread (idle_time # readings) prev =
     (let (usage, prev') = cpu_usage_round idle_time prev
      in (case usage of None \<Rightarrow> [] | Some u \<Rightarrow> [u]) @ cpu_usage_thread readings prev')"

section \<open>What is printed\<close>

text \<open>
  Between two samples of \<open>cpu_usage2.c\<close> the module prints the exact busy percentage of
  the increments, rounded down, which lies between 0 and 100; it prints a value whenever any
  time was accounted. The absolute counter values and their wrap-around play no part.
\<close>

lemma get_cpu_usage_percent:
  assumes "length ks = length ds" and "fits (fold add_cpu ds zero_cpu_time)"
  shows "\<exists>u s''. get_cpu_usage (map2 advance ks ds) (snd (get_cpu_usage ks s)) = (Some u, s'')
    \<and> u = int (100 * (exact_total (fold add_cpu ds zero_cpu_time)
                      - unat (a_idle (fold add_cpu ds zero_cpu_time)))
               div exact_total (fold add_cpu ds zero_cpu_time))
    \<and> 0 \<le> u \<and> u \<le> 100"
proof -
  let ?d = "fold add_cpu ds zero_cpu_time"
  obtain i t i' t' where
    s1: "get_cpu_times ks = (i, t)" and s2: "get_cpu_times (map2 advance ks ds) = (i', t')"
    by (meson surj_pair)
  note d = get_cpu_times_diff [OF assms(1) s2 s1]
  have tot: "unat (total_diff ?d) = exact_total ?d"
    using assms(2) by (simp add: unat_total_diff fits_def)
  with assms(2) have nz: "total_diff ?d \<noteq> 0" by (auto simp: fits_def)
  have pre: "unat (a_idle ?d) \<le> unat (total_diff ?d)" "100 * unat (total_diff ?d) < 2 ^ 64"
    using assms(2) idle_le_exact_total by (simp_all add: tot fits_def)
  have g: "get_cpu_usage (map2 advance ks ds) (snd (get_cpu_usage ks s))
      = (Some (sint (busy_pct (total_diff ?d) (a_idle ?d))),
         \<lparr>u2_prev_idle = i', u2_prev_total = t'\<rparr>)"
    using nz unfolding d(1) [symmetric] d(2) [symmetric] snd_get_cpu_usage [OF s1] by (simp add: get_cpu_usage_def s2 Let_def)
  show ?thesis
    unfolding g
    using sint_busy_pct [OF pre] unat_busy_pct [OF pre] busy_pct_le [OF pre]
    by (simp only: tot prod.inject simp_thms) (metis (no_types, lifting) of_nat_0_le_iff of_nat_le_iff of_nat_numeral)
qed

text \<open>
  The thread of \<open>cpu.c\<close> assumes that no more than one second of idle time passes between
  two readings, although it sleeps for at least one second. Its value is a percentage exactly
  while the idle time grew by less than 1010000 microseconds; beyond that the unsigned
  subtraction wraps and the printed number is above \<open>2 ^ 63\<close>.
\<close>

lemma cpu_usage_round_wraps:
  assumes "prev \<noteq> 0" and "100 * unat delta < 2 ^ 64"
    and "fst (cpu_usage_round (prev + delta) prev) = Some u"
  shows "if unat delta < 1010000
    then unat u = 100 - 100 * unat delta div 1000000 \<and> unat u \<le> 100
    else unat u > 2 ^ 63"
proof -
  let ?q = "delta * 100 div 1000000"
  have q: "unat ?q = 100 * unat delta div 1000000"
    using assms(2) by (simp add: unat_div unat_word_ariths mult.commute)
  have u: "u = 100 - ?q" using assms(1,3) by (simp add: cpu_usage_round_def)
  show ?thesis
  proof (cases "unat delta < 1010000")
    case True
    then have "unat ?q \<le> 100" unfolding q by linarith
    then have "?q \<le> 100" by (simp add: word_le_nat_alt)
    with True show ?thesis unfolding u by (simp add: unat_sub q)
  next
    case False
    then have lo: "101 \<le> unat ?q" unfolding q by linarith
    have hi: "unat ?q < 2 ^ 62" unfolding q using assms(2) by simp
    from lo hi have "unat u = 2 ^ 64 + 100 - unat ?q"
      unfolding u by (simp add: unat_sub_if')
    with False hi show ?thesis by simp
  qed
qed

end
