(* ===== verification/WdCore.thy ===== *)
theory WdCore
  imports CpuPercent
begin

text \<open>
  What the load watchdogs of \<open>load_softwdt.c\<close>, \<open>load_softwdt2.c\<close> and \<open>load_softwdt3.c\<close>
  share: a timer that counts a timeout when it expires, a delayed work that pushes the timer
  back (feeds the watchdog) and queues itself again, and a second work that prints what the
  CPUs are doing. This theory holds their common state, the step relation of the kernel
  running the handlers, the contract of a feed and a timeout handler, and what follows for
  every watchdog that meets it. Time is counted in jiffies; \<open>m2j\<close> is the kernel's
  \<open>msecs_to_jiffies\<close>.
\<close>

section \<open>Common state\<close>

datatype msg =
    Init_msg
  | Exit_msg
  | Failed_msg
  | Kick_msg
  | Timeout_msg u32
  | Usage_header
  | Counters_msg nat u64 u64 u64 u64 u64 u64
  | Usage_msg nat int int
  | No_update_msg nat
  | Collect_msg nat u64 u64 u64

record wd =
  kick_time :: u32
  wd_work :: "nat option"        \<comment> \<open>the delayed work: when it is due, if it is queued\<close>
  wd_expires :: nat              \<comment> \<open>the timer's expiry\<close>
  wd_pending :: bool             \<comment> \<open>whether the timer is armed\<close>
  wd_count :: u32                \<comment> \<open>timeouts so far\<close>
  wd_aux :: bool                 \<comment> \<open>whether the reporting work is queued\<close>
  dmesg :: "msg list"

definition printk :: "msg \<Rightarrow> 'x wd_scheme \<Rightarrow> 'x wd_scheme" where
  "printk m s = s\<lparr>dmesg := dmesg s @ [m]\<rparr>"

definition mod_timer :: "nat \<Rightarrow> 'x wd_scheme \<Rightarrow> 'x wd_scheme" where
  "mod_timer t s = s\<lparr>wd_expires := t, wd_pending := True\<rparr>"

text \<open>Queueing a work that is queued already leaves it as it is.\<close>

definition queue_delayed :: "nat \<Rightarrow> 'x wd_scheme \<Rightarrow> 'x wd_scheme" where
  "queue_delayed due s = (case wd_work s of None \<Rightarrow> s\<lparr>wd_work := Some due\<rparr> | Some _ \<Rightarrow> s)"

section \<open>The kernel runs the handlers\<close>

text \<open>
  The four kinds of step: a jiffy passes, a due work runs, an expired timer fires, the
  reporting work runs. The kernel takes a work off the queue and disarms the timer before it
  calls the handler. Work is served promptly: time does not pass beyond \<open>lat\<close> jiffies after
  a queued work is due. The environment \<open>e\<close> (the CPU counters at that moment) is arbitrary.
\<close>

inductive wd_step ::
  "(nat \<Rightarrow> 'e \<Rightarrow> 'x wd_scheme \<Rightarrow> 'x wd_scheme outcome)
   \<Rightarrow> (nat \<Rightarrow> 'e \<Rightarrow> 'x wd_scheme \<Rightarrow> 'x wd_scheme outcome)
   \<Rightarrow> nat \<Rightarrow> nat \<times> 'x wd_scheme \<Rightarrow> nat \<times> 'x wd_scheme \<Rightarrow> bool"
  for feed timeout lat where
  tick: "(\<And>d. wd_work s = Some d \<Longrightarrow> now < d + lat) \<Longrightarrow>
     wd_step feed timeout lat (now, s) (Suc now, s)"
| run: "wd_work s = Some d \<Longrightarrow> d \<le> now \<Longrightarrow> feed now e (s\<lparr>wd_work := None\<rparr>) = Inr s' \<Longrightarrow>
     wd_step feed timeout lat (now, s) (now, s')"
| fire: "wd_pending s \<Longrightarrow> wd_expires s \<le> now \<Longrightarrow>
     timeout now e (s\<lparr>wd_pending := False\<rparr>) = Inr s' \<Longrightarrow>
     wd_step feed timeout lat (now, s) (now, s')"
| report: "wd_aux s \<Longrightarrow> wd_step feed timeout lat (now, s) (now, s\<lparr>wd_aux := False\<rparr>)"

inductive_cases wd_stepE: "wd_step feed timeout lat (now, s) c"

inductive wd_reach ::
  "(nat \<Rightarrow> 'e \<Rightarrow> 'x wd_scheme \<Rightarrow> 'x wd_scheme outcome)
   \<Rightarrow> (nat \<Rightarrow> 'e \<Rightarrow> 'x wd_scheme \<Rightarrow> 'x wd_scheme outcome)
   \<Rightarrow> nat \<Rightarrow> nat \<times> 'x wd_scheme \<Rightarrow> nat \<times> 'x wd_scheme \<Rightarrow> bool"
  for feed timeout lat c where
  start: "wd_reach feed timeout lat c c"
| step: "wd_reach feed timeout lat c c' \<Longrightarrow> wd_step feed timeout lat c' c'' \<Longrightarrow>
     wd_reach feed timeout lat c c''"

text \<open>
  A watchdog whose work queue is stuck: only the timer runs. Each element of the list is the
  environment of one expiry; a timer that is not armed stays silent.
\<close>

fun expiries ::
  "(nat \<Rightarrow> 'e \<Rightarrow> 'x wd_scheme \<Rightarrow> 'x wd_scheme outcome)
   \<Rightarrow> 'e list \<Rightarrow> 'x wd_scheme \<Rightarrow> 'x wd_scheme outcome" where
  "expiries timeout [] s = Inr s"
| "expiries timeout (e # es) s =
     (if wd_pending s
      then bnd (timeout (wd_expires s) e (s\<lparr>wd_pending := False\<rparr>)) (expiries timeout es)
      else Inr s)"

text \<open>
  The timer of a watchdog whose handler keeps an invariant and does not fault where it holds fires
  any number of times.
\<close>

lemma expiries_total:
  assumes "I s" "\<forall>e\<in>set es. P e" "\<And>t. I (t\<lparr>wd_pending := False\<rparr>) = I t"
    and "\<And>now e t. P e \<Longrightarrow> I t \<Longrightarrow> \<exists>t'. timeout now e t = Inr t' \<and> I t'"
  shows "\<exists>s'. expiries timeout es s = Inr s' \<and> I s'"
  using assms(1,2)
proof (induction es arbitrary: s)
  case (Cons e es)
  from assms(4) [of e "s\<lparr>wd_pending := False\<rparr>" "wd_expires s"] Cons.prems obtain t where
    "timeout (wd_expires s) e (s\<lparr>wd_pending := False\<rparr>) = Inr t" "I t" by (auto simp: assms(3))
  with Cons show ?case by simp
qed simp

text \<open>
  While the delayed work is served within \<open>lat\<close> jiffies of its due time and this slack fits
  between the kick interval and the timeout, the timer is always ahead of the work.
\<close>

definition wd_ahead :: "nat \<Rightarrow> u32 \<Rightarrow> u32 \<Rightarrow> nat \<times> 'x wd_scheme \<Rightarrow> bool" where
  "wd_ahead lat kick n c \<longleftrightarrow>
     (case c of (now, s) \<Rightarrow>
        kick_time s = kick \<and> wd_count s = n
        \<and> (\<exists>d. wd_work s = Some d \<and> now \<le> d + lat
               \<and> (wd_pending s \<longrightarrow> d + lat < wd_expires s)))"

section \<open>The contract of a watchdog\<close>

text \<open>
  A feed pushes the timer \<open>period\<close> milliseconds ahead, queues itself \<open>kick_time\<close> milliseconds
  ahead and counts nothing. A timeout counts one and leaves the delayed work alone.
\<close>

locale watchdog =
  fixes feed :: "nat \<Rightarrow> 'e \<Rightarrow> 'x wd_scheme \<Rightarrow> 'x wd_scheme outcome"
    and timeout :: "nat \<Rightarrow> 'e \<Rightarrow> 'x wd_scheme \<Rightarrow> 'x wd_scheme outcome"
    and m2j :: "nat \<Rightarrow> nat"
    and period :: nat
  assumes feed_effect: "feed now e s = Inr s' \<Longrightarrow>
      wd_pending s' \<and> wd_expires s' = now + m2j period
      \<and> wd_work s' = (case wd_work s of None \<Rightarrow> Some (now + m2j (unat (kick_time s)))
                                      | Some d \<Rightarrow> Some d)
      \<and> wd_count s' = wd_count s \<and> kick_time s' = kick_time s"
    and timeout_effect: "timeout now e s = Inr s' \<Longrightarrow>
      wd_count s' = wd_count s + 1 \<and> wd_work s' = wd_work s \<and> kick_time s' = kick_time s"
begin

lemma step_ahead:
  assumes "wd_step feed timeout lat c c'" "wd_ahead lat kick n c"
    and slack: "m2j (unat kick) + lat < m2j period"
  shows "wd_ahead lat kick n c'"
  using assms(1,2)
proof (cases rule: wd_step.cases)
  case (run s d now e s')
  then have "kick_time s = kick" "wd_count s = n"
    using assms(2) by (auto simp: wd_ahead_def)
  with feed_effect [OF run(5)] slack show ?thesis
    by (auto simp: run wd_ahead_def)
next
  case (fire s now e s')
  with assms(2) have False by (auto simp: wd_ahead_def)
  then show ?thesis ..
qed (auto simp: wd_ahead_def Suc_le_eq)

lemma reach_ahead:
  assumes "wd_reach feed timeout lat c c'" "wd_ahead lat kick n c"
    and "m2j (unat kick) + lat < m2j period"
  shows "wd_ahead lat kick n c'"
  using assms by (induction rule: wd_reach.induct) (auto intro: step_ahead)

lemma reach_never_expires:
  assumes "wd_reach feed timeout lat c (now, s)" "wd_ahead lat kick n c"
    and "m2j (unat kick) + lat < m2j period"
  shows "wd_count s = n \<and> (wd_pending s \<longrightarrow> now < wd_expires s)"
  using reach_ahead [OF assms] by (auto simp: wd_ahead_def)

text \<open>The work is queued again in every reachable state: the feeding never stops.\<close>

lemma reach_keeps_feeding:
  assumes "wd_reach feed timeout lat c (now, s)" "wd_ahead lat kick n c"
    and "m2j (unat kick) + lat < m2j period"
  shows "wd_work s \<noteq> None"
  using reach_ahead [OF assms] by (auto simp: wd_ahead_def)

text \<open>A silent watchdog stays silent while its work is stuck.\<close>

lemma expiries_silent: "\<not> wd_pending s \<Longrightarrow> expiries timeout es s = Inr s"
  by (cases es) auto

end

text \<open>A watchdog whose timeout handler always arms the timer again.\<close>

locale rearming_watchdog = watchdog +
  assumes timeout_rearms: "timeout now e s = Inr s' \<Longrightarrow>
      wd_pending s' \<and> wd_expires s' = now + m2j period"
begin

lemma expiries_count:
  assumes "expiries timeout es s = Inr s'" "wd_pending s"
  shows "wd_count s' = wd_count s + of_nat (length es) \<and> wd_pending s'
    \<and> wd_expires s' = wd_expires s + length es * m2j period"
  using assms
proof (induction es arbitrary: s)
  case (Cons e es)
  then obtain t where t: "timeout (wd_expires s) e (s\<lparr>wd_pending := False\<rparr>) = Inr t"
    "expiries timeout es t = Inr s'" by (auto simp: outcome_simps)
  with timeout_rearms [OF t(1)] timeout_effect [OF t(1)] Cons.IH [OF t(2)]
  show ?case by (auto simp: algebra_simps)
qed simp

end

text \<open>
  A watchdog whose timeout handler arms the timer for the first nine timeouts and every tenth
  one only: its eleventh timeout is the last.
\<close>

locale giving_up_watchdog = watchdog +
  assumes timeout_arms: "timeout now e s = Inr s' \<Longrightarrow>
      wd_pending s' \<longleftrightarrow> wd_pending s \<or> wd_count s + 1 < 10 \<or> (wd_count s + 1) mod 10 = 0"
begin

lemma expiries_give_up:
  "expiries timeout es s = Inr s' \<Longrightarrow> wd_pending s \<Longrightarrow> unat (wd_count s) = c \<Longrightarrow> c \<le> 10 \<Longrightarrow>
     unat (wd_count s') = min 11 (c + length es) \<and> (wd_pending s' \<longleftrightarrow> c + length es \<le> 10)"
proof (induction es arbitrary: s c)
  case (Cons e es)
  then obtain t where t: "timeout (wd_expires s) e (s\<lparr>wd_pending := False\<rparr>) = Inr t"
    "expiries timeout es t = Inr s'" by (auto simp: outcome_simps)
  have u: "unat (wd_count s + 1) = Suc c"
    using Cons.prems(3,4) by (simp add: unat_word_ariths)
  from timeout_effect [OF t(1)] timeout_arms [OF t(1)] have
    n: "unat (wd_count t) = Suc c" and
    p: "wd_pending t \<longleftrightarrow> wd_count s + 1 < 10 \<or> (wd_count s + 1) mod 10 = 0"
    by (simp_all add: u)
  have "wd_pending t \<longleftrightarrow> Suc c < 10 \<or> Suc c mod 10 = 0"
    unfolding p by (simp add: word_less_nat_alt word_unat_eq_iff unat_mod u)
  moreover have "c < 9 \<or> c = 9 \<or> c = 10" using Cons.prems(4) by linarith
  ultimately have pt: "wd_pending t \<longleftrightarrow> c < 10" by (elim disjE) simp_all
  show ?case
  proof (cases "c < 10")
    case True
    with Cons.IH [OF t(2) _ n] pt show ?thesis by simp
  next
    case False
    with pt t(2) have "s' = t" using expiries_silent [of t] by simp
    with False Cons.prems(4) n pt show ?thesis by simp
  qed
qed auto

end

lemmas wd_simps = printk_def mod_timer_def queue_delayed_def

end
