(* ===== verification/SoftWdt.thy ===== *)
theory SoftWdt
  imports WdCore
begin

text \<open>
  The load monitor of \<open>load_softwdt3.c\<close>: a software watchdog of 4 seconds that is fed every
  2 seconds. Each feed records the per-CPU counters; a timeout prints how busy every CPU was
  since the last feed and queues a report of what the CPUs run. Handlers may fault, because
  they index the array of recorded counters by CPU number.
\<close>

section \<open>State\<close>

datatype ste_cpu_metric_operation =
    STE_CPU_METRIC_CALCULATE_USAGE
  | STE_CPU_METRIC_COLLECT_TIMINGS

record ste_prev_cpu_usage_stats =
  prev_idle :: u64
  prev_total :: u64
  prev_interrupt :: u64

record softwdt = wd +
  softwdt_wq :: bool
  sleepable_task_wq :: bool
  prev_cpu_usage_stats :: "ste_prev_cpu_usage_stats buf"

text \<open>The online CPUs with their numbers and counters at one moment.\<close>

type_synonym cpus = "(nat \<times> kcpustat) list"

section \<open>Operations\<close>

definition cpu_total :: "kcpustat \<Rightarrow> u64" where
  "cpu_total k =
     k_user k + k_nice k + k_system k + k_idle k + k_iowait k + k_irq k + k_softirq k +
     k_steal k + k_guest k + k_guest_nice k"

definition cpu_interrupt :: "kcpustat \<Rightarrow> u64" where
  "cpu_interrupt k = k_irq k + k_softirq k"

text \<open>The usage message of one CPU: busy share and interrupt share of the time passed.\<close>

definition usage_msg :: "nat \<Rightarrow> u64 \<Rightarrow> u64 \<Rightarrow> u64 \<Rightarrow> msg" where
  "usage_msg cpu diff_total diff_idle diff_interrupt_time =
     (if diff_total \<noteq> 0
      then Usage_msg cpu (sint (busy_pct diff_total diff_idle))
             (sint (diff_interrupt_time * 100 div diff_total))
      else No_update_msg cpu)"

text \<open>The body of the loop over the online CPUs.\<close>

definition ste_cpu_stats_one ::
  "ste_cpu_metric_operation \<Rightarrow> nat \<times> kcpustat \<Rightarrow> softwdt \<Rightarrow> softwdt outcome" where
  "ste_cpu_stats_one op ck s =
     (let cpu = fst ck; k = snd ck; idle = k_idle k; total = cpu_total k;
          interrupt_time = cpu_interrupt k
      in bnd (buf_get (prev_cpu_usage_stats s) cpu) (\<lambda>prev.
         let diff_idle = idle - prev_idle prev;
             diff_total = total - prev_total prev;
             diff_interrupt_time = interrupt_time - prev_interrupt prev
         in case op of
              STE_CPU_METRIC_CALCULATE_USAGE \<Rightarrow>
                Inr (printk (usage_msg cpu diff_total diff_idle diff_interrupt_time)
                      (printk (Counters_msg cpu total idle diff_total diff_idle interrupt_time
                                 diff_interrupt_time) s))
            | STE_CPU_METRIC_COLLECT_TIMINGS \<Rightarrow>
                bnd (buf_set (prev_cpu_usage_stats s) cpu
                       \<lparr>prev_idle = idle, prev_total = total, prev_interrupt = interrupt_time\<rparr>)
                    (\<lambda>stats. Inr (printk (Collect_msg cpu total idle interrupt_time)
                                     (s\<lparr>prev_cpu_usage_stats := stats\<rparr>)))))"

definition ste_calculate_cpu_stats ::
  "ste_cpu_metric_operation \<Rightarrow> cpus \<Rightarrow> softwdt \<Rightarrow> softwdt outcome" where
  "ste_calculate_cpu_stats op online s =
     foldM (ste_cpu_stats_one op) online
       (if op = STE_CPU_METRIC_CALCULATE_USAGE then printk Usage_header s else s)"

text \<open>Feeding: record the counters, then push the timer 4000 ms ahead.\<close>

definition ste_softwdt_load_monitor_kick ::
  "(nat \<Rightarrow> nat) \<Rightarrow> nat \<Rightarrow> cpus \<Rightarrow> softwdt \<Rightarrow> softwdt outcome" where
  "ste_softwdt_load_monitor_kick m2j jiffies online s =
     bnd (ste_calculate_cpu_stats STE_CPU_METRIC_COLLECT_TIMINGS online (printk Kick_msg s))
         (\<lambda>s. Inr (mod_timer (jiffies + m2j 4000) s))"

definition ste_report :: "cpus \<Rightarrow> softwdt \<Rightarrow> softwdt outcome" where
  "ste_report online s =
     bnd (ste_calculate_cpu_stats STE_CPU_METRIC_CALCULATE_USAGE online s)
         (\<lambda>s. Inr (s\<lparr>wd_aux := True\<rparr>))"

definition ste_softwdt_load_monitor_timeout ::
  "(nat \<Rightarrow> nat) \<Rightarrow> nat \<Rightarrow> cpus \<Rightarrow> softwdt \<Rightarrow> softwdt outcome" where
  "ste_softwdt_load_monitor_timeout m2j jiffies online s =
     (let n = wd_count s + 1; s1 = printk (Timeout_msg n) (s\<lparr>wd_count := n\<rparr>)
      in bnd (if n \<le> 3 then ste_report online s1
              else if n mod 10 = 1 \<or> n mod 10 = 3 \<or> n mod 10 = 2 then ste_report online s1
              else Inr s1)
             (ste_softwdt_load_monitor_kick m2j jiffies online))"

definition ste_softwdt_load_monitor_feed_task ::
  "(nat \<Rightarrow> nat) \<Rightarrow> nat \<Rightarrow> cpus \<Rightarrow> softwdt \<Rightarrow> softwdt outcome" where
  "ste_softwdt_load_monitor_feed_task m2j jiffies online s =
     bnd (ste_softwdt_load_monitor_kick m2j jiffies online s)
         (\<lambda>s. Inr (queue_delayed (jiffies + m2j (unat (kick_time s))) s))"

text \<open>
  Loading. The three flags say whether the kernel grants the two work queues and the array
  (one zeroed entry per possible CPU). The timer is set up with an expiry but not armed; the
  first run of the delayed work arms it.
\<close>

definition zero_prev :: ste_prev_cpu_usage_stats where
  "zero_prev = \<lparr>prev_idle = 0, prev_total = 0, prev_interrupt = 0\<rparr>"

definition ste_softwdt_load_monitor_init ::
  "(nat \<Rightarrow> nat) \<Rightarrow> nat \<Rightarrow> bool \<Rightarrow> bool \<Rightarrow> bool \<Rightarrow> nat \<Rightarrow> int \<times> softwdt" where
  "ste_softwdt_load_monitor_init m2j jiffies wq1 wq2 stats possible =
     (let s = \<lparr>kick_time = 2000, wd_work = None, wd_expires = jiffies + m2j 4000,
               wd_pending = False, wd_count = 0, wd_aux = False, dmesg = [Init_msg],
               softwdt_wq = wq1, sleepable_task_wq = False, prev_cpu_usage_stats = NullP\<rparr>
      in if \<not> wq1 then (-1, printk Failed_msg s)
         else if \<not> wq2 then (-1, printk Failed_msg s)
         else let s = s\<lparr>sleepable_task_wq := True\<rparr>
              in if \<not> stats then (0, printk Failed_msg s)
                 else (0, queue_delayed jiffies
                            (s\<lparr>prev_cpu_usage_stats := Arr (replicate possible zero_prev)\<rparr>)))"

text \<open>
  Unloading, call by call. Destroying a work queue that was never created is a null
  dereference.
\<close>

definition exit_del_timer :: "softwdt \<Rightarrow> softwdt" where
  "exit_del_timer s = (printk Exit_msg s)\<lparr>wd_pending := False\<rparr>"

definition exit_rest :: "softwdt \<Rightarrow> softwdt outcome" where
  "exit_rest s =
     (let s = s\<lparr>wd_work := None, wd_aux := False\<rparr>
      in if \<not> softwdt_wq s \<or> \<not> sleepable_task_wq s then Inl Null_deref
         else Inr (s\<lparr>softwdt_wq := False, sleepable_task_wq := False,
                     prev_cpu_usage_stats := Freed\<rparr>))"

definition ste_softwdt_load_monitor_exit :: "softwdt \<Rightarrow> softwdt outcome" where
  "ste_softwdt_load_monitor_exit s = exit_rest (exit_del_timer s)"

section \<open>Lemmas\<close>

definition has_stats :: "nat \<Rightarrow> softwdt \<Rightarrow> bool" where
  "has_stats n s \<longleftrightarrow> (\<exists>ps. prev_cpu_usage_stats s = Arr ps \<and> length ps = n)"

definition cpus_ok :: "nat \<Rightarrow> cpus \<Rightarrow> bool" where
  "cpus_ok n online \<longleftrightarrow> (\<forall>(cpu, k)\<in>set online. cpu < n)"

text \<open>The loop changes nothing but the recorded counters and the log.\<close>

definition same_control :: "softwdt \<Rightarrow> softwdt \<Rightarrow> bool" where
  "same_control s s' \<longleftrightarrow>
     kick_time s' = kick_time s \<and> wd_work s' = wd_work s \<and> wd_expires s' = wd_expires s
     \<and> wd_pending s' = wd_pending s \<and> wd_count s' = wd_count s \<and> wd_aux s' = wd_aux s
     \<and> softwdt_wq s' = softwdt_wq s \<and> sleepable_task_wq s' = sleepable_task_wq s"

lemma same_control_refl [simp]: "same_control s s"
  by (simp add: same_control_def)

lemma same_control_trans: "same_control s t \<Longrightarrow> same_control t u \<Longrightarrow> same_control s u"
  by (simp add: same_control_def)

lemma same_control_printk [simp]: "same_control s (printk m s)"
  by (simp add: same_control_def printk_def)

lemma ste_cpu_stats_one_control:
  "ste_cpu_stats_one op ck s = Inr s' \<Longrightarrow> same_control s s' \<and> (has_stats n s \<longrightarrow> has_stats n s')"
  by (cases op)
     (auto simp: ste_cpu_stats_one_def Let_def outcome_simps same_control_def printk_def
       has_stats_def dest!: buf_set_Arr)

lemma ste_cpu_stats_one_total:
  "has_stats n s \<Longrightarrow> fst ck < n \<Longrightarrow> \<exists>s'. ste_cpu_stats_one op ck s = Inr s' \<and> has_stats n s'"
  by (cases op) (auto simp: ste_cpu_stats_one_def Let_def has_stats_def printk_def)

lemma ste_stats_control:
  assumes "ste_calculate_cpu_stats op online s = Inr s'"
  shows "same_control s s'"
proof -
  let ?s = "if op = STE_CPU_METRIC_CALCULATE_USAGE then printk Usage_header s else s"
  have "same_control ?s s'"
    by (rule foldM_inv [where P = "same_control ?s", OF assms [unfolded ste_calculate_cpu_stats_def]])
       (auto dest: ste_cpu_stats_one_control intro: same_control_trans)
  moreover have "same_control s ?s" by simp
  ultimately show ?thesis by (rule same_control_trans [rotated])
qed

lemma ste_stats_total:
  assumes "has_stats n s" "cpus_ok n online"
  shows "\<exists>s'. ste_calculate_cpu_stats op online s = Inr s' \<and> has_stats n s'"
proof -
  let ?s = "if op = STE_CPU_METRIC_CALCULATE_USAGE then printk Usage_header s else s"
  let ?I = "\<lambda>xs s. has_stats n s \<and> cpus_ok n xs"
  have "?I online ?s" using assms by (simp add: has_stats_def printk_def)
  then have "\<exists>s'. foldM (ste_cpu_stats_one op) online ?s = Inr s' \<and> ?I [] s'"
  proof (rule foldM_total)
    fix ck xs t
    assume "?I (ck # xs) t"
    then have "has_stats n t" "fst ck < n" "cpus_ok n xs"
      by (auto simp: cpus_ok_def split: prod.splits)
    with ste_cpu_stats_one_total show "\<exists>t'. ste_cpu_stats_one op ck t = Inr t' \<and> ?I xs t'"
      by blast
  qed
  then show ?thesis by (auto simp: ste_calculate_cpu_stats_def)
qed

lemma ste_kick_effect:
  "ste_softwdt_load_monitor_kick m2j now online s = Inr s' \<Longrightarrow>
     wd_pending s' \<and> wd_expires s' = now + m2j 4000 \<and> wd_work s' = wd_work s
     \<and> wd_count s' = wd_count s \<and> kick_time s' = kick_time s \<and> wd_aux s' = wd_aux s
     \<and> softwdt_wq s' = softwdt_wq s \<and> sleepable_task_wq s' = sleepable_task_wq s"
  by (auto simp: ste_softwdt_load_monitor_kick_def outcome_simps mod_timer_def
      same_control_def printk_def dest!: ste_stats_control)

lemma ste_kick_total:
  assumes "has_stats n s" "cpus_ok n online"
  shows "\<exists>s'. ste_softwdt_load_monitor_kick m2j now online s = Inr s' \<and> has_stats n s'"
proof -
  have "has_stats n (printk Kick_msg s)" using assms(1) by (simp add: has_stats_def printk_def)
  from ste_stats_total [OF this assms(2)] obtain t where
    "ste_calculate_cpu_stats STE_CPU_METRIC_COLLECT_TIMINGS online (printk Kick_msg s) = Inr t"
    "has_stats n t" by blast
  then show ?thesis
    by (simp add: ste_softwdt_load_monitor_kick_def mod_timer_def has_stats_def)
qed

lemma ste_feed_effect:
  assumes "ste_softwdt_load_monitor_feed_task m2j now online s = Inr s'"
  shows "wd_pending s' \<and> wd_expires s' = now + m2j 4000
     \<and> wd_work s' = (case wd_work s of None \<Rightarrow> Some (now + m2j (unat (kick_time s)))
                                     | Some d \<Rightarrow> Some d)
     \<and> wd_count s' = wd_count s \<and> kick_time s' = kick_time s"
proof -
  from assms obtain t where t: "ste_softwdt_load_monitor_kick m2j now online s = Inr t"
    "s' = queue_delayed (now + m2j (unat (kick_time t))) t"
    by (auto simp: ste_softwdt_load_monitor_feed_task_def bnd_eq_Inr)
  from ste_kick_effect [OF t(1)] show ?thesis
    by (cases "wd_work s") (simp_all add: t(2) queue_delayed_def)
qed

lemma ste_report_effect:
  "ste_report online s = Inr s' \<Longrightarrow>
     wd_count s' = wd_count s \<and> wd_work s' = wd_work s \<and> kick_time s' = kick_time s"
  by (auto simp: ste_report_def outcome_simps same_control_def dest!: ste_stats_control)

lemma ste_timeout_effect:
  assumes "ste_softwdt_load_monitor_timeout m2j now online s = Inr s'"
  shows "wd_pending s' \<and> wd_expires s' = now + m2j 4000
     \<and> wd_count s' = wd_count s + 1 \<and> wd_work s' = wd_work s \<and> kick_time s' = kick_time s"
proof -
  let ?s1 = "printk (Timeout_msg (wd_count s + 1)) (s\<lparr>wd_count := wd_count s + 1\<rparr>)"
  from assms obtain t where t: "ste_softwdt_load_monitor_kick m2j now online t = Inr s'"
    "ste_report online ?s1 = Inr t \<or> t = ?s1"
    by (auto simp: ste_softwdt_load_monitor_timeout_def Let_def bnd_eq_Inr split: if_splits)
  from t(2) have "wd_count t = wd_count s + 1 \<and> wd_work t = wd_work s \<and> kick_time t = kick_time s"
    by (auto simp: printk_def dest: ste_report_effect)
  with ste_kick_effect [OF t(1)] show ?thesis by simp
qed

interpretation softwdt: rearming_watchdog
  "ste_softwdt_load_monitor_feed_task m2j" "ste_softwdt_load_monitor_timeout m2j" m2j 4000
  by unfold_locales (use ste_feed_effect ste_timeout_effect in blast)+

section \<open>The recorded counters and the usage message\<close>

definition prev_of :: "kcpustat \<Rightarrow> ste_prev_cpu_usage_stats" where
  "prev_of k = \<lparr>prev_idle = k_idle k, prev_total = cpu_total k, prev_interrupt = cpu_interrupt k\<rparr>"

definition recorded :: "softwdt \<Rightarrow> cpus \<Rightarrow> bool" where
  "recorded s online \<longleftrightarrow>
     (\<exists>ps. prev_cpu_usage_stats s = Arr ps
           \<and> (\<forall>(cpu, k)\<in>set online. cpu < length ps \<and> ps ! cpu = prev_of k))"

lemma collect_one:
  "ste_cpu_stats_one STE_CPU_METRIC_COLLECT_TIMINGS (cpu, k) s = Inr s' \<Longrightarrow>
     \<exists>ps. prev_cpu_usage_stats s = Arr ps \<and> cpu < length ps
          \<and> prev_cpu_usage_stats s' = Arr (ps[cpu := prev_of k])"
  by (auto simp: ste_cpu_stats_one_def Let_def bnd_eq_Inr printk_def prev_of_def dest!: buf_set_Arr)

lemma collect_recorded:
  "foldM (ste_cpu_stats_one STE_CPU_METRIC_COLLECT_TIMINGS) online s = Inr s' \<Longrightarrow>
   distinct (map fst online) \<Longrightarrow> recorded s seen \<Longrightarrow> fst ` set seen \<inter> fst ` set online = {} \<Longrightarrow>
   has_stats n s \<Longrightarrow> recorded s' (seen @ online)"
proof (induction online arbitrary: s seen)
  case (Cons ck online)
  obtain cpu k where ck: "ck = (cpu, k)" by force
  from Cons.prems(1) obtain t where t: "ste_cpu_stats_one STE_CPU_METRIC_COLLECT_TIMINGS ck s = Inr t"
    "foldM (ste_cpu_stats_one STE_CPU_METRIC_COLLECT_TIMINGS) online t = Inr s'"
    by (auto simp: bnd_eq_Inr)
  from collect_one [OF t(1) [unfolded ck]] obtain ps where
    ps: "prev_cpu_usage_stats s = Arr ps" "cpu < length ps"
      "prev_cpu_usage_stats t = Arr (ps[cpu := prev_of k])" by blast
  have "c < length ps \<and> ps[cpu := prev_of k] ! c = prev_of k'"
    if "(c, k') \<in> set (seen @ [ck])" for c k'
  proof (cases "(c, k') \<in> set seen")
    case True
    with Cons.prems(4) have "c \<noteq> cpu" by (force simp: ck)
    with True Cons.prems(3) ps(1) show ?thesis by (auto simp: recorded_def)
  next
    case False
    with that ps(2) show ?thesis by (simp add: ck)
  qed
  then have "recorded t (seen @ [ck])"
    unfolding recorded_def ps(3) by (intro exI [of _ "ps[cpu := prev_of k]"]) fastforce
  moreover have "has_stats n t" using Cons.prems(5) ps by (auto simp: has_stats_def)
  moreover have "fst ` set (seen @ [ck]) \<inter> fst ` set online = {}" "distinct (map fst online)"
    using Cons.prems(2,4) by auto
  ultimately have "recorded s' ((seen @ [ck]) @ online)" using Cons.IH [OF t(2)] by blast
  then show ?case by simp
qed simp

lemma kick_recorded:
  assumes "ste_softwdt_load_monitor_kick m2j now online s = Inr s'"
    and "distinct (map fst online)" and "has_stats n s"
  shows "recorded s' online"
proof -
  from assms(1) obtain t where
    t: "foldM (ste_cpu_stats_one STE_CPU_METRIC_COLLECT_TIMINGS) online (printk Kick_msg s) = Inr t"
      "s' = mod_timer (now + m2j 4000) t"
    by (auto simp: ste_softwdt_load_monitor_kick_def ste_calculate_cpu_stats_def bnd_eq_Inr)
  have "has_stats n (printk Kick_msg s)" and "recorded (printk Kick_msg s) []"
    using assms(3) by (auto simp: has_stats_def recorded_def printk_def)
  from collect_recorded [OF t(1) assms(2) this(2) _ this(1)] show ?thesis
    by (simp add: t(2) recorded_def mod_timer_def)
qed

definition usage_msgs :: "ste_prev_cpu_usage_stats list \<Rightarrow> nat \<times> kcpustat \<Rightarrow> msg list" where
  "usage_msgs ps ck =
     (let cpu = fst ck; k = snd ck; p = ps ! cpu;
          di = k_idle k - prev_idle p; dt = cpu_total k - prev_total p;
          dq = cpu_interrupt k - prev_interrupt p
      in [Counters_msg cpu (cpu_total k) (k_idle k) dt di (cpu_interrupt k) dq,
          usage_msg cpu dt di dq])"

lemma report_loop_log:
  "prev_cpu_usage_stats s = Arr ps \<Longrightarrow> \<forall>(cpu, k)\<in>set online. cpu < length ps \<Longrightarrow>
     foldM (ste_cpu_stats_one STE_CPU_METRIC_CALCULATE_USAGE) online s
     = Inr (s\<lparr>dmesg := dmesg s @ concat (map (usage_msgs ps) online)\<rparr>)"
  by (induction online arbitrary: s)
     (auto simp: ste_cpu_stats_one_def Let_def usage_msgs_def printk_def)

lemma report_log:
  assumes "prev_cpu_usage_stats s = Arr ps" "\<forall>(cpu, k)\<in>set online. cpu < length ps"
  shows "ste_report online s =
    Inr (s\<lparr>dmesg := dmesg s @ Usage_header # concat (map (usage_msgs ps) online), wd_aux := True\<rparr>)"
  using assms by (simp add: ste_report_def ste_calculate_cpu_stats_def report_loop_log printk_def)

text \<open>The same in exact arithmetic, for the increments \<open>d\<close> of one CPU's counters.\<close>

definition cpu_entries :: "kcpustat \<Rightarrow> u64 list" where
  "cpu_entries d =
     [k_user d, k_nice d, k_system d, k_idle d, k_iowait d, k_irq d, k_softirq d, k_steal d,
      k_guest d, k_guest_nice d]"

definition cpu_time :: "kcpustat \<Rightarrow> nat" where
  "cpu_time d = (\<Sum>x\<leftarrow>cpu_entries d. unat x)"

lemma unat_cpu_total: "cpu_time d < 2 ^ 64 \<Longrightarrow> unat (cpu_total d) = cpu_time d"
proof -
  assume "cpu_time d < 2 ^ 64"
  moreover have "cpu_total d = sum_list (cpu_entries d)"
    by (simp add: cpu_total_def cpu_entries_def add.assoc)
  ultimately show ?thesis by (simp add: unat_sum_list cpu_time_def)
qed

lemma cpu_total_advance: "cpu_total (advance k d) - cpu_total k = cpu_total d"
  by (simp add: cpu_total_def advance_def)

lemma cpu_interrupt_advance: "cpu_interrupt (advance k d) - cpu_interrupt k = cpu_interrupt d"
  by (simp add: cpu_interrupt_def advance_def)

lemma usage_msg_exact:
  assumes "0 < cpu_time d" "100 * cpu_time d < 2 ^ 64"
  shows "usage_msg cpu (cpu_total d) (k_idle d) (cpu_interrupt d) =
    Usage_msg cpu (int (100 * (cpu_time d - unat (k_idle d)) div cpu_time d))
                  (int (100 * (unat (k_irq d) + unat (k_softirq d)) div cpu_time d))"
proof -
  have T: "unat (cpu_total d) = cpu_time d" using assms(2) by (simp add: unat_cpu_total)
  have le: "unat (k_idle d) \<le> cpu_time d" "unat (k_irq d) + unat (k_softirq d) \<le> cpu_time d"
    by (simp_all add: cpu_time_def cpu_entries_def)
  have q: "unat (cpu_interrupt d) = unat (k_irq d) + unat (k_softirq d)"
    using le(2) assms(2) by (simp add: cpu_interrupt_def unat_add_small)
  have "unat (100 :: u64) * unat (cpu_interrupt d) < 2 ^ 64"
    using le(2) assms(2) by (simp add: q)
  from unat_scaled_div [OF this, of "cpu_total d"]
  have i: "unat (cpu_interrupt d * 100 div cpu_total d)
      = 100 * (unat (k_irq d) + unat (k_softirq d)) div cpu_time d"
    by (simp add: q T mult.commute)
  have "unat (cpu_interrupt d * 100 div cpu_total d) \<le> 100"
    unfolding i by (rule nat_share_le [OF le(2) assms(1)])
  with i have "sint (cpu_interrupt d * 100 div cpu_total d)
      = int (100 * (unat (k_irq d) + unat (k_softirq d)) div cpu_time d)"
    by (subst sint_small) simp_all
  moreover have "cpu_total d \<noteq> 0" using T assms(1) by auto
  moreover have "sint (busy_pct (cpu_total d) (k_idle d))
      = int (100 * (cpu_time d - unat (k_idle d)) div cpu_time d)"
    using sint_busy_pct [of "k_idle d" "cpu_total d"] le(1) assms(2) by (simp add: T)
  ultimately show ?thesis by (simp add: usage_msg_def)
qed

lemma ste_timeout_total:
  assumes "has_stats n s" "cpus_ok n online"
  shows "\<exists>s'. ste_softwdt_load_monitor_timeout m2j now online s = Inr s' \<and> has_stats n s'"
proof -
  let ?s1 = "printk (Timeout_msg (wd_count s + 1)) (s\<lparr>wd_count := wd_count s + 1\<rparr>)"
  have s1: "has_stats n ?s1" using assms(1) by (simp add: has_stats_def printk_def)
  from ste_stats_total [OF this assms(2)] obtain u where
    "ste_calculate_cpu_stats STE_CPU_METRIC_CALCULATE_USAGE online ?s1 = Inr u" "has_stats n u"
    by blast
  then obtain t where "ste_report online ?s1 = Inr t" "has_stats n t"
    by (simp add: ste_report_def has_stats_def)
  with s1 ste_kick_total [OF _ assms(2)] show ?thesis
    by (auto simp: ste_softwdt_load_monitor_timeout_def Let_def)
qed

text \<open>Once the array is freed every handler faults on the first CPU.\<close>

lemma ste_stats_freed:
  "prev_cpu_usage_stats s = Freed \<Longrightarrow> online \<noteq> [] \<Longrightarrow>
     ste_calculate_cpu_stats op online s = Inl Use_after_free"
  by (cases online)
     (auto simp: ste_calculate_cpu_stats_def ste_cpu_stats_one_def printk_def Let_def)

lemma ste_timeout_freed:
  "prev_cpu_usage_stats s = Freed \<Longrightarrow> online \<noteq> [] \<Longrightarrow>
     ste_softwdt_load_monitor_timeout m2j now online s = Inl Use_after_free"
  by (simp add: ste_softwdt_load_monitor_timeout_def ste_report_def ste_stats_freed printk_def
      ste_softwdt_load_monitor_kick_def Let_def)

text \<open>Usage headers in the log: a feed adds none, a report adds one.\<close>

lemma ste_one_headers:
  "ste_cpu_stats_one op ck s = Inr s' \<Longrightarrow>
     count_list (dmesg s') Usage_header = count_list (dmesg s) Usage_header"
  by (cases op)
     (auto simp: ste_cpu_stats_one_def Let_def bnd_eq_Inr printk_def usage_msg_def split: if_splits)

lemma ste_loop_headers:
  "foldM (ste_cpu_stats_one op) online s = Inr s' \<Longrightarrow>
     count_list (dmesg s') Usage_header = count_list (dmesg s) Usage_header"
  by (rule foldM_inv [where P = "\<lambda>t. count_list (dmesg t) Usage_header = count_list (dmesg s) Usage_header"])
     (auto dest: ste_one_headers)

lemma ste_kick_headers:
  "ste_softwdt_load_monitor_kick m2j now online s = Inr s' \<Longrightarrow>
     count_list (dmesg s') Usage_header = count_list (dmesg s) Usage_header"
  by (auto simp: ste_softwdt_load_monitor_kick_def ste_calculate_cpu_stats_def bnd_eq_Inr
      mod_timer_def printk_def dest!: ste_loop_headers)

lemma ste_report_headers:
  "ste_report online s = Inr s' \<Longrightarrow>
     count_list (dmesg s') Usage_header = Suc (count_list (dmesg s) Usage_header) \<and> wd_aux s'"
  by (auto simp: ste_report_def ste_calculate_cpu_stats_def bnd_eq_Inr printk_def
      dest!: ste_loop_headers)

lemma report_numbers:
  "(n :: u32) \<le> 3 \<or> n mod 10 = 1 \<or> n mod 10 = 3 \<or> n mod 10 = 2
     \<longleftrightarrow> unat n = 0 \<or> unat n mod 10 \<in> {1, 2, 3}"
proof -
  have "(n mod 10 = 1 \<or> n mod 10 = 3 \<or> n mod 10 = 2) \<longleftrightarrow> unat n mod 10 \<in> {1, 2, 3}"
    by (auto simp: word_unat_eq_iff unat_mod)
  moreover have "n \<le> 3 \<longleftrightarrow> unat n \<in> {0, 1, 2, 3}" by (auto simp: word_le_nat_alt)
  ultimately show ?thesis by auto
qed

text \<open>The work queues stay allocated while the module is loaded.\<close>

definition queues :: "softwdt \<Rightarrow> bool \<times> bool" where
  "queues s = (softwdt_wq s, sleepable_task_wq s)"

lemma ste_feed_queues:
  "ste_softwdt_load_monitor_feed_task m2j now online s = Inr s' \<Longrightarrow> queues s' = queues s"
  by (auto simp: ste_softwdt_load_monitor_feed_task_def bnd_eq_Inr queue_delayed_def queues_def
      dest!: ste_kick_effect split: option.splits)

lemma ste_report_queues: "ste_report online s = Inr s' \<Longrightarrow> queues s' = queues s"
  by (auto simp: ste_report_def bnd_eq_Inr same_control_def queues_def dest!: ste_stats_control)

lemma ste_timeout_queues:
  assumes "ste_softwdt_load_monitor_timeout m2j now online s = Inr s'"
  shows "queues s' = queues s"
proof -
  let ?s1 = "printk (Timeout_msg (wd_count s + 1)) (s\<lparr>wd_count := wd_count s + 1\<rparr>)"
  from assms obtain t where t: "ste_softwdt_load_monitor_kick m2j now online t = Inr s'"
    "ste_report online ?s1 = Inr t \<or> t = ?s1"
    by (auto simp: ste_softwdt_load_monitor_timeout_def Let_def bnd_eq_Inr split: if_splits)
  from t(2) have "queues t = queues s"
    by (auto simp: printk_def queues_def dest!: ste_report_queues)
  with ste_kick_effect [OF t(1)] show ?thesis by (simp add: queues_def)
qed

lemma reach_queues:
  assumes "wd_reach (ste_softwdt_load_monitor_feed_task m2j) (ste_softwdt_load_monitor_timeout m2j)
    lat (t0, s0) c"
  shows "queues (snd c) = queues s0"
  using assms
proof (induction rule: wd_reach.induct)
  case (step c' c'')
  from step(2) have "queues (snd c'') = queues (snd c')"
    by (cases rule: wd_step.cases)
       (use ste_feed_queues ste_timeout_queues in \<open>fastforce simp: queues_def\<close>)+
  with step.IH show ?case by simp
qed simp

text \<open>The array keeps its length while the module is loaded, so no handler faults.\<close>

lemma has_stats_simps [simp]:
  "has_stats n (printk m s) = has_stats n s" "has_stats n (mod_timer t s) = has_stats n s"
  "has_stats n (queue_delayed t s) = has_stats n s" "has_stats n (s\<lparr>wd_work := w\<rparr>) = has_stats n s"
  "has_stats n (s\<lparr>wd_pending := b\<rparr>) = has_stats n s" "has_stats n (s\<lparr>wd_aux := b\<rparr>) = has_stats n s"
  "has_stats n (s\<lparr>wd_count := c\<rparr>) = has_stats n s"
  by (simp_all add: has_stats_def printk_def mod_timer_def queue_delayed_def split: option.split)

lemma ste_stats_keeps:
  "ste_calculate_cpu_stats op online s = Inr s' \<Longrightarrow> has_stats n s \<Longrightarrow> has_stats n s'"
  unfolding ste_calculate_cpu_stats_def
  by (erule foldM_inv [where P = "has_stats n"]) (auto dest: ste_cpu_stats_one_control)

lemma ste_kick_keeps:
  "ste_softwdt_load_monitor_kick m2j now online s = Inr s' \<Longrightarrow> has_stats n s \<Longrightarrow> has_stats n s'"
  by (auto simp: ste_softwdt_load_monitor_kick_def bnd_eq_Inr dest!: ste_stats_keeps)

lemma ste_feed_keeps:
  "ste_softwdt_load_monitor_feed_task m2j now online s = Inr s' \<Longrightarrow> has_stats n s \<Longrightarrow> has_stats n s'"
  by (auto simp: ste_softwdt_load_monitor_feed_task_def bnd_eq_Inr dest!: ste_kick_keeps)

lemma ste_report_keeps: "ste_report online s = Inr s' \<Longrightarrow> has_stats n s \<Longrightarrow> has_stats n s'"
  by (auto simp: ste_report_def bnd_eq_Inr dest!: ste_stats_keeps)

lemma ste_timeout_keeps:
  "ste_softwdt_load_monitor_timeout m2j now online s = Inr s' \<Longrightarrow> has_stats n s \<Longrightarrow> has_stats n s'"
  by (auto simp: ste_softwdt_load_monitor_timeout_def Let_def bnd_eq_Inr split: if_splits
      intro: ste_kick_keeps dest!: ste_report_keeps)

lemma reach_has_stats:
  assumes "wd_reach (ste_softwdt_load_monitor_feed_task m2j) (ste_softwdt_load_monitor_timeout m2j)
    lat (t0, s0) c" and "has_stats n s0"
  shows "has_stats n (snd c)"
  using assms(1)
proof (induction rule: wd_reach.induct)
  case (step c' c'')
  from step(2) step.IH show ?case
    by (cases rule: wd_step.cases)
       (use ste_feed_keeps ste_timeout_keeps in fastforce)+
qed (simp add: assms(2))

lemma ste_feed_total:
  "has_stats n s \<Longrightarrow> cpus_ok n online \<Longrightarrow>
     \<exists>s'. ste_softwdt_load_monitor_feed_task m2j now online s = Inr s' \<and> has_stats n s'"
  using ste_kick_total [of n s online m2j now]
  by (auto simp: ste_softwdt_load_monitor_feed_task_def)

section \<open>Properties\<close>

text \<open>
  C5. A load monitor whose feeding work is served within \<open>lat\<close> jiffies of its due time, where
  2000 ms plus this slack is less than 4000 ms, never counts a timeout: in every state the
  kernel can reach after a successful load the timer is ahead of the clock, the feeding work is
  queued again, and with one entry per possible CPU recorded neither the work nor the timer can
  fault, whatever the counters are.
\<close>

theorem softwdt_fed_never_expires:
  assumes "ste_softwdt_load_monitor_init m2j t0 True True True n = (r, s0)"
    and "wd_reach (ste_softwdt_load_monitor_feed_task m2j) (ste_softwdt_load_monitor_timeout m2j)
           lat (t0, s0) (now, s)"
    and "m2j 2000 + lat < m2j 4000"
  shows "r = 0 \<and> wd_count s = 0 \<and> wd_work s \<noteq> None \<and> (wd_pending s \<longrightarrow> now < wd_expires s)
    \<and> (cpus_ok n online \<longrightarrow>
         (\<exists>s'. ste_softwdt_load_monitor_feed_task m2j now online (s\<lparr>wd_work := None\<rparr>) = Inr s')
         \<and> (\<exists>s'. ste_softwdt_load_monitor_timeout m2j now online (s\<lparr>wd_pending := False\<rparr>) = Inr s'))"
proof -
  have "r = 0" and "wd_ahead lat 2000 0 (t0, s0)" and "has_stats n s0"
    using assms(1)
    by (auto simp: ste_softwdt_load_monitor_init_def wd_ahead_def wd_simps has_stats_def)
  moreover from reach_has_stats [OF assms(2) this(3)] have
    "has_stats n (s\<lparr>wd_work := None\<rparr>)" "has_stats n (s\<lparr>wd_pending := False\<rparr>)" by simp_all
  ultimately show ?thesis
    using softwdt.reach_never_expires [OF assms(2)] softwdt.reach_keeps_feeding [OF assms(2)] assms(3)
      ste_feed_total [of n "s\<lparr>wd_work := None\<rparr>" online m2j now]
      ste_timeout_total [of n "s\<lparr>wd_pending := False\<rparr>" online m2j now]
    by auto
qed

definition idle_k :: kcpustat where
  "idle_k = \<lparr>k_user = 0, k_nice = 0, k_system = 0, k_idle = 9, k_iowait = 0, k_irq = 0,
             k_softirq = 0, k_steal = 0, k_guest = 0, k_guest_nice = 0\<rparr>"

theorem softwdt_fed_never_expires_witness:
  "\<exists>r s0 s. ste_softwdt_load_monitor_init id 7 True True True 1 = (r, s0)
     \<and> wd_reach (ste_softwdt_load_monitor_feed_task id) (ste_softwdt_load_monitor_timeout id)
         100 (7, s0) (7, s)
     \<and> wd_pending s \<and> wd_expires s = 4007 \<and> wd_count s = 0"
proof -
  obtain r s0 where i: "ste_softwdt_load_monitor_init id 7 True True True 1 = (r, s0)" by force
  then have w: "wd_work s0 = Some 7" and n: "has_stats 1 (s0\<lparr>wd_work := None\<rparr>)"
    by (auto simp: ste_softwdt_load_monitor_init_def wd_simps has_stats_def)
  from ste_kick_total [OF n, of "[(0, idle_k)]" id 7] obtain s where
    f: "ste_softwdt_load_monitor_feed_task id 7 [(0, idle_k)] (s0\<lparr>wd_work := None\<rparr>) = Inr s"
    by (auto simp: ste_softwdt_load_monitor_feed_task_def cpus_ok_def)
  from wd_reach.step [OF wd_reach.start wd_step.run [where lat = 100 and now = 7
      and timeout = "ste_softwdt_load_monitor_timeout id"
      and feed = "ste_softwdt_load_monitor_feed_task id" and e = "[(0, idle_k)]", OF w _ f]]
  have reach: "wd_reach (ste_softwdt_load_monitor_feed_task id) (ste_softwdt_load_monitor_timeout id)
      100 (7, s0) (7, s)" by simp
  from softwdt_fed_never_expires [OF i reach] ste_feed_effect [OF f] i reach
  show ?thesis by auto
qed

text \<open>
  Which timeouts report: the first three and those whose number ends in 1, 2 or 3 (so the
  first branch adds nothing, except for the number 0 the 32-bit counter takes when it wraps).
  A reporting timeout logs one usage header and queues the report work; the others do neither.
\<close>

lemma softwdt_timeout_reports:
  assumes "ste_softwdt_load_monitor_timeout m2j now online s = Inr s'"
  shows "let n = unat (wd_count s + 1); reports = (n = 0 \<or> n mod 10 \<in> {1, 2, 3})
    in count_list (dmesg s') Usage_header = count_list (dmesg s) Usage_header + of_bool reports
       \<and> wd_aux s' = (wd_aux s \<or> reports)"
proof -
  let ?n = "wd_count s + 1"
  let ?s1 = "printk (Timeout_msg ?n) (s\<lparr>wd_count := ?n\<rparr>)"
  let ?c = "?n \<le> 3 \<or> ?n mod 10 = 1 \<or> ?n mod 10 = 3 \<or> ?n mod 10 = 2"
  have c: "?c \<longleftrightarrow> unat ?n = 0 \<or> unat ?n mod 10 \<in> {1, 2, 3}" by (rule report_numbers)
  from assms obtain t where t: "(if ?c then ste_report online ?s1 else Inr ?s1) = Inr t"
    "ste_softwdt_load_monitor_kick m2j now online t = Inr s'"
    by (auto simp: ste_softwdt_load_monitor_timeout_def Let_def bnd_eq_Inr split: if_splits)
  have k: "count_list (dmesg s') Usage_header = count_list (dmesg t) Usage_header" "wd_aux s' = wd_aux t"
    using ste_kick_headers [OF t(2)] ste_kick_effect [OF t(2)] by simp_all
  show ?thesis
  proof (cases ?c)
    case True
    with t(1) have "ste_report online ?s1 = Inr t" by simp
    from ste_report_headers [OF this] k True show ?thesis
      unfolding c Let_def by (simp add: printk_def)
  next
    case False
    with t(1) have "t = ?s1" by simp
    with k False show ?thesis unfolding c Let_def by (simp add: printk_def)
  qed
qed

text \<open>The \<open>i\<close>-th expiry from now on reports.\<close>

definition reports :: "u32 \<Rightarrow> nat \<Rightarrow> bool" where
  "reports c i \<longleftrightarrow> (let n = unat (c + 1 + of_nat i) in n = 0 \<or> n mod 10 \<in> {1, 2, 3})"

lemma reports_Suc:
  "length (filter (reports c) [0..<Suc n]) =
     of_bool (reports c 0) + length (filter (reports (c + 1)) [0..<n])"
proof -
  have "[0..<Suc n] = 0 # map Suc [0..<n]" by (simp add: map_Suc_upt upt_conv_Cons)
  moreover have "reports c (Suc i) = reports (c + 1) i" for i by (simp add: reports_def add.assoc)
  ultimately show ?thesis by (simp add: filter_map comp_def del: upt_Suc)
qed

text \<open>
  C6. A load monitor whose work queue is stuck keeps trying: every expiry of its timer counts
  one timeout, arms the timer again 4000 ms later and, as long as the online CPUs have
  numbers below the size of the array, runs without a fault; after any number of expiries the
  monitor is still armed. The timeouts that report are the first three and those whose number ends
  in 1, 2 or 3 (so the first branch adds nothing, except for the number 0 the 32-bit counter takes
  when it wraps), one usage header each.
\<close>

theorem softwdt_stuck_keeps_trying:
  assumes "has_stats n s" and "wd_pending s" and "\<forall>online\<in>set es. cpus_ok n online"
  shows "\<exists>s'. expiries (ste_softwdt_load_monitor_timeout m2j) es s = Inr s'
    \<and> wd_count s' = wd_count s + of_nat (length es)
    \<and> wd_pending s' \<and> wd_expires s' = wd_expires s + length es * m2j 4000
    \<and> count_list (dmesg s') Usage_header =
        count_list (dmesg s) Usage_header + length (filter (reports (wd_count s)) [0..<length es])"
proof -
  have "\<exists>s'. expiries (ste_softwdt_load_monitor_timeout m2j) es s = Inr s' \<and>
      count_list (dmesg s') Usage_header =
        count_list (dmesg s) Usage_header + length (filter (reports (wd_count s)) [0..<length es])"
    using assms
  proof (induction es arbitrary: s)
    case (Cons e es)
    let ?s = "s\<lparr>wd_pending := False\<rparr>"
    from ste_timeout_total [of n ?s e m2j "wd_expires s"] Cons.prems
    obtain t where t: "ste_softwdt_load_monitor_timeout m2j (wd_expires s) e ?s = Inr t" "has_stats n t"
      by (auto simp: has_stats_def)
    have "count_list (dmesg t) Usage_header = count_list (dmesg s) Usage_header + of_bool (reports (wd_count s) 0)"
      using softwdt_timeout_reports [OF t(1)] by (simp add: reports_def Let_def)
    with ste_timeout_effect [OF t(1)] Cons.IH [of t] Cons.prems t show ?case
      by (auto simp: reports_Suc simp del: upt_Suc)
  qed simp
  with softwdt.expiries_count assms(2) show ?thesis by blast
qed

lemma softwdt_stuck_keeps_trying_witness:
  "\<exists>s s'. has_stats 1 s \<and> wd_pending s \<and> wd_count s = 0
     \<and> expiries (ste_softwdt_load_monitor_timeout id) (replicate 12 [(0, idle_k)]) s = Inr s'
     \<and> wd_count s' = 12 \<and> wd_pending s' \<and> count_list (dmesg s') Usage_header = 5"
proof -
  obtain s where h: "has_stats 1 s" "wd_pending s" "wd_count s = 0" "count_list (dmesg s) Usage_header = 0"
    and s: "s = snd (ste_softwdt_load_monitor_init id 7 True True True 1)\<lparr>wd_pending := True\<rparr>"
    by (simp add: ste_softwdt_load_monitor_init_def wd_simps has_stats_def)
  have c: "\<forall>online\<in>set (replicate 12 [(0, idle_k)]). cpus_ok 1 online" by (simp add: cpus_ok_def)
  have "length (filter (reports 0) [0..<12]) = 5" by (simp add: reports_def upt_rec Let_def)
  with softwdt_stuck_keeps_trying [OF h(1,2) c, of id] h show ?thesis by auto
qed

text \<open>
  C10. Feeding and then reporting, with any number of CPUs whose numbers fit the array, does not
  fault, and the report prints for every online CPU the exact share, in percent rounded down, of
  the time since the feed that was not idle, and the exact share spent in interrupts;
  both lie between 0 and 100. This holds whatever the absolute counter values, also when
  counters wrapped since the feed, unless a CPU's time since the feed is 0 or 100 times it
  exceeds 64 bits.
\<close>

theorem softwdt_report_exact:
  assumes "has_stats n s" and "cpus_ok n online"
    and "distinct (map fst online)" and "length ds = length online"
    and "\<forall>d\<in>set ds. 0 < cpu_time d \<and> 100 * cpu_time d < 2 ^ 64"
  shows "\<exists>s1 s2. ste_softwdt_load_monitor_kick m2j now online s = Inr s1
    \<and> ste_report (map2 (\<lambda>(cpu, k) d. (cpu, advance k d)) online ds) s1 = Inr s2
    \<and> (\<forall>((cpu, k), d) \<in> set (zip online ds). \<exists>busy intr.
         Usage_msg cpu (int busy) (int intr) \<in> set (dmesg s2)
         \<and> busy = 100 * (cpu_time d - unat (k_idle d)) div cpu_time d
         \<and> intr = 100 * (unat (k_irq d) + unat (k_softirq d)) div cpu_time d
         \<and> busy \<le> 100 \<and> intr \<le> 100)"
proof -
  let ?later = "map2 (\<lambda>(cpu, k) d. (cpu, advance k d)) online ds"
  from ste_kick_total [OF assms(1,2)] obtain s1 where
    s1: "ste_softwdt_load_monitor_kick m2j now online s = Inr s1" by blast
  from kick_recorded [OF this assms(3,1)] obtain ps where
    ps: "prev_cpu_usage_stats s1 = Arr ps"
      "\<forall>(cpu, k)\<in>set online. cpu < length ps \<and> ps ! cpu = prev_of k"
    by (auto simp: recorded_def)
  have "\<forall>(cpu, k)\<in>set ?later. cpu < length ps"
    using ps(2) by (fastforce dest: set_zip_leftD)
  from report_log [OF ps(1) this] obtain s2 where s2: "ste_report ?later s1 = Inr s2"
    and log: "set (dmesg s2) \<supseteq> (\<Union>ck\<in>set ?later. set (usage_msgs ps ck))" by auto
  have "\<exists>busy intr. Usage_msg cpu (int busy) (int intr) \<in> set (dmesg s2)
      \<and> busy = 100 * (cpu_time d - unat (k_idle d)) div cpu_time d
      \<and> intr = 100 * (unat (k_irq d) + unat (k_softirq d)) div cpu_time d
      \<and> busy \<le> 100 \<and> intr \<le> 100" if m: "((cpu, k), d) \<in> set (zip online ds)" for cpu k d
  proof -
    have k: "cpu < length ps" "ps ! cpu = prev_of k" and d: "0 < cpu_time d" "100 * cpu_time d < 2 ^ 64"
      using ps(2) assms(5) m by (fastforce dest: set_zip_leftD set_zip_rightD)+
    have "(cpu, advance k d) \<in> set ?later" using m by force
    moreover have "usage_msg cpu (cpu_total d) (k_idle d) (cpu_interrupt d)
        \<in> set (usage_msgs ps (cpu, advance k d))"
      using k(2) by (simp add: usage_msgs_def Let_def prev_of_def cpu_total_advance
          cpu_interrupt_advance) (simp add: advance_def)
    ultimately have "usage_msg cpu (cpu_total d) (k_idle d) (cpu_interrupt d) \<in> set (dmesg s2)"
      using log by blast
    moreover have "unat (k_irq d) + unat (k_softirq d) \<le> cpu_time d"
      by (simp add: cpu_time_def cpu_entries_def)
    moreover from this have "100 * (unat (k_irq d) + unat (k_softirq d)) div cpu_time d \<le> 100"
      by (rule nat_share_le [OF _ d(1)])
    moreover have "100 * (cpu_time d - unat (k_idle d)) div cpu_time d \<le> 100"
      by (rule nat_share_le [OF diff_le_self d(1)])
    ultimately show ?thesis unfolding usage_msg_exact [OF d] by blast
  qed
  then show ?thesis using s1 s2 by blast
qed

definition busy_k :: kcpustat where
  "busy_k = \<lparr>k_user = 6, k_nice = 0, k_system = 0, k_idle = 2, k_iowait = 0, k_irq = 1,
             k_softirq = 1, k_steal = 0, k_guest = 0, k_guest_nice = 0\<rparr>"

theorem softwdt_report_exact_witness:
  "\<exists>s s1 s2. ste_softwdt_load_monitor_kick id 7 [(0, idle_k)] s = Inr s1
     \<and> ste_report [(0, advance idle_k busy_k)] s1 = Inr s2
     \<and> Usage_msg 0 80 20 \<in> set (dmesg s2)"
proof -
  define s where "s = snd (ste_softwdt_load_monitor_init id 7 True True True 1)"
  have n: "has_stats 1 s" "cpus_ok 1 [(0, idle_k)]"
    by (simp_all add: s_def ste_softwdt_load_monitor_init_def wd_simps has_stats_def cpus_ok_def)
  have d: "\<forall>d\<in>set [busy_k]. 0 < cpu_time d \<and> 100 * cpu_time d < 2 ^ 64"
    by (simp add: busy_k_def cpu_time_def cpu_entries_def)
  from softwdt_report_exact [OF n _ _ d, of id 7] show ?thesis
    by (auto simp: busy_k_def cpu_time_def cpu_entries_def)
qed

text \<open>
  Unloading after a successful load, in any state the kernel can reach, does not fault
  and leaves nothing behind: no armed timer, no queued work, no work queue, no array. This is
  the unload as one uninterrupted step.
\<close>

lemma softwdt_exit_clean:
  assumes "ste_softwdt_load_monitor_init m2j t0 wq1 wq2 stats n = (0, s0)"
    and "wd_reach (ste_softwdt_load_monitor_feed_task m2j) (ste_softwdt_load_monitor_timeout m2j)
           lat (t0, s0) (now, s)"
  shows "\<exists>s'. ste_softwdt_load_monitor_exit s = Inr s' \<and> \<not> wd_pending s' \<and> wd_work s' = None
    \<and> \<not> wd_aux s' \<and> \<not> softwdt_wq s' \<and> \<not> sleepable_task_wq s'
    \<and> prev_cpu_usage_stats s' = Freed"
proof -
  have "queues s0 = (True, True)"
    using assms(1)
    by (auto simp: ste_softwdt_load_monitor_init_def wd_simps queues_def Let_def split: if_splits)
  with reach_queues [OF assms(2)] show ?thesis
    by (simp add: ste_softwdt_load_monitor_exit_def exit_rest_def exit_del_timer_def printk_def
        queues_def)
qed

text \<open>
  The unload stops the timer before it cancels the feeding work. When the work runs
  between the two calls it arms the timer again, the rest of the unload does not disarm it,
  and the expiry that follows reads the freed array.
\<close>

lemma softwdt_exit_race:
  assumes "has_stats n s" and "queues s = (True, True)" and "cpus_ok n online"
  shows "\<exists>s1 s2. ste_softwdt_load_monitor_feed_task m2j now online
        ((exit_del_timer s)\<lparr>wd_work := None\<rparr>) = Inr s1
    \<and> exit_rest s1 = Inr s2 \<and> wd_pending s2 \<and> wd_expires s2 = now + m2j 4000
    \<and> (online \<noteq> [] \<longrightarrow>
         ste_softwdt_load_monitor_timeout m2j now' online (s2\<lparr>wd_pending := False\<rparr>)
         = Inl Use_after_free)"
proof -
  let ?s = "(exit_del_timer s)\<lparr>wd_work := None\<rparr>"
  have "has_stats n ?s" "queues ?s = (True, True)"
    using assms(1,2) by (simp_all add: has_stats_def exit_del_timer_def printk_def queues_def)
  from ste_kick_total [OF this(1) assms(3), of m2j now] obtain s1 where
    f: "ste_softwdt_load_monitor_feed_task m2j now online ?s = Inr s1"
    by (auto simp: ste_softwdt_load_monitor_feed_task_def)
  from ste_feed_effect [OF f] ste_feed_queues [OF f] \<open>queues ?s = (True, True)\<close>
  have s1: "wd_pending s1" "wd_expires s1 = now + m2j 4000" "queues s1 = (True, True)" by simp_all
  then obtain s2 where s2: "exit_rest s1 = Inr s2" "wd_pending s2" "wd_expires s2 = now + m2j 4000"
    "prev_cpu_usage_stats s2 = Freed"
    by (auto simp: exit_rest_def queues_def)
  then have "ste_softwdt_load_monitor_timeout m2j now' online (s2\<lparr>wd_pending := False\<rparr>)
      = Inl Use_after_free" if "online \<noteq> []"
    using that by (simp add: ste_timeout_freed)
  with f s2 show ?thesis by blast
qed

text \<open>
  C13. The unload after a successful load, in any state the kernel can reach: as one uninterrupted
  step it does not fault and leaves nothing behind, no armed timer, no queued work, no work queue,
  no array. But it stops the timer before it cancels the feeding work: when the work runs between
  the two calls it arms the timer again, the rest of the unload does not disarm it, and the expiry
  that follows reads the freed array.
\<close>

theorem softwdt_unload:
  assumes "ste_softwdt_load_monitor_init m2j t0 wq1 wq2 stats n = (0, s0)"
    and "wd_reach (ste_softwdt_load_monitor_feed_task m2j) (ste_softwdt_load_monitor_timeout m2j)
           lat (t0, s0) (now, s)"
  shows "(\<exists>s'. ste_softwdt_load_monitor_exit s = Inr s' \<and> \<not> wd_pending s' \<and> wd_work s' = None
      \<and> \<not> wd_aux s' \<and> \<not> softwdt_wq s' \<and> \<not> sleepable_task_wq s' \<and> prev_cpu_usage_stats s' = Freed)
    \<and> (stats \<and> cpus_ok n online \<and> online \<noteq> [] \<longrightarrow>
        (\<exists>s1 s2. ste_softwdt_load_monitor_feed_task m2j now online ((exit_del_timer s)\<lparr>wd_work := None\<rparr>) = Inr s1
          \<and> exit_rest s1 = Inr s2 \<and> wd_pending s2 \<and> wd_expires s2 = now + m2j 4000
          \<and> ste_softwdt_load_monitor_timeout m2j now' online (s2\<lparr>wd_pending := False\<rparr>) = Inl Use_after_free))"
proof -
  have "queues s0 = (True, True)"
    using assms(1)
    by (auto simp: ste_softwdt_load_monitor_init_def wd_simps queues_def Let_def split: if_splits)
  with reach_queues [OF assms(2)] have "queues s = (True, True)" by simp
  moreover have "has_stats n s" if stats
  proof -
    have "has_stats n s0"
      using assms(1) that
      by (auto simp: ste_softwdt_load_monitor_init_def wd_simps has_stats_def Let_def split: if_splits)
    from reach_has_stats [OF assms(2) this] show ?thesis by simp
  qed
  ultimately show ?thesis
    using softwdt_exit_clean [OF assms] softwdt_exit_race [of n s online m2j now now'] by blast
qed

theorem softwdt_unload_witness:
  "\<exists>s s1 s2. has_stats 1 s \<and> wd_work s = Some 7 \<and> wd_count s = 0
     \<and> ste_softwdt_load_monitor_feed_task id 7 [(0, idle_k)]
          ((exit_del_timer s)\<lparr>wd_work := None\<rparr>) = Inr s1
     \<and> exit_rest s1 = Inr s2 \<and> wd_pending s2"
proof -
  obtain s where i: "ste_softwdt_load_monitor_init id 7 True True True 1 = (0, s)"
    by (simp add: ste_softwdt_load_monitor_init_def)
  then have h: "has_stats 1 s" "cpus_ok 1 [(0, idle_k)]" "wd_work s = Some 7" "wd_count s = 0"
    by (auto simp: ste_softwdt_load_monitor_init_def wd_simps has_stats_def cpus_ok_def)
  from softwdt_unload [OF i wd_reach.start, where online = "[(0, idle_k)]"] h show ?thesis by blast
qed

text \<open>
  C14. How a load can end. It fails with -1 exactly when a work queue is refused; when it is
  the second one, the first stays allocated although the module is gone. When the array is
  refused the load succeeds all the same, and the monitor is dead: whatever the kernel does,
  no timeout is ever counted, nothing is queued and the timer is never armed.
\<close>

theorem softwdt_init_outcomes:
  assumes "ste_softwdt_load_monitor_init m2j t0 wq1 wq2 stats n = (r, s0)"
  shows "(r = -1 \<longleftrightarrow> \<not> (wq1 \<and> wq2)) \<and> (r = 0 \<longleftrightarrow> wq1 \<and> wq2) \<and> softwdt_wq s0 = wq1
    \<and> (wd_work s0 \<noteq> None \<longleftrightarrow> wq1 \<and> wq2 \<and> stats)
    \<and> (\<not> stats \<longrightarrow> wd_reach (ste_softwdt_load_monitor_feed_task m2j)
          (ste_softwdt_load_monitor_timeout m2j) lat (t0, s0) (now, s) \<longrightarrow> s = s0)"
proof -
  have "snd c = s0" if "\<not> stats" "wd_reach (ste_softwdt_load_monitor_feed_task m2j)
      (ste_softwdt_load_monitor_timeout m2j) lat (t0, s0) c" for c
    using that(2)
  proof (induction rule: wd_reach.induct)
    case (step c' c'')
    have "wd_work s0 = None" "\<not> wd_pending s0" "\<not> wd_aux s0"
      using assms that(1)
      by (auto simp: ste_softwdt_load_monitor_init_def wd_simps Let_def split: if_splits)
    with step.IH step(2) show ?case by (auto elim!: wd_step.cases)
  qed simp
  then show ?thesis
    using assms
    by (auto simp: ste_softwdt_load_monitor_init_def wd_simps Let_def split: if_splits)
qed

theorem softwdt_init_outcomes_witness:
  "fst (ste_softwdt_load_monitor_init id 7 True False True 4) = -1
     \<and> softwdt_wq (snd (ste_softwdt_load_monitor_init id 7 True False True 4))
     \<and> fst (ste_softwdt_load_monitor_init id 7 True True False 4) = 0"
  using softwdt_init_outcomes [OF surjective_pairing, of id 7 True False True 4]
    softwdt_init_outcomes [OF surjective_pairing, of id 7 True True False 4]
  by blast

end
