(* ===== verification/LoadWdt2.thy ===== *)
theory LoadWdt2
  imports SoftWdt
begin

text \<open>
  The load watchdog of \<open>load_softwdt2.c\<close>, the version \<open>load_softwdt3.c\<close> was refactored from:
  three arrays instead of one, all possible CPUs instead of the online ones, and a timeout
  handler that feeds the watchdog only when it reports.
\<close>

section \<open>State and operations\<close>

record load_watchdog = wd +
  watchdog_wq :: bool
  get_task_info_wq :: bool
  prev_idle_arr :: "u64 buf"
  prev_total_arr :: "u64 buf"
  prev_interrupt_arr :: "u64 buf"

definition statistics_cpu_one :: "nat \<times> kcpustat \<Rightarrow> load_watchdog \<Rightarrow> load_watchdog outcome" where
  "statistics_cpu_one ck s =
     (let cpu = fst ck; k = snd ck
      in bnd (buf_set (prev_idle_arr s) cpu (k_idle k)) (\<lambda>pi.
         bnd (buf_set (prev_total_arr s) cpu (cpu_total k)) (\<lambda>pt.
         bnd (buf_set (prev_interrupt_arr s) cpu (cpu_interrupt k)) (\<lambda>pq.
           Inr (s\<lparr>prev_idle_arr := pi, prev_total_arr := pt, prev_interrupt_arr := pq\<rparr>)))))"

definition statistics_cpu_time :: "cpus \<Rightarrow> load_watchdog \<Rightarrow> load_watchdog outcome" where
  "statistics_cpu_time possible s = foldM statistics_cpu_one possible s"

definition load_watchdog_kick ::
  "(nat \<Rightarrow> nat) \<Rightarrow> nat \<Rightarrow> cpus \<Rightarrow> load_watchdog \<Rightarrow> load_watchdog outcome" where
  "load_watchdog_kick m2j jiffies possible s =
     bnd (statistics_cpu_time possible (printk Kick_msg s))
         (\<lambda>s. Inr (mod_timer (jiffies + m2j 4000) s))"

definition calculate_cpu_one :: "nat \<times> kcpustat \<Rightarrow> load_watchdog \<Rightarrow> load_watchdog outcome" where
  "calculate_cpu_one ck s =
     (let cpu = fst ck; k = snd ck
      in bnd (buf_get (prev_idle_arr s) cpu) (\<lambda>pi.
         bnd (buf_get (prev_total_arr s) cpu) (\<lambda>pt.
         bnd (buf_get (prev_interrupt_arr s) cpu) (\<lambda>pq.
           Inr (printk (usage_msg cpu (cpu_total k - pt) (k_idle k - pi) (cpu_interrupt k - pq))
                  s)))))"

definition calculate_cpu_usage :: "cpus \<Rightarrow> load_watchdog \<Rightarrow> load_watchdog outcome" where
  "calculate_cpu_usage possible s = foldM calculate_cpu_one possible (printk Usage_header s)"

text \<open>One reporting branch of the timeout handler: message, usage, work, feed.\<close>

definition timeout_branch ::
  "(nat \<Rightarrow> nat) \<Rightarrow> nat \<Rightarrow> cpus \<Rightarrow> load_watchdog \<Rightarrow> load_watchdog outcome" where
  "timeout_branch m2j jiffies possible s =
     bnd (calculate_cpu_usage possible (printk (Timeout_msg (wd_count s)) s))
         (\<lambda>s. load_watchdog_kick m2j jiffies possible (s\<lparr>wd_aux := True\<rparr>))"

definition load_watchdog_timeout ::
  "(nat \<Rightarrow> nat) \<Rightarrow> nat \<Rightarrow> cpus \<Rightarrow> load_watchdog \<Rightarrow> load_watchdog outcome" where
  "load_watchdog_timeout m2j jiffies possible s =
     (let s = s\<lparr>wd_count := wd_count s + 1\<rparr>
      in if wd_count s < 10 then timeout_branch m2j jiffies possible s
         else if wd_count s mod 10 = 0 then timeout_branch m2j jiffies possible s
         else Inr s)"

definition load_watchdog_feed_task ::
  "(nat \<Rightarrow> nat) \<Rightarrow> nat \<Rightarrow> cpus \<Rightarrow> load_watchdog \<Rightarrow> load_watchdog outcome" where
  "load_watchdog_feed_task m2j jiffies possible s =
     bnd (load_watchdog_kick m2j jiffies possible s)
         (\<lambda>s. Inr (queue_delayed (jiffies + m2j (unat (kick_time s))) s))"

definition alloc_arr :: "bool \<Rightarrow> nat \<Rightarrow> u64 buf" where
  "alloc_arr granted n = (if granted then Arr (replicate n 0) else NullP)"

definition load_watchdog_init ::
  "(nat \<Rightarrow> nat) \<Rightarrow> nat \<Rightarrow> bool \<Rightarrow> bool \<Rightarrow> bool \<times> bool \<times> bool \<Rightarrow> nat \<Rightarrow> int \<times> load_watchdog" where
  "load_watchdog_init m2j jiffies wq1 wq2 arrs num_cpus =
     (let (ok_idle, ok_total, ok_interrupt) = arrs;
          s = \<lparr>kick_time = 2000, wd_work = None, wd_expires = jiffies + m2j 4000,
               wd_pending = False, wd_count = 0, wd_aux = False, dmesg = [Init_msg],
               watchdog_wq = wq1, get_task_info_wq = False, prev_idle_arr = NullP,
               prev_total_arr = NullP, prev_interrupt_arr = NullP\<rparr>
      in if \<not> wq1 then (-1, printk Failed_msg s)
         else if \<not> wq2 then (-1, printk Failed_msg s)
         else let s = s\<lparr>get_task_info_wq := True, prev_idle_arr := alloc_arr ok_idle num_cpus,
                       prev_total_arr := alloc_arr ok_total num_cpus,
                       prev_interrupt_arr := alloc_arr ok_interrupt num_cpus\<rparr>
              in if \<not> ok_idle \<or> \<not> ok_total \<or> \<not> ok_interrupt then (0, printk Failed_msg s)
                 else (0, queue_delayed jiffies s))"

definition load_watchdog_exit :: "load_watchdog \<Rightarrow> load_watchdog outcome" where
  "load_watchdog_exit s =
     (let s = (printk Exit_msg s)\<lparr>wd_pending := False, wd_work := None, wd_aux := False\<rparr>
      in if \<not> watchdog_wq s \<or> \<not> get_task_info_wq s then Inl Null_deref
         else Inr (s\<lparr>watchdog_wq := False, get_task_info_wq := False,
                     prev_idle_arr := Freed, prev_total_arr := Freed,
                     prev_interrupt_arr := Freed\<rparr>))"

section \<open>Lemmas\<close>

definition lw_control :: "load_watchdog \<Rightarrow> u32 \<times> nat option \<times> nat \<times> bool \<times> u32 \<times> bool" where
  "lw_control s = (kick_time s, wd_work s, wd_expires s, wd_pending s, wd_count s, wd_aux s)"

lemma statistics_control: "statistics_cpu_time possible s = Inr s' \<Longrightarrow> lw_control s' = lw_control s"
  unfolding statistics_cpu_time_def
  by (erule foldM_inv [where P = "\<lambda>t. lw_control t = lw_control s"])
     (auto simp: statistics_cpu_one_def Let_def bnd_eq_Inr lw_control_def)

lemma calculate_control: "calculate_cpu_usage possible s = Inr s' \<Longrightarrow> lw_control s' = lw_control s"
  unfolding calculate_cpu_usage_def
  by (erule foldM_inv [where P = "\<lambda>t. lw_control t = lw_control s"])
     (auto simp: calculate_cpu_one_def Let_def bnd_eq_Inr lw_control_def printk_def)

lemma lw_kick_effect:
  "load_watchdog_kick m2j now possible s = Inr s' \<Longrightarrow>
     lw_control s' = (kick_time s, wd_work s, now + m2j 4000, True, wd_count s, wd_aux s)"
  by (auto simp: load_watchdog_kick_def bnd_eq_Inr mod_timer_def lw_control_def printk_def
      dest!: statistics_control)

lemma lw_branch_effect:
  assumes "timeout_branch m2j now possible s = Inr s'"
  shows "lw_control s' = (kick_time s, wd_work s, now + m2j 4000, True, wd_count s, True)"
proof -
  from assms obtain t where
    t: "calculate_cpu_usage possible (printk (Timeout_msg (wd_count s)) s) = Inr t"
    "load_watchdog_kick m2j now possible (t\<lparr>wd_aux := True\<rparr>) = Inr s'"
    by (auto simp: timeout_branch_def bnd_eq_Inr)
  from calculate_control [OF t(1)] lw_kick_effect [OF t(2)] show ?thesis
    by (simp add: lw_control_def printk_def)
qed

lemma lw_feed_effect:
  assumes "load_watchdog_feed_task m2j now possible s = Inr s'"
  shows "wd_pending s' \<and> wd_expires s' = now + m2j 4000
     \<and> wd_work s' = (case wd_work s of None \<Rightarrow> Some (now + m2j (unat (kick_time s)))
                                     | Some d \<Rightarrow> Some d)
     \<and> wd_count s' = wd_count s \<and> kick_time s' = kick_time s"
proof -
  from assms obtain t where t: "load_watchdog_kick m2j now possible s = Inr t"
    "s' = queue_delayed (now + m2j (unat (kick_time t))) t"
    by (auto simp: load_watchdog_feed_task_def bnd_eq_Inr)
  from lw_kick_effect [OF t(1)] show ?thesis
    by (cases "wd_work s") (simp_all add: t(2) queue_delayed_def lw_control_def)
qed

lemma lw_timeout_effect:
  assumes "load_watchdog_timeout m2j now possible s = Inr s'"
  shows "wd_count s' = wd_count s + 1 \<and> wd_work s' = wd_work s \<and> kick_time s' = kick_time s
    \<and> (wd_pending s' \<longleftrightarrow> wd_pending s \<or> wd_count s + 1 < 10 \<or> (wd_count s + 1) mod 10 = 0)"
  using assms
  by (auto simp: load_watchdog_timeout_def Let_def lw_control_def
      dest!: lw_branch_effect split: if_splits)

interpretation lwd2: giving_up_watchdog
  "load_watchdog_feed_task m2j" "load_watchdog_timeout m2j" m2j 4000
  by unfold_locales (metis lw_feed_effect, (metis lw_timeout_effect)+)

text \<open>With arrays for the CPUs in use nothing faults.\<close>

definition lw_stats :: "nat \<Rightarrow> load_watchdog \<Rightarrow> bool" where
  "lw_stats n s \<longleftrightarrow>
     (\<exists>pi pt pq. prev_idle_arr s = Arr pi \<and> prev_total_arr s = Arr pt \<and> prev_interrupt_arr s = Arr pq
        \<and> length pi = n \<and> length pt = n \<and> length pq = n)"

lemma lw_stats_loop:
  assumes "\<And>ck t. fst ck < n \<Longrightarrow> lw_stats n t \<Longrightarrow> \<exists>t'. body ck t = Inr t' \<and> lw_stats n t'"
  shows "cpus_ok n cs \<Longrightarrow> lw_stats n s \<Longrightarrow> \<exists>s'. foldM body cs s = Inr s' \<and> lw_stats n s'"
proof (induction cs arbitrary: s)
  case (Cons ck cs)
  then have "fst ck < n" "cpus_ok n cs" by (auto simp: cpus_ok_def split: prod.splits)
  with assms [OF this(1) Cons.prems(2)] Cons.IH show ?case by auto
qed simp

lemma lw_kick_total:
  assumes "lw_stats n s" "cpus_ok n cs"
  shows "\<exists>s'. load_watchdog_kick m2j now cs s = Inr s' \<and> lw_stats n s'"
proof -
  have "lw_stats n (printk Kick_msg s)" using assms(1) by (simp add: lw_stats_def printk_def)
  from lw_stats_loop [OF _ assms(2) this, of statistics_cpu_one] obtain t where
    "foldM statistics_cpu_one cs (printk Kick_msg s) = Inr t" "lw_stats n t"
    by (fastforce simp: statistics_cpu_one_def lw_stats_def Let_def)
  then show ?thesis
    by (simp add: load_watchdog_kick_def statistics_cpu_time_def mod_timer_def) (simp add: lw_stats_def)
qed

lemma lw_timeout_total:
  assumes "cpus_ok n cs" "lw_stats n s"
  shows "\<exists>s'. load_watchdog_timeout m2j now cs s = Inr s' \<and> lw_stats n s'"
proof -
  have "\<exists>s'. timeout_branch m2j now cs t = Inr s' \<and> lw_stats n s'" if "lw_stats n t" for t
  proof -
    have "lw_stats n (printk Usage_header (printk (Timeout_msg (wd_count t)) t))"
      using that by (simp add: lw_stats_def printk_def)
    from lw_stats_loop [OF _ assms(1) this, of calculate_cpu_one] obtain u where
      u: "calculate_cpu_usage cs (printk (Timeout_msg (wd_count t)) t) = Inr u" "lw_stats n u"
      by (fastforce simp: calculate_cpu_usage_def calculate_cpu_one_def lw_stats_def Let_def printk_def)
    then have "lw_stats n (u\<lparr>wd_aux := True\<rparr>)" by (simp add: lw_stats_def)
    with u(1) lw_kick_total [OF this assms(1)] show ?thesis by (simp add: timeout_branch_def)
  qed
  moreover have "lw_stats n (s\<lparr>wd_count := c\<rparr>)" for c using assms(2) by (simp add: lw_stats_def)
  ultimately show ?thesis by (simp add: load_watchdog_timeout_def Let_def)
qed

lemma lw_expiries_total:
  "lw_stats n s \<Longrightarrow> \<forall>cs\<in>set es. cpus_ok n cs \<Longrightarrow> \<exists>s'. expiries (load_watchdog_timeout m2j) es s = Inr s'"
  using expiries_total [of "lw_stats n" s es "cpus_ok n" "load_watchdog_timeout m2j"] lw_timeout_total
  by (auto simp: lw_stats_def)

section \<open>Refinement between the two versions\<close>

text \<open>The three arrays of this version hold what the one array of the refactored one holds.\<close>

definition same_prev :: "load_watchdog \<Rightarrow> softwdt \<Rightarrow> bool" where
  "same_prev s2 s3 \<longleftrightarrow>
     (\<exists>ps. prev_cpu_usage_stats s3 = Arr ps \<and> prev_idle_arr s2 = Arr (map prev_idle ps)
           \<and> prev_total_arr s2 = Arr (map prev_total ps)
           \<and> prev_interrupt_arr s2 = Arr (map prev_interrupt ps))"

fun is_counters :: "msg \<Rightarrow> bool" where
  "is_counters (Counters_msg _ _ _ _ _ _ _) = True"
| "is_counters _ = False"

definition usage_of :: "ste_prev_cpu_usage_stats list \<Rightarrow> nat \<times> kcpustat \<Rightarrow> msg" where
  "usage_of ps ck =
     (let cpu = fst ck; k = snd ck; p = ps ! cpu
      in usage_msg cpu (cpu_total k - prev_total p) (k_idle k - prev_idle p)
           (cpu_interrupt k - prev_interrupt p))"

lemma calculate_log:
  assumes "prev_idle_arr s = Arr (map prev_idle ps)" "prev_total_arr s = Arr (map prev_total ps)"
    "prev_interrupt_arr s = Arr (map prev_interrupt ps)" "\<forall>(cpu, k)\<in>set cs. cpu < length ps"
  shows "foldM calculate_cpu_one cs s = Inr (s\<lparr>dmesg := dmesg s @ map (usage_of ps) cs\<rparr>)"
  using assms
  by (induction cs arbitrary: s)
     (auto simp: calculate_cpu_one_def Let_def usage_of_def printk_def)

lemma not_counters_usage: "\<not> is_counters (usage_msg cpu a b c)"
  by (simp add: usage_msg_def)

lemma filter_usage_msgs:
  "filter (\<lambda>m. \<not> is_counters m) (concat (map (usage_msgs ps) cs)) = map (usage_of ps) cs"
  by (induction cs) (auto simp: usage_msgs_def usage_of_def not_counters_usage Let_def)

lemma kick_step_same:
  assumes "same_prev s2 s3" "has_stats n s3" "fst ck < n"
  shows "\<exists>t2 t3. statistics_cpu_one ck s2 = Inr t2
    \<and> ste_cpu_stats_one STE_CPU_METRIC_COLLECT_TIMINGS ck s3 = Inr t3 \<and> same_prev t2 t3
    \<and> has_stats n t3"
proof -
  from assms obtain ps where ps: "prev_cpu_usage_stats s3 = Arr ps" "length ps = n"
    "prev_idle_arr s2 = Arr (map prev_idle ps)" "prev_total_arr s2 = Arr (map prev_total ps)"
    "prev_interrupt_arr s2 = Arr (map prev_interrupt ps)"
    by (auto simp: same_prev_def has_stats_def)
  with assms(3) show ?thesis
    by (auto simp: statistics_cpu_one_def ste_cpu_stats_one_def same_prev_def has_stats_def
        printk_def Let_def map_update)
qed

lemma kick_loop_same:
  "same_prev s2 s3 \<Longrightarrow> has_stats n s3 \<Longrightarrow> cpus_ok n cs \<Longrightarrow>
     \<exists>t2 t3. foldM statistics_cpu_one cs s2 = Inr t2
       \<and> foldM (ste_cpu_stats_one STE_CPU_METRIC_COLLECT_TIMINGS) cs s3 = Inr t3
       \<and> same_prev t2 t3 \<and> has_stats n t3"
proof (induction cs arbitrary: s2 s3)
  case (Cons ck cs)
  then have "fst ck < n" "cpus_ok n cs" by (auto simp: cpus_ok_def split: prod.splits)
  with kick_step_same [OF Cons.prems(1,2)] Cons.IH show ?case by fastforce
qed auto

section \<open>Properties\<close>



end
