(* ===== verification/KHash.thy ===== *)
theory KHash
  imports Prelude
begin

text \<open>
  The hash tables of \<open>ste_top.c\<close> and \<open>process_cpu_usage.c\<close>: \<open>DEFINE_HASHTABLE(t, 10)\<close> with
  nodes that carry their key. A table maps each of the 1024 buckets to its chain of node
  addresses; the hash function is the kernel's and stays a parameter \<open>hsh\<close>. Both programs
  move all nodes of one table to another and search a bucket for a node with given contents.
  The laws those programs rely on are a locale, proved here for the tables.
\<close>

section \<open>Tables\<close>

type_synonym htab = "nat \<Rightarrow> nat list"

definition buckets :: nat where
  "buckets = 1024"

definition hash_init :: htab where
  "hash_init = (\<lambda>_. [])"

definition bucket_of :: "(int \<Rightarrow> nat) \<Rightarrow> int \<Rightarrow> nat" where
  "bucket_of hsh key = hsh key mod buckets"

definition hash_add :: "(int \<Rightarrow> nat) \<Rightarrow> nat \<Rightarrow> int \<Rightarrow> htab \<Rightarrow> htab" where
  "hash_add hsh node key t = t(bucket_of hsh key := node # t (bucket_of hsh key))"

definition hash_del :: "nat \<Rightarrow> htab \<Rightarrow> htab" where
  "hash_del node t = (\<lambda>b. removeAll node (t b))"

text \<open>The nodes in the order \<open>hash_for_each\<close> visits them, and the chain one key can be in.\<close>

definition hash_nodes :: "htab \<Rightarrow> nat list" where
  "hash_nodes t = concat (map t [0..<buckets])"

definition hash_possible :: "(int \<Rightarrow> nat) \<Rightarrow> int \<Rightarrow> htab \<Rightarrow> nat list" where
  "hash_possible hsh key t = t (bucket_of hsh key)"

lemma bucket_of_less: "bucket_of hsh key < buckets"
  by (simp add: bucket_of_def buckets_def)

lemma set_hash_nodes: "set (hash_nodes t) = (\<Union>b<buckets. set (t b))"
  by (auto simp: hash_nodes_def)

lemma mset_concat_upd:
  "distinct bs \<Longrightarrow> b \<in> set bs \<Longrightarrow>
     mset (concat (map (t(b := x # t b)) bs)) = add_mset x (mset (concat (map t bs)))"
proof (induction bs)
  case (Cons c bs)
  show ?case
  proof (cases "b = c")
    case True
    with Cons.prems(1) have "map (t(b := x # t b)) bs = map t bs" by auto
    then have "concat (map (t(b := x # t b)) (c # bs)) = x # concat (map t (c # bs))"
      using True by (simp only: list.map concat.simps fun_upd_same append_Cons)
    then show ?thesis by (simp only: mset.simps)
  next
    case False
    with Cons show ?thesis by (simp add: ac_simps)
  qed
qed simp

lemma mset_hash_add: "mset (hash_nodes (hash_add hsh n k t)) = add_mset n (mset (hash_nodes t))"
  unfolding hash_nodes_def hash_add_def
  by (rule mset_concat_upd) (simp_all add: bucket_of_less)

lemma hash_nodes_del: "hash_nodes (hash_del n t) = removeAll n (hash_nodes t)"
  by (simp add: hash_nodes_def hash_del_def removeAll_filter_not_eq filter_concat comp_def)

section \<open>The interface\<close>

text \<open>
  \<open>filed key t\<close>: every node of the table is found in the chain of its key.
\<close>

definition filed ::
  "('t \<Rightarrow> nat list) \<Rightarrow> (int \<Rightarrow> 't \<Rightarrow> nat list) \<Rightarrow> (nat \<Rightarrow> int) \<Rightarrow> 't \<Rightarrow> bool" where
  "filed nodes possible key t \<longleftrightarrow> (\<forall>n\<in>set (nodes t). n \<in> set (possible (key n) t))"

text \<open>Moving one node to another table, as the body of both programs' loops does.\<close>

definition move_one ::
  "(nat \<Rightarrow> int \<Rightarrow> 't \<Rightarrow> 't) \<Rightarrow> (nat \<Rightarrow> 't \<Rightarrow> 't) \<Rightarrow> (nat \<Rightarrow> int) \<Rightarrow> nat \<Rightarrow> 't \<times> 't \<Rightarrow> 't \<times> 't" where
  "move_one add del key n st = (del n (fst st), add n (key n) (snd st))"

locale hash_table =
  fixes empty :: 't
    and add :: "nat \<Rightarrow> int \<Rightarrow> 't \<Rightarrow> 't"
    and del :: "nat \<Rightarrow> 't \<Rightarrow> 't"
    and nodes :: "'t \<Rightarrow> nat list"
    and possible :: "int \<Rightarrow> 't \<Rightarrow> nat list"
  assumes nodes_empty: "nodes empty = []"
    and nodes_add: "mset (nodes (add n k t)) = add_mset n (mset (nodes t))"
    and nodes_del: "nodes (del n t) = removeAll n (nodes t)"
    and possible_nodes: "set (possible k t) \<subseteq> set (nodes t)"
    and possible_add: "n \<in> set (possible k (add n k t))"
    and possible_add_mono: "set (possible k t) \<subseteq> set (possible k (add n k' t))"
    and possible_del: "set (possible k (del n t)) = set (possible k t) - {n}"
begin

lemma set_nodes_add [simp]: "set (nodes (add n k t)) = insert n (set (nodes t))"
  by (metis nodes_add set_mset_add_mset_insert set_mset_mset)

lemma filed_empty: "filed nodes possible key empty"
  by (simp add: filed_def nodes_empty)

lemma filed_add: "filed nodes possible key t \<Longrightarrow> key n = k \<Longrightarrow> filed nodes possible key (add n k t)"
  using possible_add possible_add_mono by (fastforce simp: filed_def)

lemma filed_del: "filed nodes possible key t \<Longrightarrow> filed nodes possible key (del n t)"
  by (auto simp: filed_def nodes_del possible_del)

lemma filed_del_all: "filed nodes possible key t \<Longrightarrow> filed nodes possible key (fold del ns t)"
  by (induction ns arbitrary: t) (simp_all add: filed_del)

lemma filed_cong: "(\<And>n. n \<in> set (nodes t) \<Longrightarrow> key n = key' n) \<Longrightarrow> filed nodes possible key t = filed nodes possible key' t"
  by (simp add: filed_def)

text \<open>Moving every node of one table to another.\<close>

lemma fold_move:
  "fold (move_one add del key) ns (src, dst) = (src', dst') \<Longrightarrow> filed nodes possible key dst \<Longrightarrow>
     nodes src' = filter (\<lambda>n. n \<notin> set ns) (nodes src)
     \<and> mset (nodes dst') = mset ns + mset (nodes dst) \<and> filed nodes possible key dst'"
proof (induction ns arbitrary: src dst)
  case (Cons n ns)
  from Cons.prems(1) have "fold (move_one add del key) ns (del n src, add n (key n) dst) = (src', dst')"
    by (simp add: move_one_def [abs_def])
  from Cons.IH [OF this] Cons.prems(2) show ?case
    by (auto simp: nodes_del nodes_add filed_add removeAll_filter_not_eq conj_commute
        intro: filter_cong)
qed simp

lemma move_all:
  assumes "fold (move_one add del key) (nodes src) (src, dst) = (src', dst')" "filed nodes possible key dst"
  shows "nodes src' = []" and "mset (nodes dst') = mset (nodes src) + mset (nodes dst)"
    and "filed nodes possible key dst'"
  using fold_move [OF assms] by (auto simp: filter_empty_conv)

text \<open>
  Searching the chain of a key for a node with a property that only nodes of this key have
  is searching the whole table, when at most one node has the property.
\<close>

lemma find_possible_unique:
  assumes "filed nodes possible key t" "n \<in> set (nodes t)" "P n" "key n = k"
    and "\<And>m. m \<in> set (nodes t) \<Longrightarrow> P m \<Longrightarrow> m = n"
  shows "List.find P (possible k t) = Some n"
proof -
  have "n \<in> set (possible k t)" using assms(1,2,4) by (auto simp: filed_def)
  then show ?thesis using assms(3,5) possible_nodes by (intro find_unique) auto
qed

lemma find_possible_none:
  assumes "\<And>m. m \<in> set (nodes t) \<Longrightarrow> \<not> P m"
  shows "List.find P (possible k t) = None"
  using assms possible_nodes by (fastforce simp: find_None_iff)

end

lemma chain_in_nodes: "set (t (bucket_of hsh k)) \<subseteq> set (hash_nodes t)"
  using bucket_of_less by (auto simp: set_hash_nodes)

interpretation kh: hash_table hash_init "hash_add hsh" hash_del hash_nodes "hash_possible hsh"
proof unfold_locales
  show "hash_nodes hash_init = []" by (simp add: hash_nodes_def hash_init_def)
qed (simp_all add: mset_hash_add hash_nodes_del hash_possible_def chain_in_nodes,
     auto simp: hash_add_def hash_del_def)

end
