(* ===== verification/SteProcs.thy ===== *)
theory SteProcs
  imports CpuTimes KHash
begin

text \<open>
  The process table of \<open>ste_top.c\<close>: \<open>procs_hlp\<close> and \<open>procs_refresh\<close>. Every refresh visits
  all processes, fills one entry of a growing array per process and records the CPU time of
  the process in the hash table \<open>hash_table_new\<close>; the table of the refresh before has become
  \<open>hash_table_old\<close>, and the difference is the CPU time spent in between.
\<close>

section \<open>Data\<close>

record hst =
  hst_pid :: int
  hst_cpu_time :: u64
  hst_comm :: string

record proc_info =
  pid :: int
  uid :: u32
  priority :: int
  nice :: int
  per_cpu_time :: u64
  resident :: u64
  virtual_mem :: u64
  shared_mem :: u64
  state :: u64
  state_c :: char
  exit_state :: u32
  utime :: u64
  stime :: u64
  cutime :: u64
  cstime :: u64
  comm :: string
  num_threads :: int

text \<open>What the module reads of the kernel's \<open>task_struct\<close> and \<open>mm_struct\<close> (in pages).\<close>

record mm =
  total_vm :: u64
  filepages :: u64
  shmempages :: u64
  anonpages :: u64

record task =
  t_pid :: int
  t_uid :: u32
  t_prio :: int
  t_nice :: int
  t_state :: u64
  t_state_c :: char
  t_exit_state :: u32
  t_utime :: u64
  t_stime :: u64
  t_cutime :: u64
  t_cstime :: u64
  t_comm :: string
  t_threads :: int
  t_mm :: "mm option"

text \<open>
  Constants of the kernel the module is built for, its hash function, which of the module's
  allocations are granted, and the contents of a freshly allocated entry.
\<close>

record kernel =
  TASK_RUNNING :: u64
  TASK_INTERRUPTIBLE :: u64
  TASK_UNINTERRUPTIBLE :: u64
  TASK_STOPPED :: u64
  TASK_TRACED :: u64
  EXIT_ZOMBIE :: u32
  MAX_RT_PRIO :: int
  PAGE_SHIFT :: nat
  hash_fn :: "int \<Rightarrow> nat"
  granted :: "nat \<Rightarrow> bool"
  fresh :: proc_info

record ste =
  cpu_times :: cpu_state
  hst_mem :: "hst kmem"
  hash_table_old :: htab
  hash_table_new :: htab
  process_info :: "proc_info option buf"
  n_alloc :: nat
  total :: nat
  running :: nat
  sleeping :: nat
  stopped :: nat
  zombie :: nat
  d_process :: nat
  et :: int
  uptime_sav :: "int \<times> int"
  kb_mem_total :: u64
  cred_refs :: nat      \<comment> \<open>references taken by \<open>get_task_cred\<close> and not yet put\<close>

section \<open>procs_hlp\<close>

definition NSEC_PER_SEC :: int where
  "NSEC_PER_SEC = 1000000000"

text \<open>The time since the last refresh in nanoseconds, at least 10 milliseconds.\<close>

definition elapsed :: "int \<times> int \<Rightarrow> int \<times> int \<Rightarrow> int" where
  "elapsed cur sav =
     (let t = (fst cur - fst sav) * NSEC_PER_SEC + (snd cur - snd sav)
      in if t < NSEC_PER_SEC div 100 then NSEC_PER_SEC div 100 else t)"

definition free_hst :: "nat \<Rightarrow> ste \<Rightarrow> ste outcome" where
  "free_hst n s =
     bnd (kfree n (hst_mem s))
         (\<lambda>m. Inr (s\<lparr>hash_table_old := hash_del n (hash_table_old s), hst_mem := m\<rparr>))"

definition move_hst :: "kernel \<Rightarrow> nat \<Rightarrow> ste \<Rightarrow> ste outcome" where
  "move_hst K n s =
     bnd (kread n (hst_mem s))
         (\<lambda>h. Inr (s\<lparr>hash_table_new := hash_del n (hash_table_new s),
                    hash_table_old := hash_add (hash_fn K) n (hst_pid h) (hash_table_old s)\<rparr>))"

text \<open>\<open>procs_hlp(NULL)\<close>: a new refresh begins.\<close>

definition procs_hlp_null :: "kernel \<Rightarrow> int \<times> int \<Rightarrow> ste \<Rightarrow> ste outcome" where
  "procs_hlp_null K uptime_cur s =
     (let s1 = s\<lparr>et := elapsed uptime_cur (uptime_sav s), uptime_sav := uptime_cur,
                total := 0, running := 0, sleeping := 0, stopped := 0, zombie := 0,
                d_process := 0\<rparr>
      in bnd (foldM free_hst (hash_nodes (hash_table_old s1)) s1)
             (\<lambda>s2. foldM (move_hst K) (hash_nodes (hash_table_new s2)) s2))"

text \<open>Each task is counted in at most one class; the first test that holds decides.\<close>

definition count_task :: "kernel \<Rightarrow> proc_info \<Rightarrow> ste \<Rightarrow> ste" where
  "count_task K this s =
     (let s = s\<lparr>total := Suc (total s)\<rparr>
      in if state this = TASK_RUNNING K then s\<lparr>running := Suc (running s)\<rparr>
         else if state_c this = CHR ''D'' then s\<lparr>d_process := Suc (d_process s)\<rparr>
         else if state this AND (TASK_INTERRUPTIBLE K OR TASK_UNINTERRUPTIBLE K) \<noteq> 0
           then s\<lparr>sleeping := Suc (sleeping s)\<rparr>
         else if exit_state this = EXIT_ZOMBIE K then s\<lparr>zombie := Suc (zombie s)\<rparr>
         else if state this AND (TASK_STOPPED K OR TASK_TRACED K) \<noteq> 0
           then s\<lparr>stopped := Suc (stopped s)\<rparr>
         else s)"

text \<open>The search of a chain for a node with this pid and this name.\<close>

fun hst_search :: "hst kmem \<Rightarrow> int \<Rightarrow> string \<Rightarrow> nat list \<Rightarrow> u64 option outcome" where
  "hst_search m p c [] = Inr None"
| "hst_search m p c (n # ns) =
     bnd (kread n m) (\<lambda>item.
       if hst_pid item = p \<and> hst_comm item = c then Inr (Some (hst_cpu_time item))
       else hst_search m p c ns)"

definition proc_at :: "nat \<Rightarrow> ste \<Rightarrow> proc_info outcome" where
  "proc_at i s =
     bnd (buf_get (process_info s) i)
         (\<lambda>x. case x of None \<Rightarrow> Inl Null_deref | Some p \<Rightarrow> Inr p)"

definition proc_put :: "nat \<Rightarrow> proc_info \<Rightarrow> ste \<Rightarrow> ste outcome" where
  "proc_put i p s =
     bnd (buf_set (process_info s) i (Some p)) (\<lambda>arr. Inr (s\<lparr>process_info := arr\<rparr>))"

text \<open>\<open>procs_hlp(this)\<close> for the entry at index \<open>i\<close>.\<close>

definition procs_hlp_this :: "kernel \<Rightarrow> nat \<Rightarrow> ste \<Rightarrow> ste outcome" where
  "procs_hlp_this K i s =
     bnd (proc_at i s) (\<lambda>this.
       let s1 = count_task K this s;
           cpu_time = utime this + stime this;
           h = \<lparr>hst_pid = pid this, hst_cpu_time = cpu_time, hst_comm = comm this\<rparr>;
           (a, m) = kmalloc (granted K) h (hst_mem s1);
           s2 = s1\<lparr>hst_mem := m\<rparr>
       in case a of
            None \<Rightarrow> Inr s2
          | Some n \<Rightarrow>
              let s3 = s2\<lparr>hash_table_new := hash_add (hash_fn K) n (pid this) (hash_table_new s2)\<rparr>
              in bnd (hst_search (hst_mem s3) (pid this) (comm this)
                        (hash_possible (hash_fn K) (pid this) (hash_table_old s3)))
                     (\<lambda>old. proc_put i
                        (this\<lparr>per_cpu_time := (case old of None \<Rightarrow> cpu_time | Some t \<Rightarrow> cpu_time - t)\<rparr>)
                        s3))"

definition procs_hlp :: "kernel \<Rightarrow> int \<times> int \<Rightarrow> nat option \<Rightarrow> ste \<Rightarrow> ste outcome" where
  "procs_hlp K uptime_cur this s =
     (case this of None \<Rightarrow> procs_hlp_null K uptime_cur s | Some i \<Rightarrow> procs_hlp_this K i s)"

section \<open>procs_refresh\<close>

definition to_kb :: "kernel \<Rightarrow> u64 \<Rightarrow> u64" where
  "to_kb K pages = push_bit (PAGE_SHIFT K - 10) pages"

text \<open>
  Filling an entry from a task. The user id is assigned and then overwritten with 0; the
  field \<open>per_cpu_time\<close> keeps what the entry held.
\<close>

definition fill_entry :: "kernel \<Rightarrow> task \<Rightarrow> proc_info \<Rightarrow> proc_info" where
  "fill_entry K t p =
     (let p = p\<lparr>comm := t_comm t, pid := t_pid t, priority := t_prio t - MAX_RT_PRIO K,
               nice := t_nice t, state := t_state t, exit_state := t_exit_state t,
               utime := t_utime t, stime := t_stime t, uid := t_uid t\<rparr>;
          p = p\<lparr>uid := 0, state_c := t_state_c t, cutime := t_cutime t, cstime := t_cstime t,
               num_threads := t_threads t\<rparr>
      in case t_mm t of
           Some mm \<Rightarrow>
             p\<lparr>virtual_mem := to_kb K (total_vm mm),
              shared_mem := to_kb K (filepages mm + shmempages mm),
              resident := to_kb K (filepages mm + shmempages mm + anonpages mm)\<rparr>
         | None \<Rightarrow> p\<lparr>virtual_mem := 0, shared_mem := 0, resident := 0\<rparr>)"

text \<open>The \<open>memcpy\<close> of the first entries into a larger array whose rest is cleared.\<close>

fun copy_array :: "nat \<Rightarrow> nat \<Rightarrow> 'a option buf \<Rightarrow> 'a option buf outcome" where
  "copy_array used n NullP = (if used = 0 then Inr (Arr (replicate n None)) else Inl Null_deref)"
| "copy_array used n Freed = Inl Use_after_free"
| "copy_array used n (Arr xs) =
     (if used \<le> length xs then Inr (Arr (take used xs @ replicate (n - used) None))
      else Inl Out_of_bounds)"

text \<open>The rest of the loop body once there is room for the entry.\<close>

definition refresh_entry :: "kernel \<Rightarrow> task \<Rightarrow> ste \<Rightarrow> ste outcome" where
  "refresh_entry K t s =
     bnd (buf_get (process_info s) (total s)) (\<lambda>x.
       let (r, s1) = (case x of
             Some p \<Rightarrow> (Some p, s)
           | None \<Rightarrow> let (g, m) = krequest (granted K) (hst_mem s)
                     in (if g then Some (fresh K) else None, s\<lparr>hst_mem := m\<rparr>))
       in case r of
            None \<Rightarrow> Inr s1
          | Some p \<Rightarrow>
              bnd (proc_put (total s1) (fill_entry K t p) s1) (\<lambda>s2.
                procs_hlp K (uptime_sav s2) (Some (total s2))
                  (s2\<lparr>cred_refs := cred_refs s2 - 1\<rparr>)))"

definition refresh_one :: "kernel \<Rightarrow> task \<Rightarrow> ste \<Rightarrow> ste outcome" where
  "refresh_one K t s =
     (let s1 = s\<lparr>cred_refs := Suc (cred_refs s)\<rparr>
      in if n_alloc s1 = total s1 then
           let n = 10 + n_alloc s1 * 5 div 4;
               (g, m) = krequest (granted K) (hst_mem s1);
               s2 = s1\<lparr>n_alloc := n, hst_mem := m\<rparr>
           in if \<not> g then Inr s2
              else bnd (copy_array (total s2) n (process_info s2))
                       (\<lambda>arr. refresh_entry K t (s2\<lparr>process_info := arr\<rparr>))
         else refresh_entry K t s1)"

definition procs_refresh :: "kernel \<Rightarrow> int \<times> int \<Rightarrow> task list \<Rightarrow> ste \<Rightarrow> ste outcome" where
  "procs_refresh K uptime tasks s =
     bnd (procs_hlp K uptime None s) (foldM (refresh_one K) tasks)"

section \<open>The invariant of the hash tables\<close>

definition key_of :: "hst kmem \<Rightarrow> nat \<Rightarrow> int" where
  "key_of m n = (case cells m n of None \<Rightarrow> 0 | Some h \<Rightarrow> hst_pid h)"

definition table_ok :: "kernel \<Rightarrow> hst kmem \<Rightarrow> htab \<Rightarrow> bool" where
  "table_ok K m t = filed hash_nodes (hash_possible (hash_fn K)) (key_of m) t"

text \<open>
  The live nodes are exactly the nodes of the two tables, each linked once and in the chain
  of its pid.
\<close>

definition ste_inv :: "kernel \<Rightarrow> ste \<Rightarrow> bool" where
  "ste_inv K s \<longleftrightarrow>
     kmem_ok (hst_mem s)
     \<and> live (hst_mem s) = set (hash_nodes (hash_table_old s)) \<union> set (hash_nodes (hash_table_new s))
     \<and> distinct (hash_nodes (hash_table_old s) @ hash_nodes (hash_table_new s))
     \<and> table_ok K (hst_mem s) (hash_table_old s) \<and> table_ok K (hst_mem s) (hash_table_new s)"

lemma table_ok_cong:
  "(\<And>n. n \<in> set (hash_nodes t) \<Longrightarrow> cells m n = cells m' n) \<Longrightarrow> table_ok K m t = table_ok K m' t"
  unfolding table_ok_def by (rule kh.filed_cong) (simp add: key_of_def)

lemma free_loop_split:
  "foldM free_hst ns s =
     bnd (foldM kfree ns (hst_mem s))
         (\<lambda>m. Inr (s\<lparr>hash_table_old := fold hash_del ns (hash_table_old s), hst_mem := m\<rparr>))"
proof (induction ns arbitrary: s)
  case (Cons n ns)
  then show ?case by (cases "kfree n (hst_mem s)") (auto simp: free_hst_def)
qed simp

lemma nodes_fold_del: "hash_nodes (fold hash_del ns t) = filter (\<lambda>n. n \<notin> set ns) (hash_nodes t)"
proof (induction ns arbitrary: t)
  case (Cons n ns)
  then show ?case by (auto simp: hash_nodes_del removeAll_filter_not_eq intro: filter_cong)
qed simp

lemma move_loop_split:
  "set ns \<subseteq> live (hst_mem s) \<Longrightarrow>
     foldM (move_hst K) ns s =
     (let (new', old') = fold (move_one (hash_add (hash_fn K)) hash_del (key_of (hst_mem s))) ns
                           (hash_table_new s, hash_table_old s)
      in Inr (s\<lparr>hash_table_new := new', hash_table_old := old'\<rparr>))"
proof (induction ns arbitrary: s)
  case (Cons n ns)
  then obtain h where h: "kread n (hst_mem s) = Inr h" "cells (hst_mem s) n = Some h"
    using kread_live [of n "hst_mem s"] by auto
  with Cons show ?case by (simp add: move_hst_def move_one_def key_of_def)
qed simp

lemma table_ok_empty: "hash_nodes t = [] \<Longrightarrow> table_ok K m t"
  by (simp add: table_ok_def filed_def)

text \<open>The start of a refresh: the old records are released and the new ones become old.\<close>

lemma procs_hlp_null_ok:
  assumes inv: "ste_inv K s"
  shows "\<exists>s'. procs_hlp_null K up s = Inr s' \<and> ste_inv K s'
    \<and> hash_nodes (hash_table_new s') = []
    \<and> mset (hash_nodes (hash_table_old s')) = mset (hash_nodes (hash_table_new s))
    \<and> (\<forall>n\<in>set (hash_nodes (hash_table_new s)). cells (hst_mem s') n = cells (hst_mem s) n)
    \<and> s' = s\<lparr>hst_mem := hst_mem s', hash_table_old := hash_table_old s',
            hash_table_new := hash_table_new s', total := 0, running := 0, sleeping := 0,
            stopped := 0, zombie := 0, d_process := 0,
            et := elapsed up (uptime_sav s), uptime_sav := up\<rparr>"
proof -
  let ?old = "hash_nodes (hash_table_old s)" and ?new = "hash_nodes (hash_table_new s)"
  let ?s1 = "s\<lparr>et := elapsed up (uptime_sav s), uptime_sav := up,
                total := 0, running := 0, sleeping := 0, stopped := 0, zombie := 0,
                d_process := 0\<rparr>"
  from inv have i: "kmem_ok (hst_mem s)" "live (hst_mem s) = set ?old \<union> set ?new"
    "distinct ?old" "distinct ?new" "set ?old \<inter> set ?new = {}"
    "table_ok K (hst_mem s) (hash_table_new s)"
    by (auto simp: ste_inv_def)
  from km.free_list [OF i(1) i(3)] i(2) obtain m where
    m: "foldM kfree ?old (hst_mem s) = Inr m" "live m = live (hst_mem s) - set ?old" "kmem_ok m"
    by auto
  note c = foldM_kfree_cells [OF m(1)]
  define old1 where "old1 = fold hash_del ?old (hash_table_old s)"
  have old1: "hash_nodes old1 = []" by (auto simp: old1_def nodes_fold_del filter_empty_conv)
  define s2 where "s2 = ?s1\<lparr>hash_table_old := old1, hst_mem := m\<rparr>"
  have s2: "foldM free_hst ?old ?s1 = Inr s2"
    by (simp add: free_loop_split m(1) s2_def old1_def)
  have lv: "live m = set ?new" using m(2) i(2,5) by auto
  obtain new' old' where mv:
    "fold (move_one (hash_add (hash_fn K)) hash_del (key_of m)) ?new (hash_table_new s, old1)
     = (new', old')" by force
  have "filed hash_nodes (hash_possible (hash_fn K)) (key_of m) old1"
    using table_ok_empty [OF old1] by (simp add: table_ok_def)
  note mv' = kh.move_all [OF mv this]
  define s' where "s' = s2\<lparr>hash_table_new := new', hash_table_old := old'\<rparr>"
  have 1: "procs_hlp_null K up s = Inr s'"
    using s2 move_loop_split [of ?new s2 K] mv
    by (simp add: procs_hlp_null_def s'_def lv s2_def)
  have ms: "mset (hash_nodes old') = mset ?new" using mv'(2) by (simp add: old1)
  have 2: "ste_inv K s'"
    using m(3) lv mv'(1,3) ms i(4) mset_eq_setD [OF ms] mset_eq_imp_distinct_iff [OF ms]
    by (simp add: ste_inv_def s'_def s2_def table_ok_empty) (simp add: table_ok_def)
  have 3: "\<forall>n\<in>set ?new. cells (hst_mem s') n = cells (hst_mem s) n"
  proof
    fix n assume "n \<in> set ?new"
    with i(5) have "n \<notin> set ?old" by blast
    with c show "cells (hst_mem s') n = cells (hst_mem s) n" by (simp add: s'_def s2_def)
  qed
  have 4: "hash_nodes (hash_table_new s') = []"
    and 5: "mset (hash_nodes (hash_table_old s')) = mset ?new"
    using mv'(1) ms by (simp_all add: s'_def)
  have 6: "s' = s\<lparr>hst_mem := hst_mem s', hash_table_old := hash_table_old s',
            hash_table_new := hash_table_new s', total := 0, running := 0, sleeping := 0,
            stopped := 0, zombie := 0, d_process := 0,
            et := elapsed up (uptime_sav s), uptime_sav := up\<rparr>"
    by (simp add: s'_def s2_def)
  show ?thesis by (rule exI [of _ s'], intro conjI) (fact 1 2 3 4 5 6)+
qed

section \<open>What a table records\<close>

definition task_time :: "task \<Rightarrow> u64" where
  "task_time t = t_utime t + t_stime t"

definition sample :: "task \<Rightarrow> hst" where
  "sample t = \<lparr>hst_pid = t_pid t, hst_cpu_time = task_time t, hst_comm = t_comm t\<rparr>"

lemma sample_sel [simp]:
  "hst_pid (sample t) = t_pid t" "hst_cpu_time (sample t) = task_time t" "hst_comm (sample t) = t_comm t"
  by (simp_all add: sample_def)

definition records :: "hst kmem \<Rightarrow> htab \<Rightarrow> task list \<Rightarrow> bool" where
  "records m t tasks \<longleftrightarrow> mset (map (cells m) (hash_nodes t)) = mset (map (Some \<circ> sample) tasks)"

definition same_task :: "task \<Rightarrow> task \<Rightarrow> bool" where
  "same_task t t' \<longleftrightarrow> t_pid t' = t_pid t \<and> t_comm t' = t_comm t"

text \<open>The CPU time of a task since the sample \<open>prev\<close>; a task not in it counts from zero.\<close>

definition spent :: "task list \<Rightarrow> task \<Rightarrow> u64" where
  "spent prev t =
     (case List.find (same_task t) prev of
        None \<Rightarrow> task_time t | Some t' \<Rightarrow> task_time t - task_time t')"

lemma hst_search_find:
  "set ns \<subseteq> live m \<Longrightarrow>
     hst_search m p c ns =
     Inr (map_option (\<lambda>n. hst_cpu_time (the (cells m n)))
            (List.find (\<lambda>n. \<exists>h. cells m n = Some h \<and> hst_pid h = p \<and> hst_comm h = c) ns))"
proof (induction ns)
  case (Cons n ns)
  then obtain h where "kread n m = Inr h" "cells m n = Some h" using kread_live [of n m] by auto
  with Cons show ?case by auto
qed simp

text \<open>
  What a search of the chain of a pid finds, in terms of the recorded tasks, when no two of
  them have the same pid.
\<close>

lemma chain_find:
  assumes "table_ok K m t" and rec: "records m t ts" and d: "distinct (map t_pid ts)"
  shows "map_option (\<lambda>n. the (cells m n))
      (List.find (\<lambda>n. \<exists>h. cells m n = Some h \<and> hst_pid h = p \<and> Q h) (hash_possible (hash_fn K) p t))
    = map_option sample (List.find (\<lambda>u. t_pid u = p \<and> Q (sample u)) ts)"
proof -
  let ?P = "\<lambda>n. \<exists>h. cells m n = Some h \<and> hst_pid h = p \<and> Q h"
  let ?R = "\<lambda>u. t_pid u = p \<and> Q (sample u)"
  have set: "cells m ` set (hash_nodes t) = (Some \<circ> sample) ` set ts"
    using rec by (metis records_def mset_eq_setD set_map)
  have inj: "inj_on (cells m) (set (hash_nodes t))"
  proof -
    have "distinct (map (Some \<circ> sample) ts)"
      using d by (auto simp: distinct_map inj_on_def sample_def)
    then have "distinct (map (cells m) (hash_nodes t))"
      using rec by (metis records_def mset_eq_imp_distinct_iff)
    then show ?thesis by (simp add: distinct_map)
  qed
  have fwd: "\<exists>u\<in>set ts. cells m n = Some (sample u)" if "n \<in> set (hash_nodes t)" for n
    using imageI [OF that, of "cells m"] unfolding set image_iff by simp
  have bwd: "\<exists>n\<in>set (hash_nodes t). cells m n = Some (sample u)" if "u \<in> set ts" for u
    using imageI [OF that, of "Some \<circ> sample"] unfolding set [symmetric] image_iff by (simp add: eq_commute)
  show ?thesis
  proof (cases "List.find ?R ts")
    case None
    then have no: "\<not> ?R u" if "u \<in> set ts" for u using that by (auto simp: find_None_iff)
    have "\<not> ?P n" if "n \<in> set (hash_nodes t)" for n
    proof
      assume P: "?P n"
      from fwd [OF that] obtain u where "u \<in> set ts" "cells m n = Some (sample u)" by blast
      with P no [of u] show False by auto
    qed
    then have "List.find ?P (hash_possible (hash_fn K) p t) = None" by (rule kh.find_possible_none)
    with None show ?thesis by simp
  next
    case (Some u)
    then have u: "u \<in> set ts" "?R u" by (auto simp: find_Some_iff)
    from bwd [OF u(1)] obtain n where n: "n \<in> set (hash_nodes t)" "cells m n = Some (sample u)"
      by blast
    have uniq: "k = n" if k: "k \<in> set (hash_nodes t)" "?P k" for k
    proof -
      from fwd [OF k(1)] obtain v where v: "v \<in> set ts" "cells m k = Some (sample v)" by blast
      with k(2) u(2) have "t_pid v = t_pid u" by auto
      with d v(1) u(1) have "v = u" by (simp add: distinct_map inj_on_def)
      with v(2) n(2) have "cells m k = cells m n" by simp
      with inj show "k = n" using k(1) n(1) by (rule inj_onD)
    qed
    have "List.find ?P (hash_possible (hash_fn K) p t) = Some n"
    proof (rule kh.find_possible_unique)
      show "filed hash_nodes (hash_possible (hash_fn K)) (key_of m) t"
        using assms(1) by (simp add: table_ok_def)
      show "?P n" "key_of m n = p" using n(2) u(2) by (auto simp: key_of_def)
    qed (use n(1) uniq in auto)
    with Some n(2) show ?thesis by simp
  qed
qed

lemma search_old:
  assumes "set (hash_nodes t) \<subseteq> live m" "table_ok K m t" "records m t prev" "distinct (map t_pid prev)"
  shows "hst_search m (t_pid x) (t_comm x) (hash_possible (hash_fn K) (t_pid x) t)
    = Inr (map_option task_time (List.find (same_task x) prev))"
proof -
  let ?ns = "hash_possible (hash_fn K) (t_pid x) t"
  have sub: "set ?ns \<subseteq> live m" using kh.possible_nodes [of _ "t_pid x" t] assms(1) by blast
  have "same_task x = (\<lambda>u. t_pid u = t_pid x \<and> hst_comm (sample u) = t_comm x)"
    by (simp add: fun_eq_iff same_task_def)
  moreover have "task_time = hst_cpu_time \<circ> sample" by (simp add: fun_eq_iff)
  ultimately show ?thesis
    using arg_cong [OF chain_find [OF assms(2,3,4), of "t_pid x" "\<lambda>h. hst_comm h = t_comm x"],
        of "map_option hst_cpu_time"] hst_search_find [OF sub]
    by (simp add: option.map_comp comp_def)
qed

section \<open>One refresh\<close>

text \<open>The entry a refresh leaves for a task, given the sample \<open>prev\<close> of the refresh before.\<close>

definition entry :: "kernel \<Rightarrow> task list \<Rightarrow> task \<Rightarrow> proc_info" where
  "entry K prev t = (fill_entry K t (fresh K))\<lparr>per_cpu_time := spent prev t\<rparr>"

lemma fill_entry_eq: "(fill_entry K t p)\<lparr>per_cpu_time := x\<rparr> = (fill_entry K t q)\<lparr>per_cpu_time := x\<rparr>"
  by (simp add: fill_entry_def Let_def split: option.split)

lemma fill_entry_sel [simp]:
  "pid (fill_entry K t p) = t_pid t" "comm (fill_entry K t p) = t_comm t"
  "utime (fill_entry K t p) = t_utime t" "stime (fill_entry K t p) = t_stime t"
  "state (fill_entry K t p) = t_state t" "state_c (fill_entry K t p) = t_state_c t"
  "exit_state (fill_entry K t p) = t_exit_state t" "num_threads (fill_entry K t p) = t_threads t"
  "uid (fill_entry K t p) = 0"
  by (simp_all add: fill_entry_def Let_def split: option.split)

text \<open>The class a task is counted in, written from its own fields.\<close>

datatype task_class = Running | Uninterruptible | Sleeping | Zombie | Stopped | Other

definition class_of :: "kernel \<Rightarrow> task \<Rightarrow> task_class" where
  "class_of K t =
     (if t_state t = TASK_RUNNING K then Running
      else if t_state_c t = CHR ''D'' then Uninterruptible
      else if t_state t AND (TASK_INTERRUPTIBLE K OR TASK_UNINTERRUPTIBLE K) \<noteq> 0 then Sleeping
      else if t_exit_state t = EXIT_ZOMBIE K then Zombie
      else if t_state t AND (TASK_STOPPED K OR TASK_TRACED K) \<noteq> 0 then Stopped
      else Other)"

definition in_class :: "kernel \<Rightarrow> task_class \<Rightarrow> task list \<Rightarrow> nat" where
  "in_class K c ts = length (filter (\<lambda>t. class_of K t = c) ts)"

definition counted :: "kernel \<Rightarrow> task list \<Rightarrow> ste \<Rightarrow> bool" where
  "counted K ts s \<longleftrightarrow>
     total s = length ts \<and> running s = in_class K Running ts
     \<and> d_process s = in_class K Uninterruptible ts \<and> sleeping s = in_class K Sleeping ts
     \<and> zombie s = in_class K Zombie ts \<and> stopped s = in_class K Stopped ts"

lemma count_task_rest [simp]:
  "hst_mem (count_task K p s) = hst_mem s"
  "hash_table_old (count_task K p s) = hash_table_old s"
  "hash_table_new (count_task K p s) = hash_table_new s"
  "process_info (count_task K p s) = process_info s" "n_alloc (count_task K p s) = n_alloc s"
  "cred_refs (count_task K p s) = cred_refs s" "uptime_sav (count_task K p s) = uptime_sav s"
  "et (count_task K p s) = et s" "kb_mem_total (count_task K p s) = kb_mem_total s"
  "cpu_times (count_task K p s) = cpu_times s"
  by (simp_all add: count_task_def Let_def)

lemma counted_task:
  "counted K ts s \<Longrightarrow> counted K (ts @ [t]) (count_task K (fill_entry K t p) s)"
  by (simp add: counted_def count_task_def Let_def in_class_def class_of_def)

lemma in_class_sum: "(\<Sum>c\<in>{Running, Uninterruptible, Sleeping, Zombie, Stopped, Other}. in_class K c ts) = length ts"
proof (induction ts)
  case (Cons t ts)
  then show ?case by (cases "class_of K t") (simp_all add: in_class_def)
qed (simp add: in_class_def)

lemma records_cong:
  "records m t ts \<Longrightarrow> (\<And>n. n \<in> set (hash_nodes t) \<Longrightarrow> cells m' n = cells m n) \<Longrightarrow> records m' t ts"
  unfolding records_def by (metis (mono_tags, lifting) map_eq_conv)

lemma records_add:
  assumes "records m t ts" "n \<notin> set (hash_nodes t)"
  shows "records (m\<lparr>cells := (cells m)(n \<mapsto> sample x), brk := b\<rparr>) (hash_add h n k t) (ts @ [x])"
proof -
  have same: "map ((cells m)(n \<mapsto> sample x)) (hash_nodes t) = map (cells m) (hash_nodes t)"
    using assms(2) by auto
  have "mset (map ((cells m)(n \<mapsto> sample x)) (hash_nodes (hash_add h n k t)))
    = add_mset (Some (sample x)) (mset (map ((cells m)(n \<mapsto> sample x)) (hash_nodes t)))"
    by (simp add: mset_hash_add)
  also have "\<dots> = mset (map (Some \<circ> sample) (ts @ [x]))"
    unfolding same using assms(1) by (simp add: records_def)
  finally show ?thesis by (simp add: records_def)
qed

text \<open>A refresh under way: \<open>dn\<close> are the tasks already visited.\<close>

definition slots :: "kernel \<Rightarrow> task list \<Rightarrow> task list \<Rightarrow> ste \<Rightarrow> bool" where
  "slots K prev dn s \<longleftrightarrow>
     (process_info s = NullP \<and> n_alloc s = 0 \<and> dn = []
      \<or> (\<exists>xs. process_info s = Arr xs \<and> length xs = n_alloc s \<and> length dn \<le> n_alloc s
            \<and> take (length dn) xs = map (Some \<circ> entry K prev) dn))"

definition tables :: "kernel \<Rightarrow> task list \<Rightarrow> task list \<Rightarrow> ste \<Rightarrow> bool" where
  "tables K prev dn s \<longleftrightarrow>
     ste_inv K s \<and> records (hst_mem s) (hash_table_old s) prev
     \<and> records (hst_mem s) (hash_table_new s) dn"

definition refreshed :: "kernel \<Rightarrow> task list \<Rightarrow> task list \<Rightarrow> ste \<Rightarrow> bool" where
  "refreshed K prev dn s \<longleftrightarrow> tables K prev dn s \<and> slots K prev dn s \<and> counted K dn s"

lemma tables_add:
  assumes "tables K prev dn s"
    and "kmalloc (granted K) (sample x) (hst_mem s) = (Some n, m)"
    and "hst_mem s' = m" "hash_table_old s' = hash_table_old s"
      "hash_table_new s' = hash_add (hash_fn K) n (t_pid x) (hash_table_new s)"
  shows "tables K prev (dn @ [x]) s'"
proof -
  let ?old = "hash_nodes (hash_table_old s)" and ?new = "hash_nodes (hash_table_new s)"
  from assms(1) have i: "kmem_ok (hst_mem s)" "live (hst_mem s) = set ?old \<union> set ?new"
    "distinct ?old" "distinct ?new" "set ?old \<inter> set ?new = {}"
    "table_ok K (hst_mem s) (hash_table_old s)" "table_ok K (hst_mem s) (hash_table_new s)"
    "records (hst_mem s) (hash_table_old s) prev" "records (hst_mem s) (hash_table_new s) dn"
    by (auto simp: tables_def ste_inv_def)
  from km.alloc_granted [OF i(1) assms(2)] have
    a: "n \<notin> live (hst_mem s)" "live m = insert n (live (hst_mem s))" "kmem_ok m" by auto
  from assms(2) have m: "m = (hst_mem s)\<lparr>cells := (cells (hst_mem s))(n \<mapsto> sample x), brk := Suc (brk (hst_mem s))\<rparr>"
    by (auto simp: kmalloc_def split: if_splits)
  have c: "cells m k = cells (hst_mem s) k" if "k \<noteq> n" for k using that m by simp
  have c1: "cells m k = cells (hst_mem s) k" if "k \<in> set ?old \<union> set ?new" for k
    using that a(1) i(2) by (intro c) auto
  have old: "table_ok K m (hash_table_old s)" "records m (hash_table_old s) prev"
    using i(6) c1 by (simp add: table_ok_cong [of _ m "hst_mem s"])
      (rule records_cong [OF i(8)], simp add: c1)
  have "table_ok K m (hash_table_new s)"
    using i(7) c1 by (simp add: table_ok_cong [of _ m "hst_mem s"])
  moreover have "key_of m n = t_pid x" by (simp add: m key_of_def sample_def)
  ultimately have new: "table_ok K m (hash_table_new s')"
    unfolding assms(5) table_ok_def by (rule kh.filed_add)
  have rec: "records m (hash_table_new s') (dn @ [x])"
    unfolding m assms(5) using i(9) a(1) i(2) by (intro records_add) auto
  have ms: "mset (hash_nodes (hash_table_new s')) = mset (n # ?new)"
    by (simp add: assms(5) mset_hash_add)
  have "set (hash_nodes (hash_table_new s')) = insert n (set ?new)"
    using mset_eq_setD [OF ms] by simp
  moreover have "distinct (hash_nodes (hash_table_new s'))"
    using mset_eq_imp_distinct_iff [OF ms] i(4) a(1) i(2) by simp
  ultimately show ?thesis
    using a i(2-5) old new rec by (auto simp: tables_def ste_inv_def assms(3,4))
qed

lemma proc_at_Arr: "process_info s = Arr xs \<Longrightarrow> i < length xs \<Longrightarrow> xs ! i = Some p \<Longrightarrow> proc_at i s = Inr p"
  by (simp add: proc_at_def)

lemma tables_search:
  assumes "tables K prev dn s" "distinct (map t_pid prev)"
    and "kmalloc (granted K) x (hst_mem s) = (Some n, m)"
  shows "hst_search m (t_pid t) (t_comm t) (hash_possible (hash_fn K) (t_pid t) (hash_table_old s))
    = Inr (map_option task_time (List.find (same_task t) prev))"
proof (rule search_old)
  from assms(1) have i: "kmem_ok (hst_mem s)" "set (hash_nodes (hash_table_old s)) \<subseteq> live (hst_mem s)"
    "distinct (hash_nodes (hash_table_old s))" "table_ok K (hst_mem s) (hash_table_old s)"
    "records (hst_mem s) (hash_table_old s) prev"
    by (auto simp: tables_def ste_inv_def)
  from km.alloc_granted [OF i(1) assms(3)] have
    a: "n \<notin> live (hst_mem s)" "live m = insert n (live (hst_mem s))" by auto
  from assms(3) have c: "cells m k = cells (hst_mem s) k" if "k \<noteq> n" for k
    using that by (auto simp: kmalloc_def split: if_splits)
  have c1: "cells m k = cells (hst_mem s) k" if "k \<in> set (hash_nodes (hash_table_old s))" for k
    using that a(1) i(2) by (intro c) auto
  show "set (hash_nodes (hash_table_old s)) \<subseteq> live m" using a(2) i(2) by auto
  show "table_ok K m (hash_table_old s)" using i(4) c1 by (simp add: table_ok_cong [of _ m "hst_mem s"])
  show "records m (hash_table_old s) prev" by (rule records_cong [OF i(5)]) (simp add: c1)
qed (use assms in \<open>auto simp: tables_def ste_inv_def\<close>)

lemma procs_hlp_this_step:
  assumes t: "tables K prev dn s" "distinct (map t_pid prev)" "counted K dn s"
    and ok: "\<And>n. granted K n"
    and arr: "process_info s = Arr xs" "i < length xs" "xs ! i = Some (fill_entry K x p)"
  shows "\<exists>s'. procs_hlp_this K i s = Inr s' \<and> tables K prev (dn @ [x]) s' \<and> counted K (dn @ [x]) s'
    \<and> process_info s' = Arr (xs[i := Some (entry K prev x)])
    \<and> n_alloc s' = n_alloc s \<and> cred_refs s' = cred_refs s
    \<and> uptime_sav s' = uptime_sav s \<and> et s' = et s \<and> cpu_times s' = cpu_times s
    \<and> kb_mem_total s' = kb_mem_total s"
proof -
  let ?p = "fill_entry K x p"
  obtain n m where k: "kmalloc (granted K) (sample x) (hst_mem s) = (Some n, m)"
    using ok by (simp add: kmalloc_def)
  let ?s1 = "count_task K ?p s"
  let ?s3 = "?s1\<lparr>hst_mem := m, hash_table_new := hash_add (hash_fn K) n (t_pid x) (hash_table_new s)\<rparr>"
  let ?q = "?p\<lparr>per_cpu_time := spent prev x\<rparr>"
  let ?s' = "?s3\<lparr>process_info := Arr (xs[i := Some ?q])\<rparr>"
  have r: "procs_hlp_this K i s = Inr ?s'"
    using proc_at_Arr [OF arr] k tables_search [OF t(1,2) k, of x] arr
    by (cases "List.find (same_task x) prev")
       (simp_all add: procs_hlp_this_def Let_def task_time_def sample_def proc_put_def spent_def)
  have "tables K prev (dn @ [x]) ?s'" by (rule tables_add [OF t(1) k]) simp_all
  moreover have "counted K (dn @ [x]) ?s'"
    using counted_task [OF t(3), of x p] by (simp add: counted_def)
  moreover have "?q = entry K prev x" unfolding entry_def by (rule fill_entry_eq)
  ultimately show ?thesis using r by (intro exI [of _ ?s']) simp
qed

lemma refresh_entry_step:
  assumes r: "refreshed K prev dn s" "distinct (map t_pid prev)" "length dn < n_alloc s"
    and ok: "\<And>n. granted K n"
  shows "\<exists>s'. refresh_entry K x s = Inr s' \<and> refreshed K prev (dn @ [x]) s'
    \<and> cred_refs s' = cred_refs s - 1 \<and> uptime_sav s' = uptime_sav s \<and> et s' = et s
    \<and> cpu_times s' = cpu_times s \<and> kb_mem_total s' = kb_mem_total s"
proof -
  from r obtain xs where xs: "process_info s = Arr xs" "length xs = n_alloc s"
    "take (length dn) xs = map (Some \<circ> entry K prev) dn"
    by (auto simp: refreshed_def slots_def)
  from r have tab: "tables K prev dn s" and cnt: "counted K dn s" and tot: "total s = length dn"
    by (auto simp: refreshed_def counted_def)
  define p where "p = (case xs ! length dn of Some p \<Rightarrow> p | None \<Rightarrow> fresh K)"
  define m where "m = (if xs ! length dn = None then snd (krequest (granted K) (hst_mem s)) else hst_mem s)"
  define s2 where "s2 = s\<lparr>hst_mem := m, process_info := Arr (xs[length dn := Some (fill_entry K x p)]),
                        cred_refs := cred_refs s - 1\<rparr>"
  have e: "refresh_entry K x s = procs_hlp_this K (length dn) s2"
    using ok xs(1,2) r(3)
    by (cases "xs ! length dn")
       (auto simp: refresh_entry_def tot p_def m_def s2_def proc_put_def procs_hlp_def krequest_def)
  have "cells m = cells (hst_mem s)" "kmem_ok (hst_mem s) \<longrightarrow> kmem_ok m" "live m = live (hst_mem s)"
    by (simp_all add: m_def)
  then have "tables K prev dn s2"
    using tab by (simp add: tables_def ste_inv_def s2_def records_def table_ok_def key_of_def [abs_def])
  moreover have "counted K dn s2" using cnt by (simp add: counted_def s2_def)
  ultimately obtain s' where s': "procs_hlp_this K (length dn) s2 = Inr s'"
    "tables K prev (dn @ [x]) s'" "counted K (dn @ [x]) s'"
    "process_info s' = Arr (xs[length dn := Some (entry K prev x)])"
    "n_alloc s' = n_alloc s" "cred_refs s' = cred_refs s - 1"
    "uptime_sav s' = uptime_sav s" "et s' = et s" "cpu_times s' = cpu_times s"
    "kb_mem_total s' = kb_mem_total s"
    using procs_hlp_this_step [of K prev dn s2 _ "length dn" x p, OF _ r(2) _ ok] xs(2) r(3)
    by (auto simp: s2_def)
  have "take (length (dn @ [x])) (xs[length dn := Some (entry K prev x)])
      = map (Some \<circ> entry K prev) (dn @ [x])"
    using xs r(3) by (simp add: take_Suc_conv_app_nth take_update_swap list_update_append)
  then have "slots K prev (dn @ [x]) s'"
    using s'(4,5) xs(2) r(3) by (simp add: slots_def)
  with s' e show ?thesis by (simp add: refreshed_def)
qed

text \<open>The array is grown when it is full; the entries already filled are kept.\<close>

lemma refresh_one_room:
  assumes r: "refreshed K prev dn s" and ok: "\<And>n. granted K n"
  shows "\<exists>s1. refresh_one K x s = refresh_entry K x s1 \<and> refreshed K prev dn s1
    \<and> length dn < n_alloc s1 \<and> cred_refs s1 = Suc (cred_refs s)
    \<and> uptime_sav s1 = uptime_sav s \<and> et s1 = et s \<and> cpu_times s1 = cpu_times s
    \<and> kb_mem_total s1 = kb_mem_total s"
proof (cases "n_alloc s = length dn")
  case False
  with r have "refreshed K prev dn (s\<lparr>cred_refs := Suc (cred_refs s)\<rparr>)" "length dn < n_alloc s"
    by (auto simp: refreshed_def tables_def ste_inv_def slots_def counted_def)
  with r False show ?thesis
    by (intro exI [of _ "s\<lparr>cred_refs := Suc (cred_refs s)\<rparr>"])
       (simp add: refresh_one_def refreshed_def counted_def)
next
  case True
  define n where "n = 10 + n_alloc s * 5 div 4"
  have n: "length dn < n" using True by (simp add: n_def)
  have tot: "total s = length dn" using r by (simp add: refreshed_def counted_def)
  obtain ys where ys: "copy_array (length dn) n (process_info s) = Inr (Arr ys)" "length ys = n"
    "take (length dn) ys = map (Some \<circ> entry K prev) dn"
    using r True n by (auto simp: refreshed_def slots_def)
  define s1 where "s1 = s\<lparr>cred_refs := Suc (cred_refs s), n_alloc := n,
    hst_mem := snd (krequest (granted K) (hst_mem s)), process_info := Arr ys\<rparr>"
  have "refresh_one K x s = refresh_entry K x s1"
    using True ok ys(1) by (simp add: refresh_one_def tot s1_def krequest_def Let_def n_def)
  moreover have "slots K prev dn s1" using ys n by (simp add: slots_def s1_def)
  moreover have "tables K prev dn s1" "counted K dn s1"
    using r by (simp_all add: refreshed_def tables_def ste_inv_def counted_def s1_def
        records_def table_ok_def key_of_def [abs_def])
  ultimately show ?thesis
    using n by (intro exI [of _ s1]) (simp add: refreshed_def s1_def)
qed

section \<open>The module's statics, and its initialisation\<close>

definition ste_zero :: ste where
  "ste_zero =
     \<lparr>cpu_times = \<lparr>old_all_cpu_time = zero_cpu_time, new_all_cpu_time = zero_cpu_time\<rparr>,
      hst_mem = kmem_empty, hash_table_old = hash_init, hash_table_new = hash_init,
      process_info = NullP, n_alloc = 0, total = 0, running = 0, sleeping = 0, stopped = 0,
      zombie = 0, d_process = 0, et = 0, uptime_sav = (0, 0), kb_mem_total = 0, cred_refs = 0\<rparr>"

definition proc_stats_init :: "ste \<Rightarrow> ste" where
  "proc_stats_init s = s\<lparr>hash_table_old := hash_init, hash_table_new := hash_init\<rparr>"

lemma hash_nodes_init [simp]: "hash_nodes hash_init = []"
  by (rule kh.nodes_empty)

lemma refreshed_init: "refreshed K [] [] (proc_stats_init ste_zero)"
  by (simp add: refreshed_def tables_def ste_inv_def slots_def counted_def proc_stats_init_def
      ste_zero_def records_def table_ok_empty in_class_def kmem_ok_def live_def kmem_empty_def)

text \<open>
  What a refresh needs of the state: the tables hold the sample \<open>prev\<close> of the last refresh,
  and the capacity is the length of the array. The order of the entries does not matter.
\<close>

definition ready :: "kernel \<Rightarrow> task list \<Rightarrow> ste \<Rightarrow> bool" where
  "ready K prev s \<longleftrightarrow> (\<exists>old. tables K old prev s) \<and> slots K [] [] s"

lemma refreshed_ready: "refreshed K old prev s \<Longrightarrow> ready K prev s"
  by (auto simp: refreshed_def ready_def slots_def)

lemma ready_init: "ready K [] (proc_stats_init ste_zero)"
  by (rule refreshed_ready [OF refreshed_init])

lemma procs_hlp_null_refreshed:
  assumes r: "ready K prev s"
  shows "\<exists>s'. procs_hlp_null K up s = Inr s' \<and> refreshed K prev [] s'
    \<and> cred_refs s' = cred_refs s \<and> uptime_sav s' = up \<and> et s' = elapsed up (uptime_sav s)
    \<and> cpu_times s' = cpu_times s \<and> kb_mem_total s' = kb_mem_total s"
proof -
  from r have inv: "ste_inv K s" and rec: "records (hst_mem s) (hash_table_new s) prev"
    and sl: "slots K [] [] s"
    by (auto simp: ready_def tables_def)
  from procs_hlp_null_ok [OF inv, of up] obtain s' where s': "procs_hlp_null K up s = Inr s'"
    "ste_inv K s'" "hash_nodes (hash_table_new s') = []"
    and ms: "mset (hash_nodes (hash_table_old s')) = mset (hash_nodes (hash_table_new s))"
    and c: "\<forall>n\<in>set (hash_nodes (hash_table_new s)). cells (hst_mem s') n = cells (hst_mem s) n"
    and upd: "s' = s\<lparr>hst_mem := hst_mem s', hash_table_old := hash_table_old s',
            hash_table_new := hash_table_new s', total := 0, running := 0, sleeping := 0,
            stopped := 0, zombie := 0, d_process := 0,
            et := elapsed up (uptime_sav s), uptime_sav := up\<rparr>"
    by blast
  have f: "f s' = f (s\<lparr>hst_mem := hst_mem s', hash_table_old := hash_table_old s',
            hash_table_new := hash_table_new s', total := 0, running := 0, sleeping := 0,
            stopped := 0, zombie := 0, d_process := 0,
            et := elapsed up (uptime_sav s), uptime_sav := up\<rparr>)" for f :: "ste \<Rightarrow> 'b"
    using upd by (rule arg_cong)
  have g: "process_info s' = process_info s" "n_alloc s' = n_alloc s" "cred_refs s' = cred_refs s"
    "et s' = elapsed up (uptime_sav s)" "uptime_sav s' = up" "cpu_times s' = cpu_times s"
    "kb_mem_total s' = kb_mem_total s"
    by (subst f, simp)+
  have cn: "counted K [] s'" unfolding counted_def in_class_def by (subst f, simp)+
  have "image_mset (cells (hst_mem s')) (mset (hash_nodes (hash_table_old s')))
      = image_mset (cells (hst_mem s)) (mset (hash_nodes (hash_table_new s)))"
    unfolding ms using c by (intro image_mset_cong) simp
  with rec have "records (hst_mem s') (hash_table_old s') prev" by (simp add: records_def)
  with s'(2,3) have t: "tables K prev [] s'" by (simp add: tables_def records_def)
  have sl': "slots K prev [] s'" using sl g(1,2) by (auto simp: slots_def)
  show ?thesis
    by (rule exI [of _ s']) (simp only: refreshed_def s'(1) t sl' cn g simp_thms)
qed

text \<open>The loop over the tasks, from the middle of a refresh on.\<close>

lemma refresh_loop:
  assumes "refreshed K prev dn s" and d: "distinct (map t_pid prev)" and ok: "\<And>n. granted K n"
  shows "\<exists>s'. foldM (refresh_one K) ts s = Inr s' \<and> refreshed K prev (dn @ ts) s'
    \<and> cred_refs s' = cred_refs s \<and> uptime_sav s' = uptime_sav s \<and> et s' = et s
    \<and> cpu_times s' = cpu_times s \<and> kb_mem_total s' = kb_mem_total s"
  using assms(1)
proof (induction ts arbitrary: s dn)
  case (Cons x ts)
  from refresh_one_room [OF Cons.prems ok, of x] obtain t1 where
    t1: "refresh_one K x s = refresh_entry K x t1" "refreshed K prev dn t1"
    "length dn < n_alloc t1" "cred_refs t1 = Suc (cred_refs s)" "uptime_sav t1 = uptime_sav s"
    "et t1 = et s" "cpu_times t1 = cpu_times s" "kb_mem_total t1 = kb_mem_total s" by blast
  from refresh_entry_step [OF t1(2) d t1(3) ok, of x] obtain t2 where
    t2: "refresh_entry K x t1 = Inr t2" "refreshed K prev (dn @ [x]) t2"
    "cred_refs t2 = cred_refs t1 - 1" "uptime_sav t2 = uptime_sav t1" "et t2 = et t1"
    "cpu_times t2 = cpu_times t1" "kb_mem_total t2 = kb_mem_total t1" by blast
  from Cons.IH [OF t2(2)] t1 t2 show ?case by simp
qed simp

lemma procs_refresh_step:
  assumes r: "ready K prev s" and d: "distinct (map t_pid prev)" and ok: "\<And>n. granted K n"
  shows "\<exists>s'. procs_refresh K up ts s = Inr s' \<and> refreshed K prev ts s'
    \<and> cred_refs s' = cred_refs s \<and> uptime_sav s' = up \<and> et s' = elapsed up (uptime_sav s)
    \<and> cpu_times s' = cpu_times s \<and> kb_mem_total s' = kb_mem_total s"
proof -
  from procs_hlp_null_refreshed [OF r, of up] obtain s0 where
    s0: "procs_hlp_null K up s = Inr s0" "refreshed K prev [] s0"
    "cred_refs s0 = cred_refs s" "uptime_sav s0 = up" "et s0 = elapsed up (uptime_sav s)"
    "cpu_times s0 = cpu_times s" "kb_mem_total s0 = kb_mem_total s" by blast
  from refresh_loop [OF s0(2) d ok, of ts] s0 show ?thesis
    by (auto simp: procs_refresh_def procs_hlp_def)
qed

text \<open>A history of refreshes since the module was loaded, each with its time and its tasks.\<close>

definition refreshes :: "kernel \<Rightarrow> ((int \<times> int) \<times> task list) list \<Rightarrow> ste \<Rightarrow> ste outcome" where
  "refreshes K hist s = foldM (\<lambda>(up, ts). procs_refresh K up ts) hist s"

definition distinct_pids :: "task list \<Rightarrow> bool" where
  "distinct_pids ts \<longleftrightarrow> distinct (map t_pid ts)"

lemma refreshes_ok:
  assumes "ready K prev s" "distinct (map t_pid prev)" "\<And>n. granted K n"
    and "list_all (distinct_pids \<circ> snd) hist"
  shows "\<exists>s'. refreshes K hist s = Inr s' \<and> cred_refs s' = cred_refs s
    \<and> ready K (if hist = [] then prev else snd (last hist)) s'"
  using assms
proof (induction hist arbitrary: s prev)
  case (Cons h hist)
  obtain up ts where h: "h = (up, ts)" by (cases h)
  from procs_refresh_step [OF Cons.prems(1,2,3), of up ts] obtain s1 where
    s1: "procs_refresh K up ts s = Inr s1" "refreshed K prev ts s1" "cred_refs s1 = cred_refs s"
    by blast
  have "distinct (map t_pid ts)" using Cons.prems(4) h by (simp add: distinct_pids_def)
  moreover have "list_all (distinct_pids \<circ> snd) hist" using Cons.prems(4) by (simp add: comp_def)
  ultimately obtain s' where "refreshes K hist s1 = Inr s'" "cred_refs s' = cred_refs s1"
    "ready K (if hist = [] then ts else snd (last hist)) s'"
    using Cons.IH [OF refreshed_ready [OF s1(2)] _ Cons.prems(3)] by blast
  with s1 show ?case
    by (intro exI [of _ s']) (simp add: refreshes_def h split: if_splits)
qed (auto simp: refreshes_def)

section \<open>Properties\<close>

lemma refreshes_two:
  assumes "\<And>n. granted K n" "list_all (distinct_pids \<circ> snd) (hist @ [(up1, ts1), (up2, ts2)])"
  shows "\<exists>s. refreshes K (hist @ [(up1, ts1), (up2, ts2)]) (proc_stats_init ste_zero) = Inr s
    \<and> refreshed K ts1 ts2 s \<and> cred_refs s = 0 \<and> et s = elapsed up2 up1"
proof -
  from refreshes_ok [OF ready_init _ assms(1), of hist] assms(2) obtain s0 where
    s0: "refreshes K hist (proc_stats_init ste_zero) = Inr s0"
    "cred_refs s0 = cred_refs (proc_stats_init ste_zero)"
    "ready K (if hist = [] then [] else snd (last hist)) s0" by auto
  let ?prev = "if hist = [] then [] else snd (last hist)"
  have "distinct (map t_pid ?prev)"
    using assms(2) last_in_set [of hist] by (auto simp: distinct_pids_def list_all_iff)
  from procs_refresh_step [OF s0(3) this assms(1), of up1 ts1] obtain s1 where
    s1: "procs_refresh K up1 ts1 s0 = Inr s1" "refreshed K ?prev ts1 s1"
    "cred_refs s1 = cred_refs s0" "uptime_sav s1 = up1" by blast
  have "distinct (map t_pid ts1)" using assms(2) by (simp add: distinct_pids_def)
  from procs_refresh_step [OF refreshed_ready [OF s1(2)] this assms(1), of up2 ts2] obtain s2 where
    s2: "procs_refresh K up2 ts2 s1 = Inr s2" "refreshed K ts1 ts2 s2"
    "cred_refs s2 = cred_refs s1" "et s2 = elapsed up2 (uptime_sav s1)" by blast
  have "refreshes K (hist @ [(up1, ts1), (up2, ts2)]) (proc_stats_init ste_zero) = Inr s2"
    using s0(1) s1(1) s2(1) by (simp add: refreshes_def foldM_append)
  with s0(2) s1(3,4) s2 show ?thesis by (simp add: proc_stats_init_def ste_zero_def)
qed

lemma refreshed_entries:
  assumes "refreshed K prev ts s" "i < length ts"
  shows "proc_at i s = Inr (entry K prev (ts ! i))"
proof -
  from assms obtain xs where xs: "process_info s = Arr xs" "length ts \<le> length xs"
    "take (length ts) xs = map (Some \<circ> entry K prev) ts"
    by (auto simp: refreshed_def slots_def)
  then have "xs ! i = Some (entry K prev (ts ! i))"
    using assms(2) by (metis (no_types, lifting) comp_apply nth_map nth_take)
  with xs assms(2) show ?thesis by (simp add: proc_at_def)
qed

lemma records_length: "records m t ts \<Longrightarrow> length (hash_nodes t) = length ts"
  unfolding records_def by (metis mset_eq_length length_map)

lemma refreshed_live:
  assumes "refreshed K prev ts s"
  shows "card (live (hst_mem s)) = length prev + length ts"
proof -
  let ?old = "hash_nodes (hash_table_old s)" and ?new = "hash_nodes (hash_table_new s)"
  from assms have t: "live (hst_mem s) = set (?old @ ?new)" "distinct (?old @ ?new)"
    "records (hst_mem s) (hash_table_old s) prev" "records (hst_mem s) (hash_table_new s) ts"
    by (auto simp: refreshed_def tables_def ste_inv_def)
  show ?thesis
    unfolding t(1) distinct_card [OF t(2)] using t(3,4) [THEN records_length] by simp
qed

definition kernel_x86 :: "(nat \<Rightarrow> bool) \<Rightarrow> kernel" where
  "kernel_x86 ok =
     \<lparr>TASK_RUNNING = 0, TASK_INTERRUPTIBLE = 1, TASK_UNINTERRUPTIBLE = 2, TASK_STOPPED = 4,
      TASK_TRACED = 8, EXIT_ZOMBIE = 32, MAX_RT_PRIO = 100, PAGE_SHIFT = 12,
      hash_fn = (\<lambda>k. nat \<bar>k\<bar>), granted = ok,
      fresh = \<lparr>pid = 0, uid = 0, priority = 0, nice = 0, per_cpu_time = 0, resident = 0,
               virtual_mem = 0, shared_mem = 0, state = 0, state_c = CHR ''?'', exit_state = 0,
               utime = 0, stime = 0, cutime = 0, cstime = 0, comm = [], num_threads = 0\<rparr>\<rparr>"

definition example_task :: "int \<Rightarrow> u64 \<Rightarrow> u64 \<Rightarrow> task" where
  "example_task p st time =
     \<lparr>t_pid = p, t_uid = 1000, t_prio = 120, t_nice = 0, t_state = st, t_state_c = CHR ''S'',
      t_exit_state = 0, t_utime = time, t_stime = 1, t_cutime = 0, t_cstime = 0,
      t_comm = ''sh'', t_threads = 1, t_mm = None\<rparr>"

text \<open>
  C1. However often the table was refreshed before, when every allocation is granted a
  refresh never faults and shows one entry per process, in the order of the process list: the
  fields of the process, and the CPU time it spent since the refresh before (all of its CPU
  time when no process with its pid and name was there then). The counters of the summary line
  count each process in at most one class, the one its state, state letter and exit state give by
  the order of the tests, and with the processes of no class they add up to the total. The hash
  tables do not accumulate: they hold one record per process of each of the last two refreshes,
  and no reference to a process's credentials is left.
\<close>

theorem refreshes_report_spent:
  assumes "\<And>n. granted K n" "list_all (distinct_pids \<circ> snd) (hist @ [(up1, ts1), (up2, ts2)])"
  shows "\<exists>s. refreshes K (hist @ [(up1, ts1), (up2, ts2)]) (proc_stats_init ste_zero) = Inr s
    \<and> total s = length ts2
    \<and> (\<forall>i<length ts2. \<exists>p. proc_at i s = Inr p
          \<and> pid p = t_pid (ts2 ! i) \<and> comm p = t_comm (ts2 ! i)
          \<and> num_threads p = t_threads (ts2 ! i) \<and> uid p = 0
          \<and> per_cpu_time p = spent ts1 (ts2 ! i))
    \<and> running s = in_class K Running ts2 \<and> d_process s = in_class K Uninterruptible ts2
    \<and> sleeping s = in_class K Sleeping ts2 \<and> zombie s = in_class K Zombie ts2
    \<and> stopped s = in_class K Stopped ts2
    \<and> total s = running s + d_process s + sleeping s + zombie s + stopped s + in_class K Other ts2
    \<and> card (live (hst_mem s)) = length ts1 + length ts2 \<and> cred_refs s = 0"
proof -
  from refreshes_two [OF assms] obtain s where
    s: "refreshes K (hist @ [(up1, ts1), (up2, ts2)]) (proc_stats_init ste_zero) = Inr s"
    "refreshed K ts1 ts2 s" "cred_refs s = 0" by blast
  have e: "total s = length ts2" "\<forall>i<length ts2. \<exists>p. proc_at i s = Inr p
      \<and> pid p = t_pid (ts2 ! i) \<and> comm p = t_comm (ts2 ! i)
      \<and> num_threads p = t_threads (ts2 ! i) \<and> uid p = 0 \<and> per_cpu_time p = spent ts1 (ts2 ! i)"
    using refreshed_entries [OF s(2)] s(2) by (simp_all add: refreshed_def counted_def entry_def)
  have "counted K ts2 s" using s(2) by (simp add: refreshed_def)
  with in_class_sum [of K ts2] have c:
    "running s = in_class K Running ts2" "d_process s = in_class K Uninterruptible ts2"
    "sleeping s = in_class K Sleeping ts2" "zombie s = in_class K Zombie ts2"
    "stopped s = in_class K Stopped ts2"
    "total s = running s + d_process s + sleeping s + zombie s + stopped s + in_class K Other ts2"
    by (auto simp: counted_def)
  have l: "card (live (hst_mem s)) = length ts1 + length ts2" "cred_refs s = 0"
    using refreshed_live [OF s(2)] s(3) by simp_all
  show ?thesis by (intro exI [of _ s] conjI) (fact s(1) e c l)+
qed

theorem refreshes_report_spent_witness:
  "\<exists>s p. refreshes (kernel_x86 (\<lambda>_. True))
       ([((0, 0), [example_task 7 0 3])]
        @ [((1, 0), [example_task 7 0 10, example_task 9 1 4]),
           ((2, 0), [example_task 9 1 4, example_task 7 0 25])])
       (proc_stats_init ste_zero) = Inr s
     \<and> total s = 2 \<and> proc_at 1 s = Inr p \<and> pid p = 7 \<and> per_cpu_time p = 15
     \<and> running s = 1 \<and> sleeping s = 1 \<and> card (live (hst_mem s)) = 4"
proof -
  let ?a = "[example_task 7 0 10, example_task 9 1 4]"
  let ?b = "[example_task 9 1 4, example_task 7 0 25]"
  let ?K = "kernel_x86 (\<lambda>_. True)"
  have "spent ?a (example_task 7 0 25) = 15"
    by (simp add: spent_def same_task_def example_task_def task_time_def)
  moreover have "in_class ?K Running ?b = 1" "in_class ?K Sleeping ?b = 1"
    by (simp_all add: kernel_x86_def example_task_def in_class_def class_of_def)
  ultimately show ?thesis
    using refreshes_report_spent [of ?K "[((0, 0), [example_task 7 0 3])]" "(1, 0)" ?a "(2, 0)" ?b]
    by (force simp: kernel_x86_def distinct_pids_def example_task_def)
qed

text \<open>
  C15. A refused growth of the array is not survived. The capacity is raised before the
  allocation is tried, so the refusal leaves it larger than the array; the process is
  skipped with its credential reference still held, and the next process reads past the end
  of the array, or through the null pointer when there was none yet.
\<close>

theorem refused_growth_faults:
  assumes "n_alloc s = total s"
    and "process_info s = NullP \<and> total s = 0 \<or> process_info s = Arr xs \<and> length xs = total s"
    and "\<not> granted K (brk (hst_mem s))"
  shows "\<exists>s1. refresh_one K t s = Inr s1 \<and> cred_refs s1 = Suc (cred_refs s)
    \<and> refresh_one K t' s1 = Inl (if process_info s = NullP then Null_deref else Out_of_bounds)"
proof -
  have "total s \<noteq> 10 + total s * 5 div 4" by simp
  with assms show ?thesis
    by (auto simp: refresh_one_def refresh_entry_def krequest_def Let_def)
qed

theorem refused_growth_faults_witness:
  "\<exists>s1. refresh_one (kernel_x86 (\<lambda>_. False)) (example_task 1 0 0) ste_zero = Inr s1
    \<and> refresh_one (kernel_x86 (\<lambda>_. False)) (example_task 2 0 0) s1 = Inl Null_deref"
  using refused_growth_faults [of ste_zero "[]" "kernel_x86 (\<lambda>_. False)" "example_task 1 0 0"
      "example_task 2 0 0"]
  by (auto simp: ste_zero_def kernel_x86_def)

end
