(* ===== verification/SteFrame.thy ===== *)
theory SteFrame
  imports SteProcs
begin

text \<open>
  A frame of \<open>ste_top.c\<close>: two refreshes 100 ms apart, the sorted process list and the lines
  that are printed; the write handler of \<open>/proc/kernel_top\<close> that makes a frame, and the exit of
  the module. The kernel's \<open>sort\<close> is a parameter.
\<close>

section \<open>Lines\<close>

datatype ste_line =
    Tasks_line nat nat nat nat nat nat
  | Cpu_line "(u64 \<times> u64) list"
  | Mem_line u64 u64 u64
  | Swap_line u64 u64
  | Swap_header
  | Swap_area string bool u32 u32 int
  | Proc_header
  | Proc_line int u32 int int u64 u64 u64 char "u64 \<times> u64" "u64 \<times> u64" string

text \<open>What \<open>si_meminfo\<close>, \<open>si_swapinfo\<close> and the page counters return.\<close>

record sysinfo =
  totalram :: u64
  freeram :: u64
  bufferram :: u64
  totalswap :: u64
  freeswap :: u64
  mem_unit :: u32
  nr_file_pages :: u64
  total_swapcache_pages :: u64
  nr_slab_reclaimable :: u64

record swap_area =
  sw_used :: bool
  sw_map :: bool
  sw_name :: string
  sw_blk :: bool
  sw_pages :: u32
  sw_inuse :: u32
  sw_prio :: int

section \<open>Operations\<close>

definition ste_mem_usage :: "sysinfo \<Rightarrow> ste \<Rightarrow> ste_line list \<times> ste" where
  "ste_mem_usage si s =
     (let u = ucast (mem_unit si);
          cached = nr_file_pages si - total_swapcache_pages si - bufferram si;
          sreclaimable = nr_slab_reclaimable si
      in ([Mem_line (totalram si * u div 1024 div 1024) (freeram si * u div 1024 div 1024)
             ((bufferram si + cached + sreclaimable) * u div 1024 div 1024),
           Swap_line (totalswap si * u div 1024 div 1024) (freeswap si * u div 1024 div 1024)],
          s\<lparr>kb_mem_total := totalram si * u div 1024\<rparr>))"

fun print_swap_area :: "kernel \<Rightarrow> swap_area option \<Rightarrow> ste_line list" where
  "print_swap_area K None = []"
| "print_swap_area K (Some sis) =
     (if \<not> sw_used sis \<or> \<not> sw_map sis then []
      else [Swap_area (sw_name sis) (sw_blk sis) (push_bit (PAGE_SHIFT K - 10) (sw_pages sis))
              (push_bit (PAGE_SHIFT K - 10) (sw_inuse sis)) (sw_prio sis)])"

definition print_swap_info :: "kernel \<Rightarrow> swap_area option list \<Rightarrow> ste_line list" where
  "print_swap_info K swaps = Swap_header # concat (map (print_swap_area K) swaps)"

text \<open>
  The two number pairs of a row. The divisor \<open>et\<close> is signed and is converted for the
  unsigned division; a row whose integer part reaches 100 per thread shows that bound.
\<close>

definition cpu_cells :: "int \<Rightarrow> proc_info \<Rightarrow> u64 \<times> u64" where
  "cpu_cells e p =
     (let permille = per_cpu_time p * 1000 div word_of_int e;
          bound = word_of_int (100 * num_threads p)
      in (if permille div 10 \<ge> bound then (bound, 0)
          else (permille div 10, permille mod 10)))"

definition mem_cells :: "u64 \<Rightarrow> proc_info \<Rightarrow> u64 \<times> u64" where
  "mem_cells kb p =
     (resident p * 1000 div kb div 10, resident p * 1000 div kb mod 10)"

definition show_row :: "ste \<Rightarrow> nat \<Rightarrow> ste_line list \<Rightarrow> ste_line list outcome" where
  "show_row s i out =
     bnd (proc_at i s) (\<lambda>p.
       if word_of_int (et s) = (0 :: u64) \<or> kb_mem_total s = 0 then Inl Div_by_zero
       else Inr (out @ [Proc_line (pid p) (uid p) (priority p) (nice p) (virtual_mem p)
              (resident p) (shared_mem p) (state_c p) (cpu_cells (et s) p)
              (mem_cells (kb_mem_total s) p) (comm p)]))"

definition show_lines ::
  "kernel \<Rightarrow> sysinfo \<Rightarrow> swap_area option list \<Rightarrow> ste \<Rightarrow> (ste_line list \<times> ste) outcome" where
  "show_lines K si swaps s =
     (let tasks = Tasks_line (total s) (running s) (sleeping s) (stopped s) (zombie s) (d_process s);
          cpu = (case print_cpu_usage_statistics (cpu_times s) of None \<Rightarrow> [] | Some l \<Rightarrow> [Cpu_line l]);
          (mem, s) = ste_mem_usage si s
      in bnd (foldM (show_row s) [0..<total s]
                ([tasks] @ cpu @ mem @ print_swap_info K swaps @ [Proc_header]))
             (\<lambda>out. Inr (out, s)))"

definition compare_proc_info :: "proc_info \<Rightarrow> proc_info \<Rightarrow> int" where
  "compare_proc_info p1 p2 =
     (if per_cpu_time p1 + resident p1 < per_cpu_time p2 + resident p2 then 1
      else if per_cpu_time p1 + resident p1 > per_cpu_time p2 + resident p2 then -1
      else 0)"

type_synonym sort_fn = "(proc_info \<Rightarrow> proc_info \<Rightarrow> int) \<Rightarrow> proc_info list \<Rightarrow> proc_info list"

definition sort_entries :: "sort_fn \<Rightarrow> ste \<Rightarrow> ste outcome" where
  "sort_entries srt s =
     (case process_info s of
        NullP \<Rightarrow> (if total s = 0 then Inr s else Inl Null_deref)
      | Freed \<Rightarrow> Inl Use_after_free
      | Arr xs \<Rightarrow>
          (if length xs < total s then Inl Out_of_bounds
           else if None \<in> set (take (total s) xs) then Inl Null_deref
           else Inr (s\<lparr>process_info :=
                  Arr (map Some (srt compare_proc_info (map the (take (total s) xs)))
                       @ drop (total s) xs)\<rparr>)))"

text \<open>What a frame reads of the system: two samples, the memory and the swap areas.\<close>

record inputs =
  cpus1 :: "kcpustat list"
  now1 :: "int \<times> int"
  tasks1 :: "task list"
  cpus2 :: "kcpustat list"
  now2 :: "int \<times> int"
  tasks2 :: "task list"
  meminfo :: sysinfo
  swaps :: "swap_area option list"

definition frame_make ::
  "kernel \<Rightarrow> sort_fn \<Rightarrow> inputs \<Rightarrow> ste \<Rightarrow> (ste_line list \<times> ste) outcome" where
  "frame_make K srt e s =
     bnd (procs_refresh K (now1 e) (tasks1 e)
            (s\<lparr>cpu_times := update_cpu_times (cpus1 e) (cpu_times s)\<rparr>)) (\<lambda>s1.
     bnd (procs_refresh K (now2 e) (tasks2 e)
            (s1\<lparr>cpu_times := update_cpu_times (cpus2 e) (cpu_times s1)\<rparr>)) (\<lambda>s2.
     bnd (sort_entries srt s2) (show_lines K (meminfo e) (swaps e))))"

text \<open>
  Writing to \<open>/proc/kernel_top\<close>: the text is copied and thrown away. \<open>copied\<close> says whether
  the user's buffer can be read; errors are \<open>-ENOMEM\<close> and \<open>-EFAULT\<close>.
\<close>

definition my_write ::
  "kernel \<Rightarrow> sort_fn \<Rightarrow> nat \<Rightarrow> bool \<Rightarrow> inputs \<Rightarrow> ste \<Rightarrow> (int \<times> ste_line list \<times> ste) outcome" where
  "my_write K srt len copied e s =
     (let (g, m) = krequest (granted K) (hst_mem s); s = s\<lparr>hst_mem := m\<rparr>
      in if \<not> g then Inr (-12, [], s)
         else if \<not> copied then Inr (-14, [], s)
         else bnd (frame_make K srt e s) (\<lambda>(out, s). Inr (int len, out, s)))"

text \<open>Unloading. The records of \<open>hash_table_new\<close> are not released.\<close>

definition check_entry :: "nat \<Rightarrow> ste \<Rightarrow> ste outcome" where
  "check_entry i s = bnd (buf_get (process_info s) i) (\<lambda>_. Inr s)"

definition proc_stats_exit :: "ste \<Rightarrow> ste outcome" where
  "proc_stats_exit s =
     bnd (foldM free_hst (hash_nodes (hash_table_old s)) s) (\<lambda>s.
     bnd (foldM check_entry [0..<n_alloc s] s) (\<lambda>s.
       if process_info s = Freed then Inl Double_free
       else Inr (s\<lparr>process_info := (if process_info s = NullP then NullP else Freed)\<rparr>)))"

section \<open>Lemmas\<close>

text \<open>What the kernel's \<open>sort\<close> promises.\<close>

definition sorts :: "sort_fn \<Rightarrow> bool" where
  "sorts srt \<longleftrightarrow>
     (\<forall>cmp xs. mset (srt cmp xs) = mset xs)
     \<and> (\<forall>xs. sorted_wrt (\<lambda>a b. compare_proc_info a b \<le> 0) (srt compare_proc_info xs))"

definition weight :: "proc_info \<Rightarrow> u64" where
  "weight p = per_cpu_time p + resident p"

lemma compare_le: "compare_proc_info a b \<le> 0 \<longleftrightarrow> weight b \<le> weight a"
  by (auto simp: compare_proc_info_def weight_def)

lemma sort_entries_refreshed:
  assumes "refreshed K prev ts s" "sorts srt"
  shows "\<exists>ps s'. sort_entries srt s = Inr s' \<and> ready K ts s' \<and> mset ps = mset (map (entry K prev) ts)
    \<and> sorted_wrt (\<lambda>a b. weight b \<le> weight a) ps
    \<and> length ps = total s' \<and> (\<forall>i<length ps. proc_at i s' = Inr (ps ! i))
    \<and> counted K ts s' \<and> et s' = et s \<and> cpu_times s' = cpu_times s \<and> cred_refs s' = cred_refs s
    \<and> uptime_sav s' = uptime_sav s"
proof (cases "process_info s = NullP")
  case True
  with assms have "ts = []" "total s = 0" by (auto simp: refreshed_def slots_def counted_def)
  with True assms(1) refreshed_ready show ?thesis
    by (intro exI [of _ "[]"] exI [of _ s]) (auto simp: sort_entries_def refreshed_def)
next
  case False
  with assms(1) obtain xs where xs: "process_info s = Arr xs" "length xs = n_alloc s"
    "length ts \<le> n_alloc s" "take (length ts) xs = map (Some \<circ> entry K prev) ts" "total s = length ts"
    by (auto simp: refreshed_def slots_def counted_def)
  define ps where "ps = srt compare_proc_info (map (entry K prev) ts)"
  define s' where "s' = s\<lparr>process_info := Arr (map Some ps @ drop (length ts) xs)\<rparr>"
  have ms: "mset ps = mset (map (entry K prev) ts)" and so: "sorted_wrt (\<lambda>a b. weight b \<le> weight a) ps"
    using assms(2) by (simp_all add: sorts_def ps_def compare_le)
  have len: "length ps = length ts" using mset_eq_length [OF ms] by simp
  have "map the (take (length ts) xs) = map (entry K prev) ts" using xs(4) by (simp add: comp_def)
  moreover have "None \<notin> set (take (length ts) xs)" using xs(4) by auto
  ultimately have "sort_entries srt s = Inr s'"
    using xs(1,2,3,5) by (simp add: sort_entries_def s'_def ps_def)
  moreover have "ready K ts s'"
  proof -
    have "slots K [] [] s'" using xs len by (simp add: slots_def s'_def)
    moreover have "tables K prev ts s'"
      using assms(1) by (simp add: refreshed_def tables_def ste_inv_def s'_def)
    ultimately show ?thesis by (auto simp: ready_def)
  qed
  moreover have "counted K ts s'" using assms(1) by (simp add: refreshed_def counted_def s'_def)
  moreover have "proc_at i s' = Inr (ps ! i)" if "i < length ps" for i
    using that len by (simp add: proc_at_def s'_def nth_append)
  ultimately show ?thesis
    using ms so len xs(5) by (intro exI [of _ ps] exI [of _ s']) (simp add: s'_def)
qed

lemma show_rows:
  assumes "\<And>i. i \<in> set js \<Longrightarrow> proc_at i s = Inr (f i)" "word_of_int (et s) \<noteq> (0 :: u64)" "kb_mem_total s \<noteq> 0"
  shows "foldM (show_row s) js out = Inr (out @ map (\<lambda>i. let p = f i in
       Proc_line (pid p) (uid p) (priority p) (nice p) (virtual_mem p)
              (resident p) (shared_mem p) (state_c p) (cpu_cells (et s) p)
              (mem_cells (kb_mem_total s) p) (comm p)) js)"
  using assms by (induction js arbitrary: out) (simp_all add: show_row_def Let_def)

definition kb_total :: "inputs \<Rightarrow> u64" where
  "kb_total e = totalram (meminfo e) * ucast (mem_unit (meminfo e)) div 1024"

text \<open>
  The inputs a frame is meant for: no pid twice in a process list, some memory, and less
  than 292 years between the samples.
\<close>

definition sane :: "inputs \<Rightarrow> bool" where
  "sane e \<longleftrightarrow> distinct_pids (tasks1 e) \<and> distinct_pids (tasks2 e) \<and> kb_total e \<noteq> 0
     \<and> elapsed (now2 e) (now1 e) < 2 ^ 63"

definition row :: "inputs \<Rightarrow> proc_info \<Rightarrow> ste_line" where
  "row e p =
     Proc_line (pid p) (uid p) (priority p) (nice p) (virtual_mem p) (resident p) (shared_mem p)
       (state_c p) (cpu_cells (elapsed (now2 e) (now1 e)) p) (mem_cells (kb_total e) p) (comm p)"

lemma elapsed_pos: "0 < elapsed cur sav"
  by (auto simp: elapsed_def NSEC_PER_SEC_def Let_def)

lemma elapsed_word: "elapsed cur sav < 2 ^ 63 \<Longrightarrow> unat (word_of_int (elapsed cur sav) :: u64) = nat (elapsed cur sav)"
  using elapsed_pos [of cur sav] by (simp add: unat_eq_nat_uint uint_word_of_int)

lemma elapsed_nonzero: "elapsed cur sav < 2 ^ 63 \<Longrightarrow> word_of_int (elapsed cur sav) \<noteq> (0 :: u64)"
  using elapsed_word [of cur sav] elapsed_pos [of cur sav] by (auto simp: unat_eq_zero)

lemma ready_cpu_times [simp]: "ready K prev (s\<lparr>cpu_times := c\<rparr>) = ready K prev s"
  by (simp add: ready_def tables_def slots_def ste_inv_def)

lemma proc_at_kb [simp]: "proc_at i (s\<lparr>kb_mem_total := kb\<rparr>) = proc_at i s"
  by (simp add: proc_at_def)

lemma ready_kb [simp]: "ready K prev (s\<lparr>kb_mem_total := kb\<rparr>) = ready K prev s"
  by (simp add: ready_def tables_def slots_def ste_inv_def)

lemma show_lines_rows:
  assumes "length ps = total s" "\<And>i. i < length ps \<Longrightarrow> proc_at i s = Inr (ps ! i)"
    and "et s = elapsed (now2 e) (now1 e)" "sane e"
  shows "\<exists>head. show_lines K (meminfo e) (swaps e) s
    = Inr (head @ map (row e) ps, s\<lparr>kb_mem_total := kb_total e\<rparr>)
    \<and> head ! 0 = Tasks_line (total s) (running s) (sleeping s) (stopped s) (zombie s) (d_process s)
    \<and> head \<noteq> [] \<and> (\<forall>x\<in>set head. \<forall>p. x \<noteq> row e p)"
proof -
  let ?s = "s\<lparr>kb_mem_total := kb_total e\<rparr>"
  let ?head = "[Tasks_line (total s) (running s) (sleeping s) (stopped s) (zombie s) (d_process s)]
    @ (case print_cpu_usage_statistics (cpu_times s) of None \<Rightarrow> [] | Some l \<Rightarrow> [Cpu_line l])
    @ fst (ste_mem_usage (meminfo e) s) @ print_swap_info K (swaps e) @ [Proc_header]"
  have e: "word_of_int (et ?s) \<noteq> (0 :: u64)" "kb_mem_total ?s \<noteq> 0"
    using assms(3,4) elapsed_nonzero by (auto simp: sane_def)
  have "foldM (show_row ?s) [0..<total s] ?head
      = Inr (?head @ map (\<lambda>i. let p = ps ! i in row e p) [0..<total s])"
    using show_rows [where s = ?s and js = "[0..<total s]" and f = "\<lambda>i. ps ! i", OF _ e, of ?head]
      assms(1-3) by (simp add: row_def)
  moreover have "map (\<lambda>i. let p = ps ! i in row e p) [0..<total s] = map (row e) ps"
    using assms(1) by (simp add: list_eq_iff_nth_eq)
  ultimately have "show_lines K (meminfo e) (swaps e) s = Inr (?head @ map (row e) ps, ?s)"
    by (simp add: show_lines_def ste_mem_usage_def Let_def kb_total_def)
  moreover have "\<forall>x\<in>set (concat (map (print_swap_area K) sw)). \<forall>p. x \<noteq> row e p" for sw
  proof (induction sw)
    case (Cons a sw)
    then show ?case by (cases a) (auto simp: row_def)
  qed simp
  then have "\<forall>x\<in>set ?head. \<forall>p. x \<noteq> row e p"
    by (auto simp: ste_mem_usage_def print_swap_info_def row_def Let_def split: option.splits)
  ultimately show ?thesis by (intro exI [of _ ?head]) simp
qed

text \<open>A frame is two halves with the sleep in between.\<close>

definition frame_begin :: "kernel \<Rightarrow> inputs \<Rightarrow> ste \<Rightarrow> ste outcome" where
  "frame_begin K e s =
     procs_refresh K (now1 e) (tasks1 e) (s\<lparr>cpu_times := update_cpu_times (cpus1 e) (cpu_times s)\<rparr>)"

definition frame_end ::
  "kernel \<Rightarrow> sort_fn \<Rightarrow> inputs \<Rightarrow> ste \<Rightarrow> (ste_line list \<times> ste) outcome" where
  "frame_end K srt e s =
     bnd (procs_refresh K (now2 e) (tasks2 e)
            (s\<lparr>cpu_times := update_cpu_times (cpus2 e) (cpu_times s)\<rparr>)) (\<lambda>s2.
     bnd (sort_entries srt s2) (show_lines K (meminfo e) (swaps e)))"

lemma frame_make_halves: "frame_make K srt e s = bnd (frame_begin K e s) (frame_end K srt e)"
  by (simp add: frame_make_def frame_begin_def frame_end_def [abs_def])

lemma frame_begin_ok:
  assumes "ready K prev s" "distinct_pids prev" "\<And>n. granted K n"
  shows "\<exists>s'. frame_begin K e s = Inr s' \<and> ready K (tasks1 e) s'
    \<and> uptime_sav s' = now1 e \<and> cred_refs s' = cred_refs s"
proof -
  let ?s = "s\<lparr>cpu_times := update_cpu_times (cpus1 e) (cpu_times s)\<rparr>"
  have "ready K prev ?s" "distinct (map t_pid prev)" using assms(1,2) by (simp_all add: distinct_pids_def)
  from procs_refresh_step [OF this assms(3), of "now1 e" "tasks1 e"] show ?thesis
    by (auto simp: frame_begin_def intro: refreshed_ready)
qed

lemma frame_end_ok:
  assumes "ready K (tasks1 e) s" "uptime_sav s = now1 e" "\<And>n. granted K n" "sorts srt" "sane e"
  shows "\<exists>head ps s'. frame_end K srt e s = Inr (head @ map (row e) ps, s')
    \<and> mset ps = mset (map (entry K (tasks1 e)) (tasks2 e))
    \<and> sorted_wrt (\<lambda>a b. weight b \<le> weight a) ps
    \<and> head \<noteq> [] \<and> head ! 0 = Tasks_line (length (tasks2 e)) (in_class K Running (tasks2 e))
        (in_class K Sleeping (tasks2 e)) (in_class K Stopped (tasks2 e))
        (in_class K Zombie (tasks2 e)) (in_class K Uninterruptible (tasks2 e))
    \<and> (\<forall>x\<in>set head. \<forall>p. x \<noteq> row e p)
    \<and> ready K (tasks2 e) s' \<and> uptime_sav s' = now2 e \<and> cred_refs s' = cred_refs s"
proof -
  let ?s1 = "s\<lparr>cpu_times := update_cpu_times (cpus2 e) (cpu_times s)\<rparr>"
  have "ready K (tasks1 e) ?s1" "distinct (map t_pid (tasks1 e))"
    using assms(1,5) by (simp_all add: distinct_pids_def sane_def)
  from procs_refresh_step [OF this assms(3), of "now2 e" "tasks2 e"] obtain s2 where
    s2: "procs_refresh K (now2 e) (tasks2 e) ?s1 = Inr s2" "refreshed K (tasks1 e) (tasks2 e) s2"
    "cred_refs s2 = cred_refs s" "et s2 = elapsed (now2 e) (now1 e)" "uptime_sav s2 = now2 e"
    using assms(2) by auto
  from sort_entries_refreshed [OF s2(2) assms(4)] obtain ps s3 where
    s3: "sort_entries srt s2 = Inr s3" "ready K (tasks2 e) s3" "uptime_sav s3 = uptime_sav s2"
    and ps: "mset ps = mset (map (entry K (tasks1 e)) (tasks2 e))"
      "sorted_wrt (\<lambda>a b. weight b \<le> weight a) ps"
    and at: "length ps = total s3" "\<And>i. i < length ps \<Longrightarrow> proc_at i s3 = Inr (ps ! i)"
    and c: "counted K (tasks2 e) s3" "et s3 = et s2" "cred_refs s3 = cred_refs s2" by blast
  from c(2) s2(4) have "et s3 = elapsed (now2 e) (now1 e)" by simp
  from show_lines_rows [OF at this assms(5), of K] obtain head where
    "show_lines K (meminfo e) (swaps e) s3 = Inr (head @ map (row e) ps, s3\<lparr>kb_mem_total := kb_total e\<rparr>)"
    "head ! 0 = Tasks_line (total s3) (running s3) (sleeping s3) (stopped s3) (zombie s3) (d_process s3)"
    "head \<noteq> []" "\<forall>x\<in>set head. \<forall>p. x \<noteq> row e p" by blast
  moreover from this have "frame_end K srt e s
      = Inr (head @ map (row e) ps, s3\<lparr>kb_mem_total := kb_total e\<rparr>)"
    using s2(1) s3(1) by (simp add: frame_end_def)
  ultimately show ?thesis
    using ps s3(2,3) c s2(3,5)
    by (intro exI [of _ head] exI [of _ ps] exI [of _ "s3\<lparr>kb_mem_total := kb_total e\<rparr>"])
       (simp add: counted_def)
qed

lemma frame_make_ok:
  assumes "ready K prev s" "distinct_pids prev" "\<And>n. granted K n" "sorts srt" "sane e"
  shows "\<exists>head ps s'. frame_make K srt e s = Inr (head @ map (row e) ps, s')
    \<and> mset ps = mset (map (entry K (tasks1 e)) (tasks2 e))
    \<and> sorted_wrt (\<lambda>a b. weight b \<le> weight a) ps
    \<and> head \<noteq> [] \<and> head ! 0 = Tasks_line (length (tasks2 e)) (in_class K Running (tasks2 e))
        (in_class K Sleeping (tasks2 e)) (in_class K Stopped (tasks2 e))
        (in_class K Zombie (tasks2 e)) (in_class K Uninterruptible (tasks2 e))
    \<and> (\<forall>x\<in>set head. \<forall>p. x \<noteq> row e p)
    \<and> ready K (tasks2 e) s' \<and> cred_refs s' = cred_refs s"
proof -
  from frame_begin_ok [OF assms(1,2,3), of e] obtain s1 where
    s1: "frame_begin K e s = Inr s1" "ready K (tasks1 e) s1" "uptime_sav s1 = now1 e"
    "cred_refs s1 = cred_refs s" by blast
  from frame_end_ok [OF s1(2,3) assms(3,4,5)] s1(1,4) show ?thesis
    unfolding frame_make_halves by (simp only: bnd.simps) blast
qed

text \<open>A history of frames since the module was loaded.\<close>

definition frames :: "kernel \<Rightarrow> sort_fn \<Rightarrow> inputs list \<Rightarrow> ste \<Rightarrow> ste outcome" where
  "frames K srt es s =
     foldM (\<lambda>e s. bnd (frame_make K srt e s) (\<lambda>(out, s). Inr s)) es s"

lemma frames_ok:
  assumes "ready K prev s" "distinct_pids prev" "\<And>n. granted K n" "sorts srt" "list_all sane es"
  shows "\<exists>s'. frames K srt es s = Inr s' \<and> cred_refs s' = cred_refs s
    \<and> ready K (if es = [] then prev else tasks2 (last es)) s'"
  using assms
proof (induction es arbitrary: s prev)
  case (Cons e es)
  from Cons.prems(5) have e: "sane e" "list_all sane es" by simp_all
  from frame_make_ok [OF Cons.prems(1,2,3,4) e(1)] obtain out s1 where
    s1: "frame_make K srt e s = Inr (out, s1)" "ready K (tasks2 e) s1" "cred_refs s1 = cred_refs s"
    by blast
  have "distinct_pids (tasks2 e)" using e(1) by (simp add: sane_def)
  from Cons.IH [OF s1(2) this Cons.prems(3,4) e(2)] obtain s' where
    "frames K srt es s1 = Inr s'" "cred_refs s' = cred_refs s1"
    "ready K (if es = [] then tasks2 e else tasks2 (last es)) s'" by blast
  with s1 show ?case
    by (intro exI [of _ s']) (simp add: frames_def split: if_splits)
qed (simp add: frames_def)

lemma check_entries:
  "\<forall>i\<in>set js. \<exists>x. buf_get (process_info s) i = Inr x \<Longrightarrow> foldM check_entry js s = Inr s"
  by (induction js) (auto simp: check_entry_def)

lemma proc_stats_exit_ready:
  assumes "ready K prev s"
  shows "\<exists>s'. proc_stats_exit s = Inr s' \<and> card (live (hst_mem s')) = length prev
    \<and> live (hst_mem s') = set (hash_nodes (hash_table_new s'))"
proof -
  let ?old = "hash_nodes (hash_table_old s)" and ?new = "hash_nodes (hash_table_new s)"
  from assms obtain old where t: "tables K old prev s" and sl: "slots K [] [] s"
    by (auto simp: ready_def)
  from t have i: "kmem_ok (hst_mem s)" "live (hst_mem s) = set ?old \<union> set ?new"
    "distinct ?old" "distinct ?new" "set ?old \<inter> set ?new = {}"
    "records (hst_mem s) (hash_table_new s) prev"
    by (auto simp: tables_def ste_inv_def)
  from km.free_list [OF i(1) i(3)] i(2) obtain m where
    m: "foldM kfree ?old (hst_mem s) = Inr m" "live m = live (hst_mem s) - set ?old" by auto
  define s1 where "s1 = s\<lparr>hash_table_old := fold hash_del ?old (hash_table_old s), hst_mem := m\<rparr>"
  have f: "foldM free_hst ?old s = Inr s1"
    by (simp add: free_loop_split m(1) s1_def)
  have lv: "live m = set ?new" using m(2) i(2,5) by auto
  have "\<forall>i\<in>set [0..<n_alloc s1]. \<exists>x. buf_get (process_info s1) i = Inr x"
    using sl by (auto simp: slots_def s1_def)
  then have c: "foldM check_entry [0..<n_alloc s1] s1 = Inr s1" by (rule check_entries)
  have nf: "process_info s1 \<noteq> Freed" using sl by (auto simp: slots_def s1_def)
  have "proc_stats_exit s = Inr (s1\<lparr>process_info := (if process_info s1 = NullP then NullP else Freed)\<rparr>)"
    using f c nf by (simp add: proc_stats_exit_def)
  moreover have "card (live m) = length prev"
    using distinct_card [OF i(4)] records_length [OF i(6)] by (simp add: lv)
  ultimately show ?thesis using lv by (simp add: s1_def)
qed

lemma my_write_refused:
  "\<not> granted K (brk (hst_mem s)) \<or> \<not> copied \<Longrightarrow>
     \<exists>err s'. my_write K srt len copied e s = Inr (err, [], s') \<and> err < 0
       \<and> live (hst_mem s') = live (hst_mem s)"
  by (auto simp: my_write_def krequest_def live_def Let_def)

section \<open>An instance of the kernel's sort\<close>

fun insert_by :: "(proc_info \<Rightarrow> proc_info \<Rightarrow> int) \<Rightarrow> proc_info \<Rightarrow> proc_info list \<Rightarrow> proc_info list" where
  "insert_by cmp x [] = [x]"
| "insert_by cmp x (y # ys) = (if cmp x y \<le> 0 then x # y # ys else y # insert_by cmp x ys)"

definition insertion_sort :: sort_fn where
  "insertion_sort cmp xs = foldr (insert_by cmp) xs []"

lemma mset_insert_by [simp]: "mset (insert_by cmp x ys) = add_mset x (mset ys)"
  by (induction ys) auto

lemma set_insert_by [simp]: "set (insert_by cmp x ys) = insert x (set ys)"
  by (metis mset_insert_by set_mset_add_mset_insert set_mset_mset)

lemma sorted_insert_by:
  "sorted_wrt (\<lambda>a b. compare_proc_info a b \<le> 0) ys \<Longrightarrow>
     sorted_wrt (\<lambda>a b. compare_proc_info a b \<le> 0) (insert_by compare_proc_info x ys)"
  by (induction ys) (auto simp: compare_le)

lemma insertion_sort_sorts: "sorts insertion_sort"
  unfolding sorts_def
proof (intro conjI allI)
  fix cmp xs show "mset (insertion_sort cmp xs) = mset xs"
    by (induction xs) (simp_all add: insertion_sort_def)
next
  fix xs show "sorted_wrt (\<lambda>a b. compare_proc_info a b \<le> 0) (insertion_sort compare_proc_info xs)"
    by (induction xs) (simp_all add: insertion_sort_def sorted_insert_by)
qed

definition example_inputs :: "task list \<Rightarrow> task list \<Rightarrow> inputs" where
  "example_inputs ts1 ts2 =
     \<lparr>cpus1 = [], now1 = (1, 0), tasks1 = ts1, cpus2 = [], now2 = (1, 100000000), tasks2 = ts2,
      meminfo = \<lparr>totalram = 4096, freeram = 1024, bufferram = 0, totalswap = 0, freeswap = 0,
                 mem_unit = 4096, nr_file_pages = 0, total_swapcache_pages = 0,
                 nr_slab_reclaimable = 0\<rparr>,
      swaps = []\<rparr>"

lemma example_inputs_sane: "distinct_pids ts1 \<Longrightarrow> distinct_pids ts2 \<Longrightarrow> sane (example_inputs ts1 ts2)"
  by (simp add: sane_def example_inputs_def kb_total_def elapsed_def NSEC_PER_SEC_def)

section \<open>Properties\<close>

text \<open>
  C2. What a frame prints, after any number of frames: the summary line with the counts of the
  second sample, then exactly one row per process of the second sample, each with the CPU time
  its process spent between the two samples, in descending order of CPU time plus resident
  memory (added in 64 bits). No frame faults.
\<close>

theorem frame_shows_processes:
  assumes "\<And>n. granted K n" "sorts srt" "list_all sane (es @ [e])"
  shows "\<exists>s head ps s'. frames K srt es (proc_stats_init ste_zero) = Inr s
    \<and> frame_make K srt e s = Inr (head @ map (row e) ps, s')
    \<and> mset ps = mset (map (entry K (tasks1 e)) (tasks2 e))
    \<and> sorted_wrt (\<lambda>a b. weight b \<le> weight a) ps
    \<and> head ! 0 = Tasks_line (length (tasks2 e)) (in_class K Running (tasks2 e))
        (in_class K Sleeping (tasks2 e)) (in_class K Stopped (tasks2 e))
        (in_class K Zombie (tasks2 e)) (in_class K Uninterruptible (tasks2 e))
    \<and> (\<forall>x\<in>set head. \<forall>p. x \<noteq> row e p)"
proof -
  have "list_all sane es" "sane e" using assms(3) by simp_all
  moreover from this have "distinct_pids (if es = [] then [] else tasks2 (last es))"
    using last_in_set [of es] by (auto simp: list_all_iff sane_def distinct_pids_def)
  moreover obtain s where "frames K srt es (proc_stats_init ste_zero) = Inr s"
    "ready K (if es = [] then [] else tasks2 (last es)) s"
    using frames_ok [OF ready_init _ assms(1,2), of es] \<open>list_all sane es\<close>
    by (auto simp: distinct_pids_def)
  ultimately show ?thesis using frame_make_ok [OF _ _ assms(1,2), of _ s e] by blast
qed

theorem frame_shows_processes_witness:
  "\<exists>s head p s'. frames (kernel_x86 (\<lambda>_. True)) insertion_sort
       [example_inputs [] [example_task 3 0 1]] (proc_stats_init ste_zero) = Inr s
     \<and> frame_make (kernel_x86 (\<lambda>_. True)) insertion_sort
       (example_inputs [example_task 7 0 10] [example_task 7 0 25]) s
       = Inr (head @ [row (example_inputs [example_task 7 0 10] [example_task 7 0 25]) p], s')
     \<and> pid p = 7 \<and> per_cpu_time p = 15"
proof -
  let ?K = "kernel_x86 (\<lambda>_. True)"
  let ?e = "example_inputs [example_task 7 0 10] [example_task 7 0 25]"
  have "list_all sane ([example_inputs [] [example_task 3 0 1]] @ [?e])"
    by (simp add: example_inputs_sane distinct_pids_def)
  from frame_shows_processes [OF _ insertion_sort_sorts this, of ?K]
  have "\<exists>s head ps s'. frames ?K insertion_sort [example_inputs [] [example_task 3 0 1]]
        (proc_stats_init ste_zero) = Inr s
    \<and> frame_make ?K insertion_sort ?e s = Inr (head @ map (row ?e) ps, s')
    \<and> mset ps = mset (map (entry ?K (tasks1 ?e)) (tasks2 ?e))"
    unfolding kernel_x86_def by simp blast
  then obtain s head ps s' where
    s: "frames ?K insertion_sort [example_inputs [] [example_task 3 0 1]] (proc_stats_init ste_zero) = Inr s"
      "frame_make ?K insertion_sort ?e s = Inr (head @ map (row ?e) ps, s')"
      "mset ps = mset (map (entry ?K (tasks1 ?e)) (tasks2 ?e))"
    by blast
  from s(3) have "ps = [entry ?K [example_task 7 0 10] (example_task 7 0 25)]"
    by (simp add: example_inputs_def)
  with s(1,2) show ?thesis
    by (auto simp: entry_def spent_def same_task_def example_task_def task_time_def)
qed

text \<open>
  C16. The CPU column of a row is exact: as long as a thousand times the CPU time fits 64 bits,
  the two printed numbers are the per mille share of the time between the samples, rounded
  down, but at most 100 percent for each thread of the process; the digit after the point is a
  digit.
\<close>

theorem row_cpu_percent:
  assumes "0 < e" "e < 2 ^ 63" "1000 * unat (per_cpu_time p) < 2 ^ 64"
    and "0 \<le> num_threads p" "num_threads p < 2 ^ 24"
  shows "case cpu_cells e p of (a, b) \<Rightarrow>
    10 * unat a + unat b
      = min (1000 * unat (per_cpu_time p) div nat e) (1000 * nat (num_threads p))
    \<and> unat b < 10"
proof -
  let ?t = "unat (per_cpu_time p)" and ?n = "nat (num_threads p)"
  have e: "unat (word_of_int e :: u64) = nat e"
    using assms(1,2) by (simp add: unat_eq_nat_uint uint_word_of_int)
  have "unat (per_cpu_time p * 1000) = ?t * 1000"
    using assms(3) unat_mult_small [of 1000 "per_cpu_time p"] by (simp add: mult.commute)
  then have pm: "unat (per_cpu_time p * 1000 div word_of_int e) = 1000 * ?t div nat e"
    by (simp add: unat_div e mult.commute)
  define w where "w = per_cpu_time p * 1000 div word_of_int e"
  define bd where "bd = (word_of_int (100 * num_threads p) :: u64)"
  have cells: "cpu_cells e p = (if bd \<le> w div 10 then (bd, 0) else (w div 10, w mod 10))"
    by (simp only: cpu_cells_def Let_def w_def bd_def)
  have b: "unat (word_of_int (100 * num_threads p) :: u64) = 100 * ?n"
  proof -
    have "unat (word_of_int (100 * num_threads p) :: u64) = nat (100 * num_threads p)"
      by (rule unat_of_nonneg) (use assms(4,5) in simp_all)
    then show ?thesis by (simp only: nat_mult_distrib zero_le_numeral nat_numeral)
  qed
  let ?q = "1000 * ?t div nat e"
  have w: "unat w = ?q" and bd: "unat bd = 100 * ?n" using pm b by (simp_all only: w_def bd_def)
  have "bd \<le> w div 10 \<longleftrightarrow> 100 * ?n \<le> ?q div 10"
    by (simp add: word_le_nat_alt w bd unat_div)
  with w bd show ?thesis
    by (cases "bd \<le> w div 10") (auto simp: cells unat_div unat_mod min_def)
qed

theorem row_cpu_percent_witness:
  "case cpu_cells 1000000000 (entry (kernel_x86 (\<lambda>_. True)) [] (example_task 7 0 437999999))
   of (a, b) \<Rightarrow> 10 * unat a + unat b = 438 \<and> unat b < 10"
proof -
  let ?p = "entry (kernel_x86 (\<lambda>_. True)) [] (example_task 7 0 437999999)"
  have "per_cpu_time ?p = 438000000" "num_threads ?p = 1"
    by (simp_all add: entry_def spent_def task_time_def example_task_def)
  with row_cpu_percent [of 1000000000 ?p] show ?thesis by simp
qed

text \<open>
  C17. Unloading after any number of frames does not fault, but it does not release the records
  of the last sample: they stay in \<open>hash_table_new\<close>, one per process, when the module is gone.
\<close>

theorem exit_leaks_last_sample:
  assumes "\<And>n. granted K n" "sorts srt" "list_all sane (es @ [e])"
  shows "\<exists>s s'. frames K srt (es @ [e]) (proc_stats_init ste_zero) = Inr s
    \<and> proc_stats_exit s = Inr s'
    \<and> live (hst_mem s') = set (hash_nodes (hash_table_new s'))
    \<and> card (live (hst_mem s')) = length (tasks2 e)"
proof -
  obtain s where "frames K srt (es @ [e]) (proc_stats_init ste_zero) = Inr s"
    "ready K (tasks2 e) s"
    using frames_ok [OF ready_init _ assms] by (auto simp: distinct_pids_def)
  then show ?thesis using proc_stats_exit_ready by blast
qed

theorem exit_leaks_last_sample_witness:
  "\<exists>s s'. frames (kernel_x86 (\<lambda>_. True)) insertion_sort
       ([] @ [example_inputs [example_task 7 0 10] [example_task 7 0 25, example_task 8 0 1]])
       (proc_stats_init ste_zero) = Inr s
     \<and> proc_stats_exit s = Inr s' \<and> card (live (hst_mem s')) = 2"
proof -
  let ?e = "example_inputs [example_task 7 0 10] [example_task 7 0 25, example_task 8 0 1]"
  have "list_all sane ([] @ [?e])"
    by (simp add: example_inputs_sane distinct_pids_def example_task_def)
  from exit_leaks_last_sample [OF _ insertion_sort_sorts this, of "kernel_x86 (\<lambda>_. True)"]
  show ?thesis by (auto simp: kernel_x86_def example_inputs_def)
qed

end
