(* ===== verification/SteWriters.thy ===== *)
theory SteWriters
  imports SteFrame
begin

text \<open>
  Several writers of \<open>/proc/kernel_top\<close> at once. The file is writable by everybody and the handler
  takes no lock. Between its two samples a frame sleeps, and another writer's handler runs then;
  on another processor it may also run in the middle of a refresh.
\<close>

section \<open>Frames that overlap in their sleep\<close>

text \<open>
  The halves of frames in the order they run; any order of the halves of any writers is such a
  list. A half leaves its sample behind: the time and the tasks.
\<close>

datatype half = Begin inputs | End inputs

fun run_half :: "kernel \<Rightarrow> sort_fn \<Rightarrow> half \<Rightarrow> ste \<Rightarrow> ste outcome" where
  "run_half K srt (Begin e) s = frame_begin K e s"
| "run_half K srt (End e) s = bnd (frame_end K srt e s) (\<lambda>(out, s). Inr s)"

fun sample_of :: "half \<Rightarrow> (int \<times> int) \<times> task list" where
  "sample_of (Begin e) = (now1 e, tasks1 e)"
| "sample_of (End e) = (now2 e, tasks2 e)"

definition last_sample :: "half list \<Rightarrow> (int \<times> int) \<times> task list" where
  "last_sample hs = (if hs = [] then ((0, 0), []) else sample_of (last hs))"

text \<open>The inputs of a frame whose first sample is the one given.\<close>

definition since :: "(int \<times> int) \<times> task list \<Rightarrow> inputs \<Rightarrow> inputs" where
  "since smp e = e\<lparr>now1 := fst smp, tasks1 := snd smp\<rparr>"

fun halves_ok :: "(int \<times> int) \<times> task list \<Rightarrow> half list \<Rightarrow> bool" where
  "halves_ok smp [] \<longleftrightarrow> True"
| "halves_ok smp (Begin e # hs) \<longleftrightarrow> distinct_pids (tasks1 e) \<and> halves_ok (now1 e, tasks1 e) hs"
| "halves_ok smp (End e # hs) \<longleftrightarrow> sane (since smp e) \<and> halves_ok (now2 e, tasks2 e) hs"

lemma since_sel [simp]:
  "now1 (since smp e) = fst smp" "tasks1 (since smp e) = snd smp" "now2 (since smp e) = now2 e"
  "tasks2 (since smp e) = tasks2 e" "cpus2 (since smp e) = cpus2 e" "meminfo (since smp e) = meminfo e"
  "swaps (since smp e) = swaps e"
  by (simp_all add: since_def)

lemma frame_end_since [simp]: "frame_end K srt (since smp e) = frame_end K srt e"
  by (simp add: frame_end_def fun_eq_iff)

lemma halves_run:
  assumes "ready K (snd smp) s" "uptime_sav s = fst smp" "distinct_pids (snd smp)" "halves_ok smp hs"
    and g: "\<And>n. granted K n" "sorts srt"
  shows "\<exists>s'. foldM (run_half K srt) hs s = Inr s' \<and>
     ready K (snd (if hs = [] then smp else sample_of (last hs))) s' \<and>
     uptime_sav s' = fst (if hs = [] then smp else sample_of (last hs))"
  using assms(1-4)
proof (induction hs arbitrary: s smp)
  case (Cons h hs)
  have "\<exists>s1. run_half K srt h s = Inr s1 \<and> ready K (snd (sample_of h)) s1 \<and>
      uptime_sav s1 = fst (sample_of h) \<and> distinct_pids (snd (sample_of h)) \<and> halves_ok (sample_of h) hs"
  proof (cases h)
    case (Begin e)
    with frame_begin_ok [OF Cons.prems(1,3) g(1), of e] Cons.prems(4) show ?thesis by auto
  next
    case (End e)
    with frame_end_ok [of K "since smp e" s, OF _ _ g] Cons.prems show ?thesis
      by (auto simp: sane_def)
  qed
  then obtain s1 where s1: "run_half K srt h s = Inr s1" "ready K (snd (sample_of h)) s1"
    "uptime_sav s1 = fst (sample_of h)" "distinct_pids (snd (sample_of h))" "halves_ok (sample_of h) hs"
    by blast
  from Cons.IH [OF s1(2-5)] s1(1) show ?case by auto
qed simp

lemma halves_ok_append:
  "halves_ok smp (hs @ hs') \<longleftrightarrow>
     halves_ok smp hs \<and> halves_ok (if hs = [] then smp else sample_of (last hs)) hs'"
proof (induction hs arbitrary: smp)
  case (Cons h hs)
  then show ?case by (cases h) auto
qed simp

section \<open>A refresh in the middle of a refresh\<close>

text \<open>What \<open>procs_hlp (NULL)\<close> does before its two loops.\<close>

definition hlp_reset :: "int \<times> int \<Rightarrow> ste \<Rightarrow> ste" where
  "hlp_reset up s =
     s\<lparr>et := elapsed up (uptime_sav s), uptime_sav := up, total := 0, running := 0, sleeping := 0,
       stopped := 0, zombie := 0, d_process := 0\<rparr>"

lemma procs_hlp_null_loops:
  "procs_hlp_null K up s =
     bnd (foldM free_hst (hash_nodes (hash_table_old s)) (hlp_reset up s))
         (\<lambda>s. foldM (move_hst K) (hash_nodes (hash_table_new s)) s)"
  by (simp add: procs_hlp_null_def hlp_reset_def)

lemma free_some:
  assumes "ste_inv K s" "hash_nodes (hash_table_old s) = freed @ rest"
  shows "\<exists>s1. foldM free_hst freed s = Inr s1 \<and> ste_inv K s1 \<and> hash_nodes (hash_table_old s1) = rest \<and>
     hash_table_new s1 = hash_table_new s"
proof -
  let ?new = "hash_nodes (hash_table_new s)"
  from assms have i: "kmem_ok (hst_mem s)" "live (hst_mem s) = set freed \<union> set rest \<union> set ?new"
    "distinct (freed @ rest @ ?new)" "table_ok K (hst_mem s) (hash_table_old s)"
    "table_ok K (hst_mem s) (hash_table_new s)"
    by (auto simp: ste_inv_def)
  from km.free_list [OF i(1), of freed] i(2,3) obtain m where
    m: "foldM kfree freed (hst_mem s) = Inr m" "live m = live (hst_mem s) - set freed" "kmem_ok m" by auto
  let ?old = "fold hash_del freed (hash_table_old s)"
  let ?s1 = "s\<lparr>hash_table_old := ?old, hst_mem := m\<rparr>"
  have r: "foldM free_hst freed s = Inr ?s1" by (simp add: free_loop_split m(1))
  have nodes: "hash_nodes ?old = rest"
    using i(3) by (auto simp: nodes_fold_del assms(2) filter_empty_conv intro: filter_True)
  have c: "cells m n = cells (hst_mem s) n" if "n \<notin> set freed" for n
    using foldM_kfree_cells [OF m(1)] that by simp
  have "table_ok K m (hash_table_new s)"
    using i(3,5) c by (subst table_ok_cong [of _ m "hst_mem s"]) auto
  moreover have "table_ok K m ?old"
  proof -
    have "table_ok K (hst_mem s) ?old"
      using i(4) unfolding table_ok_def by (rule kh.filed_del_all)
    then show ?thesis
      using i(3) c by (subst table_ok_cong [of _ m "hst_mem s"]) (auto simp: nodes)
  qed
  ultimately have "ste_inv K ?s1" using m i(2,3) nodes by (auto simp: ste_inv_def)
  with r nodes show ?thesis by auto
qed

lemma reset_inv [simp]:
  "ste_inv K (hlp_reset up s) = ste_inv K s" "hash_table_old (hlp_reset up s) = hash_table_old s"
  "hash_table_new (hlp_reset up s) = hash_table_new s"
  by (simp_all add: ste_inv_def hlp_reset_def)

lemma release_twice:
  assumes "ste_inv K s" "hash_nodes (hash_table_old s) = freed @ n # left"
  shows "\<exists>a b. foldM free_hst freed s = Inr a \<and> procs_hlp K up None a = Inr b \<and> free_hst n b = Inl Double_free"
proof -
  from free_some [OF assms] obtain a where a: "foldM free_hst freed s = Inr a" "ste_inv K a"
    "hash_nodes (hash_table_old a) = n # left" by blast
  from procs_hlp_null_ok [OF a(2), of up] obtain b where b: "procs_hlp_null K up a = Inr b" "ste_inv K b"
    "hash_nodes (hash_table_new b) = []"
    "mset (hash_nodes (hash_table_old b)) = mset (hash_nodes (hash_table_new a))" by blast
  have "live (hst_mem b) = set (hash_nodes (hash_table_new a))"
    using b(2,3) mset_eq_setD [OF b(4)] by (simp add: ste_inv_def)
  moreover have "n \<notin> set (hash_nodes (hash_table_new a))" using a(2,3) by (auto simp: ste_inv_def)
  ultimately have "cells (hst_mem b) n = None" by (auto simp: live_def)
  then have "free_hst n b = Inl Double_free" by (simp add: free_hst_def kfree_def)
  with a(1) b(1) show ?thesis by (auto simp: procs_hlp_def)
qed

lemma tasks_twice:
  assumes "ready K prev s" "distinct_pids prev" "distinct_pids seen" "\<And>n. granted K n"
  shows "\<exists>a b c. procs_refresh K up seen s = Inr a \<and> procs_refresh K up' ts a = Inr b
    \<and> foldM (refresh_one K) rest b = Inr c \<and> refreshed K seen (ts @ rest) c"
proof -
  note d = assms(2,3) [unfolded distinct_pids_def]
  from procs_refresh_step [OF assms(1) d(1) assms(4), of up seen] obtain a where
    a: "procs_refresh K up seen s = Inr a" "refreshed K prev seen a" by blast
  from procs_refresh_step [OF refreshed_ready [OF a(2)] d(2) assms(4), of up' ts] obtain b where
    b: "procs_refresh K up' ts a = Inr b" "refreshed K seen ts b" by blast
  from refresh_loop [OF b(2) d(2) assms(4), of rest] a(1) b(1) show ?thesis by blast
qed

section \<open>Properties\<close>



text \<open>
  C40. A writer that runs in the middle of another one's refresh breaks it. When it runs while the
  loop that releases the old records holds a pointer to the next one, \<open>n\<close>, it releases that record
  and those behind it, and the interrupted loop then releases \<open>n\<close> again. When it runs in the loop
  over the tasks, the interrupted loop adds its remaining tasks to a table that is complete: they
  are shown twice, and the time spent is taken from the interrupted refresh, in which the tasks of
  its rest do not occur yet.
\<close>

theorem writers_race:
  assumes "\<And>n. granted K n" "list_all (distinct_pids \<circ> snd) (hist @ [(up1, ts1), (up2, ts2)])"
    and "distinct_pids (seen @ rest)"
  shows "\<exists>s. refreshes K (hist @ [(up1, ts1), (up2, ts2)]) (proc_stats_init ste_zero) = Inr s
    \<and> length (hash_nodes (hash_table_old s)) = length ts1
    \<and> (\<forall>freed n left. hash_nodes (hash_table_old s) = freed @ n # left \<longrightarrow>
         (\<exists>a b. foldM free_hst freed (hlp_reset up s) = Inr a \<and> procs_hlp K up' None a = Inr b
            \<and> free_hst n b = Inl Double_free))
    \<and> (\<exists>a b c. procs_refresh K up seen s = Inr a \<and> procs_refresh K up' ts a = Inr b
         \<and> foldM (refresh_one K) rest b = Inr c \<and> total c = length ts + length rest
         \<and> (\<forall>i<length ts + length rest. \<exists>p. proc_at i c = Inr p \<and> pid p = t_pid ((ts @ rest) ! i)
              \<and> per_cpu_time p = spent seen ((ts @ rest) ! i)))"
proof -
  from refreshes_two [OF assms(1,2)] obtain s where
    s: "refreshes K (hist @ [(up1, ts1), (up2, ts2)]) (proc_stats_init ste_zero) = Inr s"
      "refreshed K ts1 ts2 s" by blast
  then have inv: "ste_inv K s" and len: "length (hash_nodes (hash_table_old s)) = length ts1"
    by (auto simp: refreshed_def tables_def intro: records_length)
  have "distinct_pids ts2" "distinct_pids seen"
    using assms(2,3) by (simp_all add: distinct_pids_def)
  from tasks_twice [OF refreshed_ready [OF s(2)] this assms(1), of up up' ts rest] obtain a b c where
    c: "procs_refresh K up seen s = Inr a" "procs_refresh K up' ts a = Inr b"
      "foldM (refresh_one K) rest b = Inr c" "refreshed K seen (ts @ rest) c" by blast
  have "total c = length ts + length rest" using c(4) by (simp add: refreshed_def counted_def)
  moreover have "\<exists>p. proc_at i c = Inr p \<and> pid p = t_pid ((ts @ rest) ! i)
      \<and> per_cpu_time p = spent seen ((ts @ rest) ! i)" if "i < length ts + length rest" for i
    using refreshed_entries [OF c(4), of i] that by (simp add: entry_def)
  ultimately show ?thesis
    using s(1) len c(1-3) release_twice [of K "hlp_reset up s"] inv
    by (intro exI [of _ s]) auto
qed

theorem writers_race_witness:
  "\<exists>s n left b. refreshes (kernel_x86 (\<lambda>_. True))
        ([] @ [((1, 0), [example_task 7 0 10]), ((2, 0), [example_task 7 0 12])]) (proc_stats_init ste_zero) = Inr s
    \<and> hash_nodes (hash_table_old s) = n # left
    \<and> procs_hlp (kernel_x86 (\<lambda>_. True)) (3, 0) None (hlp_reset (3, 0) s) = Inr b \<and> free_hst n b = Inl Double_free"
proof -
  let ?K = "kernel_x86 (\<lambda>_. True)"
  have "list_all (distinct_pids \<circ> snd) ([] @ [((1, 0), [example_task 7 0 10]), ((2, 0), [example_task 7 0 12])])"
    "distinct_pids ([] @ [])" by (simp_all add: distinct_pids_def)
  from writers_race [OF _ this, of ?K "(3, 0)" "(3, 0)" "[]"] obtain s where
    s: "refreshes ?K ([] @ [((1, 0), [example_task 7 0 10]), ((2, 0), [example_task 7 0 12])])
          (proc_stats_init ste_zero) = Inr s"
      "length (hash_nodes (hash_table_old s)) = 1"
      "\<And>freed n left. hash_nodes (hash_table_old s) = freed @ n # left \<Longrightarrow>
         \<exists>a b. foldM free_hst freed (hlp_reset (3, 0) s) = Inr a \<and> procs_hlp ?K (3, 0) None a = Inr b
            \<and> free_hst n b = Inl Double_free"
    by (auto simp: kernel_x86_def)
  then obtain n left where n: "hash_nodes (hash_table_old s) = n # left"
    by (cases "hash_nodes (hash_table_old s)") auto
  with s(3) [of "[]" n left] s(1) show ?thesis by auto
qed

end
