(* ===== verification/ProcCpuUsage.thy ===== *)
theory ProcCpuUsage
  imports SteProcs "HOL-Library.Sublist"
begin

text \<open>
  The module \<open>process_cpu_usage.c\<close>: it samples the CPU time of every process into a hash table,
  sleeps a second, samples again and prints the difference for every process of the first
  sample. Its \<open>proc_info\<close> holds the fields of \<open>hst\<close> in \<open>ste_top.c\<close>, so the record and the
  facts about tables of it are shared. Allocations may be refused here.
\<close>

section \<open>Data\<close>

datatype pcu_line =
    Delta_line int string u64
  | No_data_line int
  | Unloaded_line

record pcu =
  pcu_mem :: "hst kmem"
  hash_table_a :: htab
  hash_table_b :: htab
  pcu_log :: "pcu_line list"

definition pcu_zero :: pcu where
  "pcu_zero = \<lparr>pcu_mem = kmem_empty, hash_table_a = hash_init, hash_table_b = hash_init, pcu_log = []\<rparr>"

section \<open>Operations\<close>

definition move_b_to_a :: "kernel \<Rightarrow> nat \<Rightarrow> pcu \<Rightarrow> pcu outcome" where
  "move_b_to_a K n s =
     bnd (kread n (pcu_mem s)) (\<lambda>pos_b.
       Inr (s\<lparr>hash_table_b := hash_del n (hash_table_b s),
              hash_table_a := hash_add (hash_fn K) n (hst_pid pos_b) (hash_table_a s)\<rparr>))"

text \<open>The first node of a chain with this pid.\<close>

fun pid_search :: "hst kmem \<Rightarrow> int \<Rightarrow> nat list \<Rightarrow> hst option outcome" where
  "pid_search m p [] = Inr None"
| "pid_search m p (n # ns) =
     bnd (kread n m) (\<lambda>pos_b. if hst_pid pos_b = p then Inr (Some pos_b) else pid_search m p ns)"

definition pcu_line_of :: "hst \<Rightarrow> hst option \<Rightarrow> pcu_line" where
  "pcu_line_of pos_a found =
     (case found of
        Some pos_b \<Rightarrow> Delta_line (hst_pid pos_a) (hst_comm pos_a) (hst_cpu_time pos_b - hst_cpu_time pos_a)
      | None \<Rightarrow> No_data_line (hst_pid pos_a))"

definition process_one :: "kernel \<Rightarrow> nat \<Rightarrow> pcu \<Rightarrow> pcu outcome" where
  "process_one K n s =
     bnd (kread n (pcu_mem s)) (\<lambda>pos_a.
     bnd (pid_search (pcu_mem s) (hst_pid pos_a)
            (hash_possible (hash_fn K) (hst_pid pos_a) (hash_table_b s))) (\<lambda>found.
     bnd (kfree n (pcu_mem s)) (\<lambda>m.
       Inr (s\<lparr>pcu_log := pcu_log s @ [pcu_line_of pos_a found],
              hash_table_a := hash_del n (hash_table_a s), pcu_mem := m\<rparr>))))"

definition process_data :: "kernel \<Rightarrow> pcu \<Rightarrow> pcu outcome" where
  "process_data K s =
     bnd (foldM (process_one K) (hash_nodes (hash_table_a s)) s)
         (\<lambda>s. foldM (move_b_to_a K) (hash_nodes (hash_table_b s)) s)"

definition collect_one :: "kernel \<Rightarrow> task \<Rightarrow> pcu \<Rightarrow> pcu outcome" where
  "collect_one K t s =
     (let info = \<lparr>hst_pid = t_pid t, hst_cpu_time = t_utime t + t_stime t, hst_comm = t_comm t\<rparr>;
          (a, m) = kmalloc (granted K) info (pcu_mem s);
          s = s\<lparr>pcu_mem := m\<rparr>
      in case a of
           None \<Rightarrow> Inr s
         | Some n \<Rightarrow> Inr (s\<lparr>hash_table_b := hash_add (hash_fn K) n (t_pid t) (hash_table_b s)\<rparr>))"

definition collect_cpu_usage :: "kernel \<Rightarrow> task list \<Rightarrow> pcu \<Rightarrow> pcu outcome" where
  "collect_cpu_usage K tasks s =
     bnd (foldM (move_b_to_a K) (hash_nodes (hash_table_b s)) s) (foldM (collect_one K) tasks)"

definition cpu_usage_init :: "kernel \<Rightarrow> task list \<Rightarrow> task list \<Rightarrow> pcu \<Rightarrow> pcu outcome" where
  "cpu_usage_init K tasks1 tasks2 s =
     bnd (collect_cpu_usage K tasks1 (s\<lparr>hash_table_a := hash_init, hash_table_b := hash_init\<rparr>))
         (\<lambda>s. bnd (collect_cpu_usage K tasks2 s) (process_data K))"

definition release_one :: "nat \<Rightarrow> pcu \<Rightarrow> pcu outcome" where
  "release_one n s =
     bnd (kfree n (pcu_mem s))
         (\<lambda>m. Inr (s\<lparr>hash_table_a := hash_del n (hash_table_a s), pcu_mem := m\<rparr>))"

definition cpu_usage_exit :: "pcu \<Rightarrow> pcu outcome" where
  "cpu_usage_exit s =
     bnd (foldM release_one (hash_nodes (hash_table_a s)) s)
         (\<lambda>s. Inr (s\<lparr>pcu_log := pcu_log s @ [Unloaded_line]\<rparr>))"

section \<open>Invariant\<close>

text \<open>The two tables hold the samples of the tasks \<open>ta\<close> and \<open>tb\<close>, and nothing else is live.\<close>

definition holds :: "kernel \<Rightarrow> task list \<Rightarrow> task list \<Rightarrow> pcu \<Rightarrow> bool" where
  "holds K ta tb s \<longleftrightarrow>
     kmem_ok (pcu_mem s)
     \<and> live (pcu_mem s) = set (hash_nodes (hash_table_a s)) \<union> set (hash_nodes (hash_table_b s))
     \<and> distinct (hash_nodes (hash_table_a s) @ hash_nodes (hash_table_b s))
     \<and> table_ok K (pcu_mem s) (hash_table_a s) \<and> table_ok K (pcu_mem s) (hash_table_b s)
     \<and> records (pcu_mem s) (hash_table_a s) ta \<and> records (pcu_mem s) (hash_table_b s) tb"

text \<open>The same, in the terms of \<open>ste_top.c\<close>.\<close>

definition as_ste :: "pcu \<Rightarrow> ste" where
  "as_ste s = ste_zero\<lparr>hst_mem := pcu_mem s, hash_table_old := hash_table_a s,
                       hash_table_new := hash_table_b s\<rparr>"

lemma holds_tables: "holds K ta tb s \<longleftrightarrow> tables K ta tb (as_ste s)"
  by (auto simp: holds_def tables_def ste_inv_def as_ste_def)

lemma collect_one_holds:
  assumes "holds K ta tb s"
  shows "\<exists>s' tb'. collect_one K t s = Inr s' \<and> holds K ta tb' s' \<and> pcu_log s' = pcu_log s
    \<and> tb' \<in> {tb, tb @ [t]} \<and> ((\<forall>n. granted K n) \<longrightarrow> tb' = tb @ [t])"
proof -
  obtain a m where k: "kmalloc (granted K) (sample t) (pcu_mem s) = (a, m)" by force
  have smp: "\<lparr>hst_pid = t_pid t, hst_cpu_time = t_utime t + t_stime t, hst_comm = t_comm t\<rparr> = sample t"
    by (simp add: sample_def task_time_def)
  show ?thesis
  proof (cases a)
    case None
    then have "cells m = cells (pcu_mem s)" "brk m = Suc (brk (pcu_mem s))" "\<not> (\<forall>n. granted K n)"
      using k by (auto simp: kmalloc_def split: if_splits)
    then have "holds K ta tb (s\<lparr>pcu_mem := m\<rparr>)" "\<not> (\<forall>n. granted K n)"
      using assms by (auto simp: holds_def records_def table_ok_def key_of_def [abs_def] live_def
          kmem_ok_def less_Suc_eq)
    moreover have "collect_one K t s = Inr (s\<lparr>pcu_mem := m\<rparr>)"
      using k None by (simp add: collect_one_def smp)
    ultimately show ?thesis by (intro exI [of _ "s\<lparr>pcu_mem := m\<rparr>"] exI [of _ tb]) simp
  next
    case (Some n)
    let ?s' = "s\<lparr>pcu_mem := m, hash_table_b := hash_add (hash_fn K) n (t_pid t) (hash_table_b s)\<rparr>"
    have "tables K ta (tb @ [t]) (as_ste ?s')"
      using assms k Some by (intro tables_add [of K ta tb "as_ste s" t n m])
        (simp_all add: holds_tables as_ste_def)
    moreover have "collect_one K t s = Inr ?s'" using k Some by (simp add: collect_one_def smp)
    ultimately show ?thesis by (intro exI [of _ ?s'] exI [of _ "tb @ [t]"]) (simp add: holds_tables)
  qed
qed

lemma collect_loop:
  "holds K ta tb s \<Longrightarrow>
     \<exists>s' ss. foldM (collect_one K) ts s = Inr s' \<and> holds K ta (tb @ ss) s' \<and> pcu_log s' = pcu_log s
       \<and> subseq ss ts \<and> ((\<forall>n. granted K n) \<longrightarrow> ss = ts)"
proof (induction ts arbitrary: s tb)
  case (Cons t ts)
  from collect_one_holds [OF Cons.prems, of t] obtain s1 tb1 where
    s1: "collect_one K t s = Inr s1" "holds K ta tb1 s1" "pcu_log s1 = pcu_log s"
    "tb1 = tb \<or> tb1 = tb @ [t]" "(\<forall>n. granted K n) \<longrightarrow> tb1 = tb @ [t]" by blast
  from Cons.IH [OF s1(2)] obtain s2 ss where
    s2: "foldM (collect_one K) ts s1 = Inr s2" "holds K ta (tb1 @ ss) s2" "pcu_log s2 = pcu_log s1"
    "subseq ss ts" "(\<forall>n. granted K n) \<longrightarrow> ss = ts" by blast
  from s1(4) show ?case
  proof
    assume "tb1 = tb"
    with s1 s2 show ?thesis by (intro exI [of _ s2] exI [of _ ss]) auto
  next
    assume "tb1 = tb @ [t]"
    with s1 s2 show ?thesis by (intro exI [of _ s2] exI [of _ "t # ss"]) simp
  qed
qed (auto intro: exI [of _ "[]"])

lemma pcu_move_split:
  "set ns \<subseteq> live (pcu_mem s) \<Longrightarrow>
     foldM (move_b_to_a K) ns s =
     (let (b', a') = fold (move_one (hash_add (hash_fn K)) hash_del (key_of (pcu_mem s))) ns
                       (hash_table_b s, hash_table_a s)
      in Inr (s\<lparr>hash_table_b := b', hash_table_a := a'\<rparr>))"
proof (induction ns arbitrary: s)
  case (Cons n ns)
  then obtain h where h: "kread n (pcu_mem s) = Inr h" "cells (pcu_mem s) n = Some h"
    using kread_live [of n "pcu_mem s"] by auto
  with Cons show ?case by (simp add: move_b_to_a_def move_one_def key_of_def)
qed simp

lemma move_loop_holds:
  assumes "holds K ta tb s"
  shows "\<exists>s'. foldM (move_b_to_a K) (hash_nodes (hash_table_b s)) s = Inr s'
    \<and> holds K (tb @ ta) [] s' \<and> pcu_log s' = pcu_log s"
proof -
  let ?a = "hash_nodes (hash_table_a s)" and ?b = "hash_nodes (hash_table_b s)" and ?m = "pcu_mem s"
  obtain b' a' where mv:
    "fold (move_one (hash_add (hash_fn K)) hash_del (key_of ?m)) ?b (hash_table_b s, hash_table_a s)
     = (b', a')" by force
  have "filed hash_nodes (hash_possible (hash_fn K)) (key_of ?m) (hash_table_a s)"
    using assms by (simp add: holds_def table_ok_def)
  note m = kh.move_all [OF mv this]
  have ms: "mset (hash_nodes a') = mset (?b @ ?a)" using m(2) by simp
  have d: "distinct (hash_nodes a')" and st: "set (hash_nodes a') = set ?a \<union> set ?b"
    using assms mset_eq_imp_distinct_iff [OF ms] mset_eq_setD [OF ms] by (auto simp: holds_def)
  have "image_mset (cells ?m) (mset (hash_nodes a')) = mset (map (Some \<circ> sample) (tb @ ta))"
    unfolding ms using assms by (simp add: holds_def records_def)
  then have r: "records ?m a' (tb @ ta)" "records ?m b' []"
    using m(1) by (simp_all add: records_def)
  let ?s' = "s\<lparr>hash_table_b := b', hash_table_a := a'\<rparr>"
  have "foldM (move_b_to_a K) ?b s = Inr ?s'"
    using pcu_move_split [of ?b s K] mv assms by (simp add: holds_def)
  moreover have "holds K (tb @ ta) [] ?s'"
    using assms d st r m(1,3) by (simp add: holds_def table_ok_empty) (simp add: table_ok_def)
  ultimately show ?thesis by (intro exI [of _ ?s']) simp
qed

section \<open>The report\<close>

lemma subseq_distinct_list: "subseq xs ys \<Longrightarrow> distinct ys \<Longrightarrow> distinct xs"
  by (induction rule: list_emb.induct) (auto dest: list_emb_set)

text \<open>The line for a task of the first sample, given the tasks of the second.\<close>

definition delta_line :: "task list \<Rightarrow> task \<Rightarrow> pcu_line" where
  "delta_line tb t =
     (case List.find (\<lambda>u. t_pid u = t_pid t) tb of
        Some u \<Rightarrow> Delta_line (t_pid t) (t_comm t) (task_time u - task_time t)
      | None \<Rightarrow> No_data_line (t_pid t))"

lemma pid_search_find:
  "set ns \<subseteq> live m \<Longrightarrow>
     pid_search m p ns =
     Inr (map_option (\<lambda>n. the (cells m n))
            (List.find (\<lambda>n. \<exists>h. cells m n = Some h \<and> hst_pid h = p \<and> True) ns))"
proof (induction ns)
  case (Cons n ns)
  then obtain h where "kread n m = Inr h" "cells m n = Some h" using kread_live [of n m] by auto
  with Cons show ?case by auto
qed simp

lemma process_one_step:
  assumes h: "holds K ta tb s" and d: "distinct (map t_pid tb)"
    and n: "hash_nodes (hash_table_a s) = n # ns"
  shows "\<exists>s' u. process_one K n s = Inr s' \<and> u \<in> set ta \<and> holds K (remove1 u ta) tb s'
    \<and> pcu_log s' = pcu_log s @ [delta_line tb u] \<and> hash_nodes (hash_table_a s') = ns"
proof -
  let ?m = "pcu_mem s" and ?b = "hash_nodes (hash_table_b s)"
  from h n have i: "kmem_ok ?m" "live ?m = insert n (set ns \<union> set ?b)" "n \<notin> set ns" "n \<notin> set ?b"
    "distinct ns" "distinct ?b" "set ns \<inter> set ?b = {}"
    "table_ok K ?m (hash_table_a s)" "table_ok K ?m (hash_table_b s)"
    "records ?m (hash_table_a s) ta" "records ?m (hash_table_b s) tb"
    by (auto simp: holds_def)
  from i(2) kread_live [of n ?m] obtain x where x: "kread n ?m = Inr x" "cells ?m n = Some x" by auto
  from i(10) n x(2) have "Some x \<in># mset (map (Some \<circ> sample) ta)"
    unfolding records_def by (metis list.set_intros(1) list.simps(9) set_mset_mset)
  then obtain u where u: "u \<in> set ta" "x = sample u" by auto
  let ?ns = "hash_possible (hash_fn K) (t_pid u) (hash_table_b s)"
  have "set ?ns \<subseteq> live ?m" using kh.possible_nodes [of _ "t_pid u" "hash_table_b s"] i(2) by blast
  from pid_search_find [OF this, of "t_pid u"]
    chain_find [OF i(9,11) d, of "t_pid u" "\<lambda>_. True"]
  have found: "pid_search ?m (t_pid u) ?ns = Inr (map_option sample (List.find (\<lambda>v. t_pid v = t_pid u) tb))"
    by simp
  have line: "pcu_line_of x (map_option sample (List.find (\<lambda>v. t_pid v = t_pid u) tb)) = delta_line tb u"
    by (simp add: pcu_line_of_def delta_line_def u(2) split: option.split)
  from km.free_alive [OF i(1), of n] i(2) obtain m' where
    m': "kfree n ?m = Inr m'" "live m' = live ?m - {n}" "kmem_ok m'" by auto
  have c: "cells m' k = cells ?m k" if "k \<noteq> n" for k
    using m'(1) that by (auto simp: kfree_def split: option.splits)
  let ?s' = "s\<lparr>pcu_log := pcu_log s @ [delta_line tb u],
              hash_table_a := hash_del n (hash_table_a s), pcu_mem := m'\<rparr>"
  have r: "process_one K n s = Inr ?s'"
    using x(1) found m'(1) line by (simp add: process_one_def u(2))
  have ns: "hash_nodes (hash_del n (hash_table_a s)) = ns"
    using n i(3) by (simp add: hash_nodes_del)
  have cb: "cells m' k = cells ?m k" if "k \<in> set ?b" for k using that i(4) by (intro c) auto
  have ca: "cells m' k = cells ?m k" if "k \<in> set ns" for k using that i(3) by (intro c) auto
  have tb: "table_ok K m' (hash_table_b s)" "records m' (hash_table_b s) tb"
    using i(9) cb by (simp add: table_ok_cong [of _ m' ?m]) (rule records_cong [OF i(11)], simp add: cb)
  have "table_ok K ?m (hash_del n (hash_table_a s))"
    using i(8) unfolding table_ok_def by (rule kh.filed_del)
  then have ta: "table_ok K m' (hash_del n (hash_table_a s))"
    using table_ok_cong [of "hash_del n (hash_table_a s)" m' ?m K] ca ns by simp
  have "add_mset (Some x) (mset (map (cells ?m) ns)) = add_mset (Some x) (mset (map (Some \<circ> sample) (remove1 u ta)))"
  proof -
    have "mset ta = add_mset u (mset (remove1 u ta))" using u(1) by simp
    then have "mset (map (Some \<circ> sample) ta) = add_mset (Some x) (mset (map (Some \<circ> sample) (remove1 u ta)))"
      using u(2) by (metis comp_apply image_mset_add_mset mset_map)
    with i(10) n x(2) show ?thesis by (simp add: records_def)
  qed
  moreover have "map (cells m') ns = map (cells ?m) ns" using ca by simp
  ultimately have ra: "records m' (hash_del n (hash_table_a s)) (remove1 u ta)"
    unfolding records_def ns by (metis add_mset_add_mset_same_iff)
  have lv: "live m' = set ns \<union> set ?b" using m'(2) i(2,3,4) by auto
  have "holds K (remove1 u ta) tb ?s'"
    using m'(3) lv i(5,6,7) tb ta ra by (simp add: holds_def ns)
  then show ?thesis using r u(1) ns by (intro exI [of _ ?s'] exI [of _ u]) simp
qed

lemma process_loop:
  "holds K ta tb s \<Longrightarrow> distinct (map t_pid tb) \<Longrightarrow> hash_nodes (hash_table_a s) = ns \<Longrightarrow>
     \<exists>s' out. foldM (process_one K) ns s = Inr s' \<and> holds K [] tb s' \<and> pcu_log s' = pcu_log s @ out
       \<and> mset out = mset (map (delta_line tb) ta)"
proof (induction ns arbitrary: s ta)
  case Nil
  then have "ta = []" using records_length [of "pcu_mem s" "hash_table_a s" ta] by (simp add: holds_def)
  with Nil show ?case by (intro exI [of _ s] exI [of _ "[]"]) simp
next
  case (Cons n ns)
  from process_one_step [OF Cons.prems] obtain s1 u where
    s1: "process_one K n s = Inr s1" "u \<in> set ta" "holds K (remove1 u ta) tb s1"
    "pcu_log s1 = pcu_log s @ [delta_line tb u]" "hash_nodes (hash_table_a s1) = ns" by blast
  from Cons.IH [OF s1(3) Cons.prems(2) s1(5)] obtain s' out where
    s': "foldM (process_one K) ns s1 = Inr s'" "holds K [] tb s'" "pcu_log s' = pcu_log s1 @ out"
    "mset out = mset (map (delta_line tb) (remove1 u ta))" by blast
  have "mset (map (delta_line tb) ta) = add_mset (delta_line tb u) (mset out)"
    using s'(4) s1(2) by (simp flip: image_mset_add_mset)
  with s1 s' show ?case
    by (intro exI [of _ s'] exI [of _ "delta_line tb u # out"]) simp
qed

lemma collect_holds:
  assumes "holds K ta tb s"
  shows "\<exists>s' ss. collect_cpu_usage K ts s = Inr s' \<and> holds K (tb @ ta) ss s' \<and> pcu_log s' = pcu_log s
    \<and> subseq ss ts \<and> ((\<forall>n. granted K n) \<longrightarrow> ss = ts)"
proof -
  from move_loop_holds [OF assms] obtain s1 where
    s1: "foldM (move_b_to_a K) (hash_nodes (hash_table_b s)) s = Inr s1" "holds K (tb @ ta) [] s1"
    "pcu_log s1 = pcu_log s" by blast
  from collect_loop [OF s1(2), of ts] s1(1,3) show ?thesis
    by (auto simp: collect_cpu_usage_def)
qed

lemma holds_zero: "holds K [] [] (pcu_zero\<lparr>hash_table_a := hash_init, hash_table_b := hash_init\<rparr>)"
  by (simp add: holds_def pcu_zero_def kmem_empty_def kmem_ok_def live_def table_ok_empty records_def)

lemma release_loop_split:
  "foldM release_one ns s =
     bnd (foldM kfree ns (pcu_mem s))
         (\<lambda>m. Inr (s\<lparr>hash_table_a := fold hash_del ns (hash_table_a s), pcu_mem := m\<rparr>))"
proof (induction ns arbitrary: s)
  case (Cons n ns)
  then show ?case by (cases "kfree n (pcu_mem s)") (auto simp: release_one_def)
qed simp

lemma cpu_usage_exit_holds:
  assumes "holds K ta [] s"
  shows "\<exists>s'. cpu_usage_exit s = Inr s' \<and> live (pcu_mem s') = {} \<and> pcu_log s' = pcu_log s @ [Unloaded_line]"
proof -
  have b: "hash_nodes (hash_table_b s) = []"
    using assms records_length [of "pcu_mem s" "hash_table_b s" "[]"] by (simp add: holds_def)
  with assms have "kmem_ok (pcu_mem s)" "distinct (hash_nodes (hash_table_a s))"
    "live (pcu_mem s) = set (hash_nodes (hash_table_a s))" by (auto simp: holds_def)
  with km.free_list [of "pcu_mem s" "hash_nodes (hash_table_a s)"] obtain m where
    "foldM kfree (hash_nodes (hash_table_a s)) (pcu_mem s) = Inr m" "live m = {}" by auto
  then show ?thesis by (simp add: cpu_usage_exit_def release_loop_split)
qed

section \<open>Properties\<close>

text \<open>
  C9. The module's report, whatever allocations are refused: the recorded tasks \<open>ss1\<close>, \<open>ss2\<close> are
  part of the two process lists (all of them when every allocation is granted), and the log
  has exactly one line for each task of \<open>ss1\<close>: the CPU time it spent until the second sample, or
  that there is no second sample of its pid.
\<close>

theorem cpu_usage_init_report:
  assumes "distinct (map t_pid ts1)" "distinct (map t_pid ts2)"
  shows "\<exists>s ss1 ss2. cpu_usage_init K ts1 ts2 pcu_zero = Inr s
    \<and> subseq ss1 ts1 \<and> subseq ss2 ts2 \<and> ((\<forall>n. granted K n) \<longrightarrow> ss1 = ts1 \<and> ss2 = ts2)
    \<and> mset (pcu_log s) = mset (map (delta_line ss2) ss1)"
proof -
  let ?s = "pcu_zero\<lparr>hash_table_a := hash_init, hash_table_b := hash_init\<rparr>"
  from collect_holds [OF holds_zero, of K ts1] obtain s1 ss1 where
    s1: "collect_cpu_usage K ts1 ?s = Inr s1" "holds K [] ss1 s1" "pcu_log s1 = pcu_log ?s"
    "subseq ss1 ts1" "(\<forall>n. granted K n) \<longrightarrow> ss1 = ts1" by auto
  from collect_holds [OF s1(2), of ts2] obtain s2 ss2 where
    s2: "collect_cpu_usage K ts2 s1 = Inr s2" "holds K ss1 ss2 s2" "pcu_log s2 = pcu_log s1"
    "subseq ss2 ts2" "(\<forall>n. granted K n) \<longrightarrow> ss2 = ts2" by auto
  have "subseq (map t_pid ss2) (map t_pid ts2)" using s2(4) by (rule subseq_map)
  then have "distinct (map t_pid ss2)" using assms(2) by (rule subseq_distinct_list)
  from process_loop [OF s2(2) this refl] obtain s3 out where
    s3: "foldM (process_one K) (hash_nodes (hash_table_a s2)) s2 = Inr s3" "holds K [] ss2 s3"
    "pcu_log s3 = pcu_log s2 @ out" "mset out = mset (map (delta_line ss2) ss1)" by blast
  from move_loop_holds [OF s3(2)] obtain s4 where
    "foldM (move_b_to_a K) (hash_nodes (hash_table_b s3)) s3 = Inr s4" "pcu_log s4 = pcu_log s3"
    by blast
  with s1 s2 s3 show ?thesis
    by (intro exI [of _ s4] exI [of _ ss1] exI [of _ ss2])
       (simp add: cpu_usage_init_def process_data_def pcu_zero_def)
qed

theorem cpu_usage_init_report_witness:
  "\<exists>s. cpu_usage_init (kernel_x86 (\<lambda>_. True)) [example_task 7 0 10, example_task 8 0 2]
        [example_task 7 0 25] pcu_zero = Inr s
     \<and> mset (pcu_log s) = {# Delta_line 7 ''sh'' 15, No_data_line 8 #}"
  using cpu_usage_init_report [of "[example_task 7 0 10, example_task 8 0 2]" "[example_task 7 0 25]"
      "kernel_x86 (\<lambda>_. True)"]
  by (auto simp: example_task_def delta_line_def task_time_def kernel_x86_def)

text \<open>
  C18. Loading and unloading this module never faults and releases every record, whatever
  allocations are refused and whatever processes there are.
\<close>

theorem cpu_usage_load_unload_clean:
  assumes "distinct (map t_pid ts2)"
  shows "\<exists>s s'. cpu_usage_init K ts1 ts2 pcu_zero = Inr s
    \<and> cpu_usage_exit s = Inr s' \<and> live (pcu_mem s') = {}"
proof -
  let ?s = "pcu_zero\<lparr>hash_table_a := hash_init, hash_table_b := hash_init\<rparr>"
  from collect_holds [OF holds_zero, of K ts1] obtain s1 ss1 where
    s1: "collect_cpu_usage K ts1 ?s = Inr s1" "holds K [] ss1 s1" by auto
  from collect_holds [OF s1(2), of ts2] obtain s2 ss2 where
    s2: "collect_cpu_usage K ts2 s1 = Inr s2" "holds K ss1 ss2 s2" "subseq ss2 ts2" by auto
  have "distinct (map t_pid ss2)" using subseq_map [OF s2(3), of t_pid] assms by (rule subseq_distinct_list)
  from process_loop [OF s2(2) this refl] obtain s3 where
    s3: "foldM (process_one K) (hash_nodes (hash_table_a s2)) s2 = Inr s3" "holds K [] ss2 s3" by blast
  from move_loop_holds [OF s3(2)] obtain s4 where
    s4: "foldM (move_b_to_a K) (hash_nodes (hash_table_b s3)) s3 = Inr s4" "holds K ss2 [] s4"
    by auto
  from cpu_usage_exit_holds [OF s4(2)] s1(1) s2(1) s3(1) s4(1) show ?thesis
    by (auto simp: cpu_usage_init_def process_data_def)
qed

theorem cpu_usage_load_unload_clean_witness:
  "\<exists>s s'. cpu_usage_init (kernel_x86 (\<lambda>n. n \<noteq> 1)) [example_task 7 0 10, example_task 8 0 2]
        [example_task 7 0 25] pcu_zero = Inr s
     \<and> cpu_usage_exit s = Inr s' \<and> live (pcu_mem s') = {}"
  using cpu_usage_load_unload_clean [of "[example_task 7 0 25]" "kernel_x86 (\<lambda>n. n \<noteq> 1)"
      "[example_task 7 0 10, example_task 8 0 2]"]
  by simp

end
