(* ===== verification/CText.thy ===== *)
theory CText
  imports Prelude "HOL-Library.Char_ord"
begin

text \<open>
  The part of the C library's text functions that the user programs of the repository use:
  strings up to their terminator, \<open>fgets\<close>, decimal numbers as \<open>atoi\<close>, \<open>sscanf\<close> and \<open>printf\<close>
  read and write them. A text is a list of characters without its terminating NUL; a file
  may contain NULs. Integers out of range are those of glibc on a 64-bit machine.
\<close>

section \<open>Strings\<close>

definition NUL :: char where "NUL = CHR 0x00"
definition NL :: char where "NL = CHR 0x0A"

definition c_str :: "string \<Rightarrow> string" where
  "c_str s = takeWhile (\<lambda>c. c \<noteq> NUL) s"

text \<open>\<open>strncpy\<close> into an array of \<open>n\<close> characters whose last one is then cleared.\<close>

definition strncpy0 :: "nat \<Rightarrow> string \<Rightarrow> string" where
  "strncpy0 n s = take (n - 1) s"

text \<open>What \<open>fgets\<close> with a buffer of \<open>n\<close> characters reads, and what is left of the file.\<close>

fun fgets_chars :: "nat \<Rightarrow> string \<Rightarrow> string \<times> string" where
  "fgets_chars 0 s = ([], s)"
| "fgets_chars (Suc k) [] = ([], [])"
| "fgets_chars (Suc k) (c # cs) =
     (if c = NL then ([c], cs)
      else let (l, r) = fgets_chars k cs in (c # l, r))"

definition fgets :: "nat \<Rightarrow> string \<Rightarrow> (string \<times> string) option" where
  "fgets n s = (if s = [] then None else Some (fgets_chars (n - 1) s))"

lemma fgets_chars_length: "fgets_chars k s = (l, r) \<Longrightarrow> length l + length r = length s \<and> length l \<le> k"
  by (induction k s arbitrary: l r rule: fgets_chars.induct) (auto split: if_splits prod.splits)

lemma fgets_progress: "fgets n s = Some (l, r) \<Longrightarrow> 1 < n \<Longrightarrow> length r < length s"
proof -
  assume a: "fgets n s = Some (l, r)" "1 < n"
  then obtain k c cs where s: "s = c # cs" "n - 1 = Suc k" "fgets_chars (Suc k) (c # cs) = (l, r)"
    by (cases s; cases "n - 1") (auto simp: fgets_def split: if_splits)
  then have "l \<noteq> []" by (auto split: if_splits prod.splits)
  with s(1) fgets_chars_length [OF s(3)] show ?thesis by (cases l) auto
qed

text \<open>A line that fits the buffer is read whole.\<close>

lemma fgets_line:
  assumes "NL \<notin> set l" "length l < n - 1"
  shows "fgets n (l @ NL # r) = Some (l @ [NL], r)"
proof -
  have "fgets_chars k (l @ NL # r) = (l @ [NL], r)" if "length l < k" for k
    using assms(1) that
  proof (induction l arbitrary: k)
    case Nil
    then show ?case by (cases k) auto
  next
    case (Cons c l)
    then show ?case by (cases k) auto
  qed
  with assms(2) show ?thesis by (simp add: fgets_def)
qed

text \<open>Splitting at the first and at the last occurrence of a character.\<close>

fun strchr :: "char \<Rightarrow> string \<Rightarrow> nat option" where
  "strchr c [] = None"
| "strchr c (x # xs) = (if x = c then Some 0 else map_option Suc (strchr c xs))"

fun strrchr :: "char \<Rightarrow> string \<Rightarrow> nat option" where
  "strrchr c [] = None"
| "strrchr c (x # xs) =
     (case strrchr c xs of
        Some i \<Rightarrow> Some (Suc i)
      | None \<Rightarrow> if x = c then Some 0 else None)"

lemma strchr_first: "c \<notin> set xs \<Longrightarrow> strchr c (xs @ c # ys) = Some (length xs)"
  by (induction xs) auto

lemma strrchr_none: "c \<notin> set xs \<Longrightarrow> strrchr c xs = None"
  by (induction xs) auto

lemma strrchr_last: "c \<notin> set ys \<Longrightarrow> strrchr c (xs @ c # ys) = Some (length xs)"
  by (induction xs) (auto simp: strrchr_none)

section \<open>Numbers\<close>

definition is_space :: "char \<Rightarrow> bool" where
  "is_space c \<longleftrightarrow> c = CHR '' '' \<or> (9 \<le> (of_char c :: nat) \<and> (of_char c :: nat) \<le> 13)"

definition is_digit :: "char \<Rightarrow> bool" where
  "is_digit c \<longleftrightarrow> 48 \<le> (of_char c :: nat) \<and> (of_char c :: nat) \<le> 57"

definition skip_ws :: "string \<Rightarrow> string" where
  "skip_ws s = dropWhile is_space s"

definition digit_of :: "char \<Rightarrow> nat" where
  "digit_of c = of_char c - 48"

definition digits_val :: "string \<Rightarrow> nat" where
  "digits_val ds = foldl (\<lambda>n c. 10 * n + digit_of c) 0 ds"

text \<open>An optionally signed number: whether it is negative, its absolute value, the rest.\<close>

definition scan_digits :: "bool \<Rightarrow> string \<Rightarrow> (bool \<times> nat \<times> string) option" where
  "scan_digits neg s =
     (let ds = takeWhile is_digit s
      in if ds = [] then None else Some (neg, digits_val ds, dropWhile is_digit s))"

definition scan_num :: "string \<Rightarrow> (bool \<times> nat \<times> string) option" where
  "scan_num s =
     (case skip_ws s of
        [] \<Rightarrow> None
      | c # cs \<Rightarrow>
          if c = CHR ''-'' then scan_digits True cs
          else if c = CHR ''+'' then scan_digits False cs
          else scan_digits False (c # cs))"

definition signed_val :: "bool \<Rightarrow> nat \<Rightarrow> int" where
  "signed_val neg n = (if neg then - int n else int n)"

definition long_val :: "bool \<Rightarrow> nat \<Rightarrow> int" where
  "long_val neg n = max (- (2 ^ 63)) (min (2 ^ 63 - 1) (signed_val neg n))"

definition ulong_val :: "bool \<Rightarrow> nat \<Rightarrow> u64" where
  "ulong_val neg n = (if 2 ^ 64 \<le> n then - 1 else if neg then - of_nat n else of_nat n)"

definition atoi :: "string \<Rightarrow> int" where
  "atoi s =
     (case scan_num s of
        None \<Rightarrow> 0
      | Some (neg, n, r) \<Rightarrow> sint (word_of_int (long_val neg n) :: u32))"

section \<open>sscanf\<close>

datatype directive = Space | Lit char | Get_c | Skip_d | Get_lu | Get_ld | Get_u

datatype scanned = C_val char | U_val u64 | I_val int

text \<open>The values stored before the first directive that fails.\<close>

fun sscanf :: "directive list \<Rightarrow> string \<Rightarrow> scanned list" where
  "sscanf [] s = []"
| "sscanf (Space # ds) s = sscanf ds (skip_ws s)"
| "sscanf (Lit c # ds) s = (case s of [] \<Rightarrow> [] | x # xs \<Rightarrow> if x = c then sscanf ds xs else [])"
| "sscanf (Get_c # ds) s = (case s of [] \<Rightarrow> [] | x # xs \<Rightarrow> C_val x # sscanf ds xs)"
| "sscanf (Skip_d # ds) s = (case scan_num s of None \<Rightarrow> [] | Some (neg, n, r) \<Rightarrow> sscanf ds r)"
| "sscanf (Get_lu # ds) s =
     (case scan_num s of None \<Rightarrow> [] | Some (neg, n, r) \<Rightarrow> U_val (ulong_val neg n) # sscanf ds r)"
| "sscanf (Get_ld # ds) s =
     (case scan_num s of None \<Rightarrow> [] | Some (neg, n, r) \<Rightarrow> I_val (long_val neg n) # sscanf ds r)"
| "sscanf (Get_u # ds) s =
     (case scan_num s of None \<Rightarrow> []
      | Some (neg, n, r) \<Rightarrow> U_val (ucast (ucast (ulong_val neg n) :: u32)) # sscanf ds r)"

section \<open>Printing a number, and reading it back\<close>

definition digit :: "nat \<Rightarrow> char" where
  "digit d = char_of (48 + d)"

fun dec :: "nat \<Rightarrow> string" where
  "dec n = (if n < 10 then [digit n] else dec (n div 10) @ [digit (n mod 10)])"

declare dec.simps [simp del]

definition show_int :: "int \<Rightarrow> string" where
  "show_int i = (if i < 0 then CHR ''-'' # dec (nat (- i)) else dec (nat i))"

lemma of_char_digit: "d < 10 \<Longrightarrow> (of_char (digit d) :: nat) = 48 + d"
  by (simp add: digit_def)

lemma digit_facts:
  "d < 10 \<Longrightarrow> is_digit (digit d)" "d < 10 \<Longrightarrow> digit_of (digit d) = d" "d < 10 \<Longrightarrow> \<not> is_space (digit d)"
proof -
  assume d: "d < 10"
  then show "is_digit (digit d)" "digit_of (digit d) = d"
    by (simp_all add: is_digit_def digit_of_def of_char_digit)
  have "(of_char (digit d) :: nat) \<noteq> of_char CHR '' ''" using d by (simp add: of_char_digit)
  then have "digit d \<noteq> CHR '' ''" by auto
  then show "\<not> is_space (digit d)" using d by (simp add: is_space_def of_char_digit)
qed

lemma dec_digits: "c \<in> set (dec n) \<Longrightarrow> is_digit c"
proof (induction n rule: dec.induct)
  case (1 n)
  show ?case
  proof (cases "n < 10")
    case True
    with 1 show ?thesis by (simp add: dec.simps [of n] digit_facts)
  next
    case False
    with 1 show ?thesis by (auto simp: dec.simps [of n] digit_facts)
  qed
qed

lemma dec_not_Nil [simp]: "dec n \<noteq> []"
  by (simp add: dec.simps [of n])

lemma digits_val_snoc: "digits_val (ds @ [c]) = 10 * digits_val ds + digit_of c"
  by (simp add: digits_val_def)

lemma digits_val_dec: "digits_val (dec n) = n"
proof (induction n rule: dec.induct)
  case (1 n)
  show ?case
  proof (cases "n < 10")
    case True
    then show ?thesis by (simp add: dec.simps [of n] digits_val_def digit_facts)
  next
    case False
    with 1 show ?thesis by (simp add: dec.simps [of n] digits_val_snoc digit_facts)
  qed
qed

lemma scan_digits_dec:
  assumes "r = [] \<or> \<not> is_digit (hd r)"
  shows "scan_digits neg (dec n @ r) = Some (neg, n, r)"
proof -
  have "takeWhile is_digit (dec n @ r) = dec n" "dropWhile is_digit (dec n @ r) = r"
    using assms dec_digits by (cases r; auto simp: takeWhile_append dropWhile_append)+
  then show ?thesis by (simp add: scan_digits_def digits_val_dec)
qed

lemma digit_not_sign: "is_digit c \<Longrightarrow> c \<noteq> CHR ''-'' \<and> c \<noteq> CHR ''+'' \<and> \<not> is_space c"
  by (auto simp: is_digit_def is_space_def)

lemma scan_num_show:
  assumes "r = [] \<or> \<not> is_digit (hd r)"
  shows "scan_num (show_int i @ r) = Some (i < 0, nat \<bar>i\<bar>, r)"
proof (cases "i < 0")
  case True
  then show ?thesis
    using scan_digits_dec [OF assms] by (simp add: scan_num_def show_int_def skip_ws_def is_space_def)
next
  case False
  obtain c cs where d: "dec (nat i) = c # cs" by (cases "dec (nat i)") auto
  then have "is_digit c" using dec_digits [of c "nat i"] by simp
  from digit_not_sign [OF this] False d show ?thesis
    using scan_digits_dec [OF assms, of False "nat i"]
    by (simp add: scan_num_def show_int_def skip_ws_def)
qed

lemma scan_num_skip: "scan_num (CHR '' '' # s) = scan_num s"
  by (simp add: scan_num_def skip_ws_def is_space_def)

lemma signed_val_abs [simp]: "signed_val (i < 0) (nat \<bar>i\<bar>) = i"
  by (simp add: signed_val_def)

lemma long_val_abs: "- (2 ^ 63) \<le> i \<Longrightarrow> i < 2 ^ 63 \<Longrightarrow> long_val (i < 0) (nat \<bar>i\<bar>) = i"
  by (simp add: long_val_def)

lemma atoi_show:
  assumes "- (2 ^ 31) \<le> i" "i < 2 ^ 31"
  shows "atoi (show_int i) = i"
proof -
  have "long_val (i < 0) (nat \<bar>i\<bar>) = i" using assms by (intro long_val_abs) auto
  moreover have "sint (word_of_int i :: u32) = i"
    using assms by (simp add: signed_of_int signed_take_bit_int_eq_self)
  ultimately show ?thesis using scan_num_show [of "[]" i] by (simp add: atoi_def)
qed

end
