(* ===== verification/TopArgs.thy ===== *)
theory TopArgs
  imports CText
begin

text \<open>
  The command line of \<open>top.c\<close>: the option loop of \<open>main\<close> with its exits. \<open>argv\<close> is given without
  the program's name.
\<close>

section \<open>Options\<close>

text \<open>The comparison function that \<open>proc_cmp\<close> points to.\<close>

datatype column = Cpu | Vss | Rss | Thr

record cfg =
  max_procs :: int
  delay :: int
  iterations :: int
  proc_cmp :: column
  threads :: bool

definition default_cfg :: cfg where
  "default_cfg = \<lparr>max_procs = 0, delay = 3, iterations = -1, proc_cmp = Cpu, threads = False\<rparr>"

datatype complaint =
    Expects_argument string
  | Invalid_column string
  | Invalid_argument string
  | Thr_per_thread

datatype start = Run cfg | Help | Fail complaint

fun column_of :: "string \<Rightarrow> column option" where
  "column_of s =
     (if s = ''cpu'' then Some Cpu
      else if s = ''vss'' then Some Vss
      else if s = ''rss'' then Some Rss
      else if s = ''thr'' then Some Thr
      else None)"

fun parse_args :: "string list \<Rightarrow> cfg \<Rightarrow> start" where
  "parse_args [] c = (if threads c \<and> proc_cmp c = Thr then Fail Thr_per_thread else Run c)"
| "parse_args (a # rest) c =
     (if a = ''-m'' then
        (case rest of [] \<Rightarrow> Fail (Expects_argument a)
         | x # r \<Rightarrow> parse_args r (c\<lparr>max_procs := atoi x\<rparr>))
      else if a = ''-n'' then
        (case rest of [] \<Rightarrow> Fail (Expects_argument a)
         | x # r \<Rightarrow> parse_args r (c\<lparr>iterations := atoi x\<rparr>))
      else if a = ''-d'' then
        (case rest of [] \<Rightarrow> Fail (Expects_argument a)
         | x # r \<Rightarrow> parse_args r (c\<lparr>delay := atoi x\<rparr>))
      else if a = ''-s'' then
        (case rest of [] \<Rightarrow> Fail (Expects_argument a)
         | x # r \<Rightarrow>
            (case column_of x of
               None \<Rightarrow> Fail (Invalid_column x)
             | Some col \<Rightarrow> parse_args r (c\<lparr>proc_cmp := col\<rparr>)))
      else if a = ''-t'' then parse_args rest (c\<lparr>threads := True\<rparr>)
      else if a = ''-h'' then Help
      else Fail (Invalid_argument a))"

section \<open>Options as a user means them\<close>

datatype opt = Max int | Count int | Delay int | Sort column | Threads

fun column_name :: "column \<Rightarrow> string" where
  "column_name Cpu = ''cpu''"
| "column_name Vss = ''vss''"
| "column_name Rss = ''rss''"
| "column_name Thr = ''thr''"

fun render :: "opt \<Rightarrow> string list" where
  "render (Max i) = [''-m'', show_int i]"
| "render (Count i) = [''-n'', show_int i]"
| "render (Delay i) = [''-d'', show_int i]"
| "render (Sort col) = [''-s'', column_name col]"
| "render Threads = [''-t'']"

fun set_opt :: "opt \<Rightarrow> cfg \<Rightarrow> cfg" where
  "set_opt (Max i) c = c\<lparr>max_procs := i\<rparr>"
| "set_opt (Count i) c = c\<lparr>iterations := i\<rparr>"
| "set_opt (Delay i) c = c\<lparr>delay := i\<rparr>"
| "set_opt (Sort col) c = c\<lparr>proc_cmp := col\<rparr>"
| "set_opt Threads c = c\<lparr>threads := True\<rparr>"

fun int_arg :: "opt \<Rightarrow> bool" where
  "int_arg (Max i) \<longleftrightarrow> - (2 ^ 31) \<le> i \<and> i < 2 ^ 31"
| "int_arg (Count i) \<longleftrightarrow> - (2 ^ 31) \<le> i \<and> i < 2 ^ 31"
| "int_arg (Delay i) \<longleftrightarrow> - (2 ^ 31) \<le> i \<and> i < 2 ^ 31"
| "int_arg (Sort col) \<longleftrightarrow> True"
| "int_arg Threads \<longleftrightarrow> True"

lemma column_of_name [simp]: "column_of (column_name col) = Some col"
  by (cases col) simp_all

lemma parse_one:
  assumes "int_arg opt"
  shows "parse_args (render opt @ rest) c = parse_args rest (set_opt opt c)"
proof (cases opt)
  case (Sort col)
  then show ?thesis by (simp del: column_of.simps)
qed (use assms in \<open>simp_all add: atoi_show\<close>)

lemma parse_prefix:
  "list_all int_arg opts \<Longrightarrow>
     parse_args (concat (map render opts) @ rest) c = parse_args rest (fold set_opt opts c)"
  by (induction opts arbitrary: c) (simp_all add: parse_one del: parse_args.simps)



end
