(* ===== verification/TopRead.thy ===== *)
theory TopRead
  imports CText
begin

text \<open>
  Reading the files of \<open>/proc\<close> in \<open>top.c\<close>: \<open>read_stat\<close>, \<open>read_cmdline\<close> and \<open>read_status\<close>. A file is
  its text, or none when it cannot be opened. What the code reads before it has written it (a
  stack buffer, a local variable) is a parameter.
\<close>

section \<open>Data\<close>

record cpu_info =
  c_utime :: u64
  c_ntime :: u64
  c_stime :: u64
  c_itime :: u64
  c_iowtime :: u64
  c_irqtime :: u64
  c_sirqtime :: u64

record tproc =
  p_next :: "nat option"
  p_pid :: int
  p_tid :: int
  p_uid :: u32
  p_gid :: u32
  p_name :: string
  p_tname :: string
  p_state :: char
  p_utime :: u64
  p_stime :: u64
  p_delta_utime :: u64
  p_delta_stime :: u64
  p_delta_time :: u64
  p_vss :: int
  p_rss :: int
  p_num_threads :: int
  p_policy :: string

definition MAX_LINE :: nat where "MAX_LINE = 256"
definition PROC_NAME_LEN :: nat where "PROC_NAME_LEN = 64"
definition THREAD_NAME_LEN :: nat where "THREAD_NAME_LEN = 32"

text \<open>The contents of memory that was never written.\<close>

record junk =
  junk_buf :: string
  junk_uid :: u32
  junk_gid :: u32
  junk_proc :: tproc

section \<open>Operations\<close>

definition stat_format :: "directive list" where
  "stat_format =
     [Space, Get_c] @ concat (replicate 10 [Space, Skip_d])
     @ [Space, Get_lu, Space, Get_lu] @ concat (replicate 7 [Space, Skip_d])
     @ [Space, Get_lu, Space, Get_ld]"

text \<open>Storing the values that were converted; the others keep what they were.\<close>

definition store_stat :: "scanned list \<Rightarrow> tproc \<Rightarrow> tproc" where
  "store_stat vs p =
     (let p = (case vs of C_val c # _ \<Rightarrow> p\<lparr>p_state := c\<rparr> | _ \<Rightarrow> p);
          p = (case drop 1 vs of U_val v # _ \<Rightarrow> p\<lparr>p_utime := v\<rparr> | _ \<Rightarrow> p);
          p = (case drop 2 vs of U_val v # _ \<Rightarrow> p\<lparr>p_stime := v\<rparr> | _ \<Rightarrow> p);
          p = (case drop 3 vs of U_val v # _ \<Rightarrow> p\<lparr>p_vss := sint v\<rparr> | _ \<Rightarrow> p)
      in (case drop 4 vs of I_val i # _ \<Rightarrow> p\<lparr>p_rss := i\<rparr> | _ \<Rightarrow> p))"

definition read_stat :: "junk \<Rightarrow> string option \<Rightarrow> tproc \<Rightarrow> int \<times> tproc" where
  "read_stat J file p =
     (case file of
        None \<Rightarrow> (1, p)
      | Some txt \<Rightarrow>
          let buf = c_str (case fgets MAX_LINE txt of None \<Rightarrow> junk_buf J | Some (l, r) \<Rightarrow> l)
          in case (strchr CHR ''('' buf, strrchr CHR '')'' buf) of
               (Some open_paren, Some close_paren) \<Rightarrow>
                 let cut = buf[open_paren := NUL, close_paren := NUL]
                 in (0, store_stat (sscanf stat_format (c_str (drop (close_paren + 1) cut)))
                          (p\<lparr>p_tname := strncpy0 THREAD_NAME_LEN (c_str (drop (open_paren + 1) cut))\<rparr>))
             | _ \<Rightarrow> (1, p))"

definition read_cmdline :: "string option \<Rightarrow> tproc \<Rightarrow> int \<times> tproc" where
  "read_cmdline file p =
     (case file of
        None \<Rightarrow> (1, p)
      | Some txt \<Rightarrow>
          let line = c_str (case fgets MAX_LINE txt of None \<Rightarrow> [] | Some (l, r) \<Rightarrow> l)
          in (0, if length line > 0 then p\<lparr>p_name := strncpy0 PROC_NAME_LEN line\<rparr>
                 else p\<lparr>p_name := []\<rparr>))"

text \<open>The lines a loop of \<open>fgets\<close> reads, and the last number after a keyword.\<close>

function lines_of :: "string \<Rightarrow> string list" where
  "lines_of s = (case fgets MAX_LINE s of None \<Rightarrow> [] | Some (l, r) \<Rightarrow> l # lines_of r)"
  by pat_completeness auto
termination
  by (relation "measure length") (auto simp: MAX_LINE_def dest: fgets_progress)

declare lines_of.simps [simp del]

definition scan_field :: "string \<Rightarrow> string \<Rightarrow> u32 \<Rightarrow> u32" where
  "scan_field key line v =
     (case sscanf (map Lit key @ [Space, Get_u]) (c_str line) of
        U_val u # _ \<Rightarrow> ucast u
      | _ \<Rightarrow> v)"

definition read_status :: "junk \<Rightarrow> string option \<Rightarrow> tproc \<Rightarrow> int \<times> tproc" where
  "read_status J file p =
     (case file of
        None \<Rightarrow> (1, p)
      | Some txt \<Rightarrow>
          let (uid, gid) =
            foldl (\<lambda>(u, g) line. (scan_field ''Uid:'' line u, scan_field ''Gid:'' line g))
              (junk_uid J, junk_gid J) (lines_of txt)
          in (0, p\<lparr>p_uid := uid, p_gid := gid\<rparr>))"

definition cpu_format :: "directive list" where
  "cpu_format = map Lit ''cpu'' @ [Space] @ concat (replicate 7 [Space, Get_lu])"

definition store_cpu :: "scanned list \<Rightarrow> cpu_info \<Rightarrow> cpu_info" where
  "store_cpu vs c =
     (let val = (\<lambda>i v. if i < length vs then (case vs ! i of U_val u \<Rightarrow> u | _ \<Rightarrow> v) else v)
      in \<lparr>c_utime = val 0 (c_utime c), c_ntime = val 1 (c_ntime c), c_stime = val 2 (c_stime c),
          c_itime = val 3 (c_itime c), c_iowtime = val 4 (c_iowtime c),
          c_irqtime = val 5 (c_irqtime c), c_sirqtime = val 6 (c_sirqtime c)\<rparr>)"

section \<open>Scanning what was printed\<close>

text \<open>Fields printed one after the other, each after a space.\<close>

definition put_fields :: "int list \<Rightarrow> string" where
  "put_fields js = concat (map (\<lambda>i. CHR '' '' # show_int i) js)"

definition ends_number :: "string \<Rightarrow> bool" where
  "ends_number r \<longleftrightarrow> r = [] \<or> \<not> is_digit (hd r)"

lemma not_digit_space: "\<not> is_digit CHR '' ''"
  by (simp add: is_digit_def)

lemma ends_number_fields [simp]: "ends_number r \<Longrightarrow> ends_number (put_fields js @ r)"
  by (cases js) (simp_all add: put_fields_def ends_number_def not_digit_space)

lemma skip_ws_show: "skip_ws (CHR '' '' # show_int i @ r) = show_int i @ r"
proof (cases "i < 0")
  case True
  then show ?thesis by (simp add: show_int_def skip_ws_def is_space_def)
next
  case False
  obtain c cs where d: "dec (nat i) = c # cs" by (cases "dec (nat i)") auto
  then have "is_digit c" using dec_digits [of c "nat i"] by simp
  with digit_not_sign [OF this] False d show ?thesis
    by (simp add: show_int_def skip_ws_def) (simp add: is_space_def)
qed

lemma scan_field_num:
  "ends_number r \<Longrightarrow> scan_num (show_int i @ r) = Some (i < 0, nat \<bar>i\<bar>, r)"
  by (rule scan_num_show) (simp add: ends_number_def)

lemma sscanf_skip_fields:
  assumes "ends_number r"
  shows "sscanf (concat (replicate (length js) [Space, Skip_d]) @ ds) (put_fields js @ r) = sscanf ds r"
proof (induction js)
  case (Cons i js)
  have "ends_number (put_fields js @ r)" using assms by simp
  from scan_field_num [OF this, of i] show ?case
    using Cons by (simp add: put_fields_def skip_ws_show)
qed (simp add: put_fields_def)

lemma sscanf_lu:
  assumes "ends_number r" "0 \<le> i" "i < 2 ^ 64"
  shows "sscanf (Space # Get_lu # ds) (put_fields [i] @ r) = U_val (of_int i) # sscanf ds r"
  using scan_field_num [OF assms(1), of i] assms(2,3)
  by (simp add: put_fields_def skip_ws_show ulong_val_def) linarith

lemma sscanf_ld:
  assumes "ends_number r" "- (2 ^ 63) \<le> i" "i < 2 ^ 63"
  shows "sscanf (Space # Get_ld # ds) (put_fields [i] @ r) = I_val i # sscanf ds r"
  using scan_field_num [OF assms(1), of i] long_val_abs [OF assms(2,3)]
  by (simp add: put_fields_def skip_ws_show)

lemma fields_append: "put_fields (xs @ ys) = put_fields xs @ put_fields ys"
  by (simp add: put_fields_def)

lemma show_int_chars: "c \<in> set (show_int i) \<Longrightarrow> c = CHR ''-'' \<or> is_digit c"
  by (auto simp: show_int_def dest: dec_digits split: if_splits)

lemma fields_chars: "c \<in> set (put_fields js) \<Longrightarrow> c = CHR '' '' \<or> c = CHR ''-'' \<or> is_digit c"
  by (auto simp: put_fields_def dest: show_int_chars split: if_splits)

lemma fields_not:
  "CHR ''('' \<notin> set (put_fields js)" "CHR '')'' \<notin> set (put_fields js)" "NL \<notin> set (put_fields js)"
  "NUL \<notin> set (put_fields js)"
  by (auto dest!: fields_chars simp: is_digit_def NL_def NUL_def)

lemma show_not:
  "CHR ''('' \<notin> set (show_int i)" "CHR '')'' \<notin> set (show_int i)" "NL \<notin> set (show_int i)"
  "NUL \<notin> set (show_int i)"
  by (auto dest!: show_int_chars simp: is_digit_def NL_def NUL_def)

text \<open>The scan of the rest of a \<open>stat\<close> line.\<close>

lemma sscanf_stat:
  assumes "length xs = 10" "length ys = 7" "\<not> is_space st"
    and "0 \<le> ut" "ut < 2 ^ 64" "0 \<le> tm" "tm < 2 ^ 64" "0 \<le> vs" "vs < 2 ^ 64"
    and "- (2 ^ 63) \<le> rs" "rs < 2 ^ 63" "ends_number r"
  shows "sscanf stat_format (CHR '' '' # st # put_fields (xs @ [ut, tm] @ ys @ [vs, rs]) @ r)
    = [C_val st, U_val (of_int ut), U_val (of_int tm), U_val (of_int vs), I_val rs]"
proof -
  let ?r1 = "put_fields [rs] @ r"
  let ?r2 = "put_fields [vs] @ ?r1"
  let ?r3 = "put_fields ys @ ?r2"
  let ?r4 = "put_fields [tm] @ ?r3"
  let ?r5 = "put_fields [ut] @ ?r4"
  have e: "ends_number ?r1" "ends_number ?r2" "ends_number ?r3" "ends_number ?r4" "ends_number ?r5"
    using assms(12) by simp_all
  have split: "put_fields (xs @ [ut, tm] @ ys @ [vs, rs]) @ r = put_fields xs @ ?r5"
  proof -
    have "xs @ [ut, tm] @ ys @ [vs, rs] = xs @ [ut] @ [tm] @ ys @ [vs] @ [rs]" by simp
    then show ?thesis by (simp only: fields_append append_assoc)
  qed
  let ?d1 = "[Space, Get_lu, Space, Get_ld]"
  let ?d2 = "concat (replicate 7 [Space, Skip_d]) @ ?d1"
  let ?d3 = "Space # Get_lu # Space # Get_lu # ?d2"
  have "sscanf (concat (replicate 10 [Space, Skip_d]) @ ?d3) (put_fields xs @ ?r5) = sscanf ?d3 ?r5"
    using sscanf_skip_fields [OF e(5), of xs ?d3] by (simp only: assms(1))
  also have "\<dots> = U_val (of_int ut) # U_val (of_int tm) # sscanf ?d2 ?r3"
    by (simp only: sscanf_lu [OF e(4) assms(4,5)] sscanf_lu [OF e(3) assms(6,7)])
  also have "sscanf ?d2 ?r3 = sscanf ?d1 ?r2"
    using sscanf_skip_fields [OF e(2), of ys ?d1] by (simp only: assms(2))
  also have "\<dots> = [U_val (of_int vs), I_val rs]"
    unfolding sscanf_lu [OF e(1) assms(8,9)] sscanf_ld [OF assms(12,10,11)] by simp
  finally have num: "sscanf (concat (replicate 10 [Space, Skip_d]) @ ?d3) (put_fields xs @ ?r5)
    = [U_val (of_int ut), U_val (of_int tm), U_val (of_int vs), I_val rs]" .
  have fmt: "stat_format = Space # Get_c # concat (replicate 10 [Space, Skip_d]) @ ?d3"
    by (simp only: stat_format_def append_Cons append_Nil append_assoc)
  have ws: "skip_ws (CHR '' '' # st # t) = st # t" for t
    using assms(3) by (simp add: skip_ws_def) (simp add: is_space_def)
  show ?thesis unfolding split fmt sscanf.simps(2,4) ws list.case num ..
qed

text \<open>The first line of \<open>/proc/stat\<close>.\<close>

lemma sscanf_lus:
  assumes "ends_number r" "\<forall>x\<in>set xs. 0 \<le> x \<and> x < 2 ^ 64"
  shows "sscanf (concat (replicate (length xs) [Space, Get_lu])) (put_fields xs @ r)
    = map (\<lambda>x. U_val (of_int x)) xs"
  using assms(2)
proof (induction xs)
  case (Cons x xs)
  have "ends_number (put_fields xs @ r)" using assms(1) by simp
  from sscanf_lu [OF this, of x "concat (replicate (length xs) [Space, Get_lu])"] Cons
  have "sscanf (concat (replicate (length (x # xs)) [Space, Get_lu])) (put_fields [x] @ put_fields xs @ r)
      = U_val (of_int x) # map (\<lambda>x. U_val (of_int x)) xs" by simp
  then show ?case using fields_append [of "[x]" xs] by (simp only: append_Cons append_Nil list.map append_assoc)
qed simp

lemma skip_ws_twice: "skip_ws (skip_ws s) = skip_ws s"
  by (simp add: skip_ws_def)

lemma store_cpu_line:
  assumes "length xs = 7" "ends_number r" "\<forall>x\<in>set xs. 0 \<le> x \<and> x < 2 ^ 64"
  shows "store_cpu (sscanf cpu_format (''cpu'' @ put_fields xs @ r)) c
    = \<lparr>c_utime = of_int (xs ! 0), c_ntime = of_int (xs ! 1), c_stime = of_int (xs ! 2),
       c_itime = of_int (xs ! 3), c_iowtime = of_int (xs ! 4), c_irqtime = of_int (xs ! 5),
       c_sirqtime = of_int (xs ! 6)\<rparr>"
proof -
  have f: "concat (replicate 7 [Space, Get_lu]) = Space # Get_lu # concat (replicate 6 [Space, Get_lu])"
    by (simp add: eval_nat_numeral)
  have "sscanf cpu_format (''cpu'' @ put_fields xs @ r)
      = sscanf (concat (replicate 7 [Space, Get_lu])) (put_fields xs @ r)"
    by (simp add: cpu_format_def f skip_ws_twice)
  also have "\<dots> = map (\<lambda>x. U_val (of_int x)) xs"
    using sscanf_lus [OF assms(2,3)] by (simp only: assms(1))
  finally show ?thesis using assms(1) by (simp add: store_cpu_def Let_def)
qed

section \<open>Properties\<close>

text \<open>
  The text of \<open>/proc/PID/stat\<close>: the pid, the name in parentheses, the state, and numbers. \<open>xs\<close> are
  the ten fields between the state and the user time, \<open>ys\<close> the seven between the system time and
  the virtual size, \<open>zs\<close> what follows the resident size.
\<close>

definition stat_line ::
  "int \<Rightarrow> string \<Rightarrow> char \<Rightarrow> int list \<Rightarrow> int \<Rightarrow> int \<Rightarrow> int list \<Rightarrow> int \<Rightarrow> int \<Rightarrow> int list \<Rightarrow> string" where
  "stat_line pid name st xs ut tm ys vs rs zs =
     show_int pid @ '' ('' @ name @ '') '' @ st # put_fields (xs @ [ut, tm] @ ys @ [vs, rs] @ zs)"

lemma c_str_id: "NUL \<notin> set s \<Longrightarrow> c_str s = s"
  by (auto simp: c_str_def takeWhile_eq_all_conv)

lemma drop_after: "drop (length (a @ x # b) + 1) (a @ y # b @ z # r) = r"
proof -
  have "length (a @ x # b) + 1 = length (a @ y # b @ [z])" by simp
  moreover have "a @ y # b @ z # r = (a @ y # b @ [z]) @ r" by simp
  ultimately show ?thesis by (metis append_eq_conv_conj)
qed

lemma c_str_stop: "NUL \<notin> set s \<Longrightarrow> c_str (s @ NUL # t) = s"
  by (auto simp: c_str_def takeWhile_append takeWhile_eq_all_conv)

text \<open>
  C7. \<open>read_stat\<close> reads back what the kernel prints, whatever the name of the process is: a name
  with blanks and parentheses does not shift the fields, because the line is split at the first
  opening and the last closing parenthesis. The name is cut to 31 characters. The line must fit
  the buffer of 256 characters.
\<close>

theorem read_stat_round_trip:
  assumes "NUL \<notin> set name" "NL \<notin> set name"
    and "\<not> is_space st" "st \<notin> {NUL, NL, CHR '')''}"
    and "length xs = 10" "length ys = 7"
    and "0 \<le> ut" "ut < 2 ^ 64" "0 \<le> tm" "tm < 2 ^ 64" "0 \<le> vs" "vs < 2 ^ 64"
    and "- (2 ^ 63) \<le> rs" "rs < 2 ^ 63"
    and "length (stat_line pid name st xs ut tm ys vs rs zs) < 255"
  shows "read_stat J (Some (stat_line pid name st xs ut tm ys vs rs zs @ NL # rest)) p
    = (0, p\<lparr>p_tname := take 31 name, p_state := st, p_utime := of_int ut, p_stime := of_int tm,
            p_vss := sint (of_int vs :: u64), p_rss := rs\<rparr>)"
proof -
  let ?line = "stat_line pid name st xs ut tm ys vs rs zs"
  let ?pre = "show_int pid @ '' ''"
  let ?post = "CHR '' '' # st # put_fields (xs @ [ut, tm] @ ys @ [vs, rs]) @ put_fields zs @ [NL]"
  have line: "?line @ [NL] = ?pre @ CHR ''('' # name @ CHR '')'' # ?post"
  proof -
    have "xs @ [ut, tm] @ ys @ [vs, rs] @ zs = (xs @ [ut, tm] @ ys @ [vs, rs]) @ zs" by simp
    then have "put_fields (xs @ [ut, tm] @ ys @ [vs, rs] @ zs)
        = put_fields (xs @ [ut, tm] @ ys @ [vs, rs]) @ put_fields zs"
      by (simp only: fields_append)
    then show ?thesis by (simp only: stat_line_def append_assoc append_Cons append_Nil)
  qed
  have nul: "NUL \<notin> set (?line @ [NL])" and nl: "NL \<notin> set ?line"
    using assms(1,2,4) show_not [of pid] fields_not by (auto simp: stat_line_def NUL_def NL_def)
  have buf: "c_str (?line @ [NL]) = ?line @ [NL]" using nul by (rule c_str_id)
  have rd: "fgets MAX_LINE (?line @ NL # rest) = Some (?line @ [NL], rest)"
    using nl assms(15) by (intro fgets_line) (simp_all add: MAX_LINE_def)
  have op: "strchr CHR ''('' (?line @ [NL]) = Some (length ?pre)"
    unfolding line using show_not [of pid] by (intro strchr_first) auto
  have "CHR '')'' \<notin> set ?post" using assms(4) fields_not by (auto simp: NL_def)
  from strrchr_last [OF this, of "?pre @ CHR ''('' # name"]
  have cl: "strrchr CHR '')'' (?line @ [NL]) = Some (length (?pre @ CHR ''('' # name))"
    unfolding line by (simp only: append_assoc append_Cons)
  have cut: "(?line @ [NL])[length ?pre := NUL, length (?pre @ CHR ''('' # name) := NUL]
      = ?pre @ NUL # name @ NUL # ?post"
    unfolding line by (simp add: list_update_append)
  have post: "c_str ?post = ?post"
    using assms(4) fields_not by (intro c_str_id) (auto simp: NUL_def NL_def)
  have "ends_number (put_fields zs @ [NL])"
    by (rule ends_number_fields) (simp add: ends_number_def is_digit_def NL_def)
  note sc = sscanf_stat [OF assms(5,6,3,7-14) this]
  have nm: "c_str (drop (length ?pre + 1) (?pre @ NUL # name @ NUL # ?post)) = name"
    using c_str_stop [OF assms(1)] by simp
  have rs: "drop (length (?pre @ CHR ''('' # name) + 1) (?pre @ NUL # name @ NUL # ?post) = ?post"
    by (rule drop_after)
  show ?thesis
    unfolding read_stat_def option.case Let_def rd prod.case buf op cl cut nm rs post sc
    by (simp add: store_stat_def strncpy0_def THREAD_NAME_LEN_def)
qed

theorem read_stat_round_trip_witness:
  "\<exists>line. (\<forall>J p. read_stat J (Some (line @ [NL])) p
    = (0, p\<lparr>p_tname := ''a) (b c'', p_state := CHR ''S'', p_utime := 12, p_stime := 34,
            p_vss := 40, p_rss := 7\<rparr>))
    \<and> strchr CHR ''b'' line = Some 7"
proof -
  let ?l = "stat_line 7 ''a) (b c'' CHR ''S'' [1, 7, 7, 0, -1, 0, 0, 0, 0, 0] 12 34
    [0, 0, 20, 0, 1, 0, 9] 40 7 [5]"
  have l: "length ?l < 255" "strchr CHR ''b'' ?l = Some 7" by code_simp+
  have sp: "\<not> is_space CHR ''S''" by (simp add: is_space_def)
  have "read_stat J (Some (?l @ [NL])) p
    = (0, p\<lparr>p_tname := take 31 ''a) (b c'', p_state := CHR ''S'', p_utime := of_int 12,
            p_stime := of_int 34, p_vss := sint (of_int 40 :: u64), p_rss := 7\<rparr>)" for J p
    by (rule read_stat_round_trip [where name = "''a) (b c''" and st = "CHR ''S''" and rest = "[]"])
       (use l(1) sp in \<open>simp_all add: NUL_def NL_def\<close>)
  moreover have "take 31 ''a) (b c'' = ''a) (b c''" "sint (of_int 40 :: u64) = 40" by simp_all
  ultimately show ?thesis using l(2) by (intro exI [of _ ?l] conjI allI) (simp_all only: of_int_numeral)
qed

end
