(* ===== verification/TopPool.thy ===== *)
theory TopPool
  imports TopRead
begin

text \<open>
  The process records of \<open>top.c\<close>: \<open>alloc_proc\<close> takes one from the free list or from \<open>malloc\<close>,
  \<open>free_proc\<close> puts it on the free list, linked through the record itself. The allocator contract
  of the prelude is proved for this pool; \<open>add_proc\<close> grows the array of a snapshot.
\<close>

section \<open>State\<close>

text \<open>The program ends with a message, or has a fault.\<close>

datatype stop = Die string | Fault fault

type_synonym 'a run = "stop + 'a"

definition lift_fault :: "'a outcome \<Rightarrow> 'a run" where
  "lift_fault m = (case m of Inl f \<Rightarrow> Inl (Fault f) | Inr x \<Rightarrow> Inr x)"

lemma lift_fault_simps [simp]: "lift_fault (Inl f) = Inl (Fault f)" "lift_fault (Inr x) = Inr x"
  by (simp_all add: lift_fault_def)

type_synonym slots = "nat option buf"

record top =
  heap :: "tproc kmem"
  free_procs :: "nat option"
  num_used_procs :: int
  num_free_procs :: int
  old_procs :: slots
  num_old_procs :: nat
  new_procs :: slots
  num_new_procs :: nat
  old_cpu :: cpu_info
  new_cpu :: cpu_info

section \<open>Operations\<close>

definition alloc_proc :: "(nat \<Rightarrow> bool) \<Rightarrow> tproc \<Rightarrow> top \<Rightarrow> (nat \<times> top) run" where
  "alloc_proc ok x s =
     (case free_procs s of
        Some a \<Rightarrow>
          bnd (lift_fault (kread a (heap s))) (\<lambda>p.
            Inr (a, s\<lparr>free_procs := p_next p, num_free_procs := num_free_procs s - 1,
                      num_used_procs := num_used_procs s + 1\<rparr>))
      | None \<Rightarrow>
          let (a, m) = kmalloc ok x (heap s); s = s\<lparr>heap := m\<rparr>
          in case a of
               None \<Rightarrow> Inl (Die ''Could not allocate struct process_info.'')
             | Some a \<Rightarrow> Inr (a, s\<lparr>num_used_procs := num_used_procs s + 1\<rparr>))"

definition free_proc :: "nat \<Rightarrow> top \<Rightarrow> top outcome" where
  "free_proc a s =
     bnd (kread a (heap s)) (\<lambda>p.
     bnd (kwrite a (p\<lparr>p_next := free_procs s\<rparr>) (heap s)) (\<lambda>m.
       Inr (s\<lparr>heap := m, free_procs := Some a, num_used_procs := num_used_procs s - 1,
              num_free_procs := num_free_procs s + 1\<rparr>)))"

text \<open>
  The array is doubled when the index has reached its size. Its elements that are not written
  yet are null.
\<close>

definition add_proc :: "(nat \<Rightarrow> bool) \<Rightarrow> nat \<Rightarrow> nat \<Rightarrow> top \<Rightarrow> top run" where
  "add_proc ok proc_num a s =
     bnd (if num_new_procs s \<le> proc_num
          then let n = num_new_procs s; (g, m) = krequest ok (heap s); s = s\<lparr>heap := m\<rparr>
               in if \<not> g then Inl (Die ''Could not expand procs array.'')
                  else (case new_procs s of
                          Arr xs \<Rightarrow> Inr (s\<lparr>new_procs := Arr (take (2 * n) (xs @ replicate n None)),
                                           num_new_procs := 2 * n\<rparr>)
                        | NullP \<Rightarrow> Inr (s\<lparr>new_procs := Arr (replicate (2 * n) None),
                                          num_new_procs := 2 * n\<rparr>)
                        | Freed \<Rightarrow> Inl (Fault Double_free))
          else Inr s)
         (\<lambda>s. bnd (lift_fault (buf_set (new_procs s) proc_num (Some a)))
                  (\<lambda>arr. Inr (s\<lparr>new_procs := arr\<rparr>)))"

section \<open>The free list\<close>

primrec linked :: "tproc kmem \<Rightarrow> nat option \<Rightarrow> nat list \<Rightarrow> bool" where
  "linked m p [] \<longleftrightarrow> p = None"
| "linked m p (a # as) \<longleftrightarrow> p = Some a \<and> (\<exists>pr. cells m a = Some pr \<and> linked m (p_next pr) as)"

lemma linked_unique: "linked m p as \<Longrightarrow> linked m p bs \<Longrightarrow> as = bs"
proof (induction as arbitrary: p bs)
  case Nil
  then show ?case by (cases bs) auto
next
  case (Cons a as)
  then show ?case by (cases bs) auto
qed

lemma linked_live: "linked m p as \<Longrightarrow> set as \<subseteq> live m"
  by (induction as arbitrary: p) (auto simp: live_def)

lemma linked_cong: "linked m p as \<Longrightarrow> (\<And>a. a \<in> set as \<Longrightarrow> cells m' a = cells m a) \<Longrightarrow> linked m' p as"
  by (induction as arbitrary: p) auto

definition free_set :: "top \<Rightarrow> nat set" where
  "free_set s = {a. \<exists>as. linked (heap s) (free_procs s) as \<and> a \<in> set as}"

definition used :: "top \<Rightarrow> nat set" where
  "used s = live (heap s) - free_set s"

definition pool_ok :: "top \<Rightarrow> bool" where
  "pool_ok s \<longleftrightarrow>
     kmem_ok (heap s)
     \<and> (\<exists>as. linked (heap s) (free_procs s) as \<and> distinct as \<and> num_free_procs s = int (length as))
     \<and> num_used_procs s = int (card (used s))"

lemma free_set_linked: "linked (heap s) (free_procs s) as \<Longrightarrow> free_set s = set as"
  unfolding free_set_def using linked_unique by blast

lemma live_finite: "kmem_ok m \<Longrightarrow> finite (live m)"
  by (rule finite_subset [of _ "{..<brk m}"]) (auto simp: kmem_ok_def)

lemma used_finite: "pool_ok s \<Longrightarrow> finite (used s)"
  by (auto simp: pool_ok_def used_def dest: live_finite)

lemma alloc_proc_ok:
  assumes "pool_ok s" "alloc_proc ok x s = Inr (a, s')"
  shows "a \<notin> used s \<and> used s' = insert a (used s) \<and> pool_ok s'
    \<and> cells (heap s') = (if a \<in> live (heap s) then cells (heap s) else (cells (heap s))(a \<mapsto> x))
    \<and> live (heap s') = insert a (live (heap s)) \<and> brk (heap s) \<le> brk (heap s')"
proof (cases "free_procs s")
  case None
  with assms(2) obtain m where k: "kmalloc ok x (heap s) = (Some a, m)"
    and s': "s' = s\<lparr>heap := m, num_used_procs := num_used_procs s + 1\<rparr>"
    by (auto simp: alloc_proc_def Let_def split: prod.splits option.splits)
  from assms(1) have ok: "kmem_ok (heap s)" and f: "free_set s = {}" "num_free_procs s = 0"
    using None free_set_linked [of s "[]"] by (auto simp: pool_ok_def dest: linked_unique [of _ _ _ "[]"])
  from km.alloc_granted [OF ok k] have
    a: "a \<notin> live (heap s)" "live m = insert a (live (heap s))" "kmem_ok m" by auto
  have "free_set s' = {}" using None free_set_linked [of s' "[]"] by (simp add: s')
  then have u: "used s' = insert a (used s)" using a(2) f by (auto simp: used_def s')
  have "card (used s') = Suc (card (used s))"
    unfolding u using used_finite [OF assms(1)] a(1) by (simp add: used_def)
  then have "pool_ok s'"
    using assms(1) a(3) None f by (auto simp: pool_ok_def s' intro: exI [of _ "[]"])
  with u a k show ?thesis by (auto simp: used_def s' kmalloc_def split: if_splits)
next
  case (Some b)
  from assms(1) obtain as where as: "linked (heap s) (free_procs s) as" "distinct as"
    "num_free_procs s = int (length as)" by (auto simp: pool_ok_def)
  with Some obtain bs pr where bs: "as = b # bs" "cells (heap s) b = Some pr"
    "linked (heap s) (p_next pr) bs" by (cases as) auto
  with assms(2) Some have s': "a = b" "s' = s\<lparr>free_procs := p_next pr,
    num_free_procs := num_free_procs s - 1, num_used_procs := num_used_procs s + 1\<rparr>"
    by (auto simp: alloc_proc_def kread_def)
  have f: "free_set s = insert a (set bs)" using free_set_linked [OF as(1)] bs(1) s'(1) by simp
  have f': "free_set s' = set bs" using free_set_linked [of s' bs] bs(3) by (simp add: s'(2))
  have lv: "a \<in> live (heap s)" "a \<notin> set bs" using bs as(2) s'(1) by (auto simp: live_def)
  then have u: "used s' = insert a (used s)" using f f' by (auto simp: used_def s'(2))
  have nu: "a \<notin> used s" using f by (simp add: used_def)
  have "card (used s') = Suc (card (used s))"
    unfolding u using used_finite [OF assms(1)] nu by simp
  then have "pool_ok s'"
    using assms(1) bs as by (auto simp: pool_ok_def s'(2))
  with u nu lv(1) show ?thesis by (simp add: s'(2) insert_absorb)
qed

lemma free_proc_ok:
  assumes "pool_ok s" "a \<in> used s"
  shows "\<exists>s'. free_proc a s = Inr s' \<and> used s' = used s - {a} \<and> pool_ok s'
    \<and> live (heap s') = live (heap s) \<and> brk (heap s') = brk (heap s)
    \<and> (\<forall>b. b \<noteq> a \<longrightarrow> cells (heap s') b = cells (heap s) b)
    \<and> s' = s\<lparr>heap := heap s', free_procs := Some a, num_used_procs := num_used_procs s - 1,
            num_free_procs := num_free_procs s + 1\<rparr>"
proof -
  from assms obtain as where as: "linked (heap s) (free_procs s) as" "distinct as"
    "num_free_procs s = int (length as)" and ok: "kmem_ok (heap s)" by (auto simp: pool_ok_def)
  from assms(2) have lv: "a \<in> live (heap s)" and na: "a \<notin> set as"
    using free_set_linked [OF as(1)] by (auto simp: used_def)
  from kread_live [OF lv] obtain p where p: "kread a (heap s) = Inr p" by blast
  from kwrite_live [OF lv, of "p\<lparr>p_next := free_procs s\<rparr>"] obtain m where
    m: "kwrite a (p\<lparr>p_next := free_procs s\<rparr>) (heap s) = Inr m" "live m = live (heap s)"
      "cells m = (cells (heap s))(a \<mapsto> p\<lparr>p_next := free_procs s\<rparr>)" "brk m = brk (heap s)" by blast
  define s' where "s' = s\<lparr>heap := m, free_procs := Some a, num_used_procs := num_used_procs s - 1,
            num_free_procs := num_free_procs s + 1\<rparr>"
  have "free_proc a s = Inr s'" using p m(1) by (simp add: free_proc_def s'_def)
  moreover have "linked m (free_procs s) as"
    by (rule linked_cong [OF as(1)]) (use na m(3) in auto)
  then have l: "linked (heap s') (free_procs s') (a # as)" by (simp add: s'_def m(3))
  moreover have u: "used s' = used s - {a}"
    using free_set_linked [OF l] free_set_linked [OF as(1)] m(2) by (auto simp: used_def s'_def)
  moreover have "card (used s') = card (used s) - 1" "0 < card (used s)"
    unfolding u using used_finite [OF assms(1)] assms(2) by (auto simp: card_gt_0_iff)
  then have "num_used_procs s' = int (card (used s'))"
    using assms(1) by (simp add: pool_ok_def s'_def)
  moreover have "distinct (a # as)" "num_free_procs s' = int (length (a # as))"
    using as na by (simp_all add: s'_def)
  moreover have "kmem_ok (heap s')" using ok m(2,4) by (simp add: kmem_ok_def s'_def)
  ultimately have "pool_ok s'" unfolding pool_ok_def by blast
  with \<open>free_proc a s = Inr s'\<close> u m(2-4) show ?thesis
    by (intro exI [of _ s']) (simp add: s'_def)
qed

text \<open>The pool meets the contract of an allocator; a refused \<open>malloc\<close> ends the program.\<close>

definition pool_alloc :: "(nat \<Rightarrow> bool) \<Rightarrow> tproc \<Rightarrow> top \<Rightarrow> nat option \<times> top" where
  "pool_alloc ok x s = (case alloc_proc ok x s of Inr (a, s') \<Rightarrow> (Some a, s') | Inl e \<Rightarrow> (None, s))"

interpretation pool: allocator "pool_alloc ok" free_proc used pool_ok
proof unfold_locales
  fix m :: top and x a m'
  assume "pool_ok m" "pool_alloc ok x m = (Some a, m')"
  then show "a \<notin> used m \<and> used m' = insert a (used m) \<and> pool_ok m'"
    using alloc_proc_ok [of m ok x a m'] by (auto simp: pool_alloc_def split: sum.splits)
next
  fix m :: top and x m'
  assume "pool_ok m" "pool_alloc ok x m = (None, m')"
  then show "used m' = used m \<and> pool_ok m'"
    by (auto simp: pool_alloc_def split: sum.splits)
next
  fix m :: top and a
  assume "pool_ok m" "a \<in> used m"
  then show "\<exists>m'. free_proc a m = Inr m' \<and> used m' = used m - {a} \<and> pool_ok m'"
    using free_proc_ok by blast
qed

end
