(* ===== verification/TopProcs.thy ===== *)
theory TopProcs
  imports TopPool
begin

text \<open>
  \<open>read_procs\<close> and \<open>free_old_procs\<close> of \<open>top.c\<close>: reading \<open>/proc\<close> into an array of records, and giving
  the records of the snapshot before back to the pool. A snapshot of \<open>/proc\<close> is input.
\<close>

section \<open>What is read\<close>

text \<open>A process directory; \<open>f_tasks\<close> lists its \<open>task\<close> directory with each thread's \<open>stat\<close> file.\<close>

record pid_entry =
  d_name :: string
  f_stat :: "string option"
  f_cmdline :: "string option"
  f_status :: "string option"
  f_tasks :: "(string \<times> string option) list option"

record procfs =
  proc_dir :: "pid_entry list option"
  stat_file :: "string option"

definition numeric :: "string \<Rightarrow> bool" where
  "numeric s \<longleftrightarrow> (case s of [] \<Rightarrow> False | c # cs \<Rightarrow> is_digit c)"

section \<open>Operations\<close>

definition INIT_PROCS :: nat where "INIT_PROCS = 50"
definition THREAD_MULT :: nat where "THREAD_MULT = 8"

text \<open>The fields of a process; what cannot be read keeps what the record held before.\<close>

definition read_process :: "junk \<Rightarrow> pid_entry \<Rightarrow> tproc \<Rightarrow> tproc" where
  "read_process J e p =
     (let p = p\<lparr>p_pid := atoi (d_name e), p_tid := atoi (d_name e)\<rparr>;
          p = snd (read_stat J (f_stat e) p);
          p = snd (read_cmdline (f_cmdline e) p);
          p = snd (read_status J (f_status e) p)
      in p\<lparr>p_num_threads := 0\<rparr>)"

definition read_thread :: "junk \<Rightarrow> tproc \<Rightarrow> int \<Rightarrow> string \<times> string option \<Rightarrow> tproc \<Rightarrow> tproc" where
  "read_thread J cur_proc pid t p =
     (let p = p\<lparr>p_pid := pid, p_tid := atoi (fst t)\<rparr>;
          p = snd (read_stat J (snd t) p)
      in p\<lparr>p_name := p_name cur_proc, p_uid := p_uid cur_proc, p_gid := p_gid cur_proc\<rparr>)"

text \<open>A record from the pool, filled by \<open>f\<close>.\<close>

definition new_proc :: "(nat \<Rightarrow> bool) \<Rightarrow> junk \<Rightarrow> (tproc \<Rightarrow> tproc) \<Rightarrow> top \<Rightarrow> (nat \<times> top) run" where
  "new_proc ok J f s =
     bnd (alloc_proc ok (junk_proc J) s) (\<lambda>(a, s).
     bnd (lift_fault (kread a (heap s))) (\<lambda>p.
     bnd (lift_fault (kwrite a (f p) (heap s))) (\<lambda>m. Inr (a, s\<lparr>heap := m\<rparr>))))"

definition count_threads :: "nat \<Rightarrow> (string \<times> string option) list \<Rightarrow> top \<Rightarrow> top run" where
  "count_threads a ts s =
     foldM (\<lambda>t s. if \<not> numeric (fst t) then Inr s
              else bnd (lift_fault (kread a (heap s))) (\<lambda>p.
                   bnd (lift_fault (kwrite a (p\<lparr>p_num_threads := p_num_threads p + 1\<rparr>) (heap s)))
                       (\<lambda>m. Inr (s\<lparr>heap := m\<rparr>)))) ts s"

definition read_tid ::
  "(nat \<Rightarrow> bool) \<Rightarrow> junk \<Rightarrow> tproc \<Rightarrow> int \<Rightarrow> string \<times> string option \<Rightarrow> nat \<times> top \<Rightarrow> (nat \<times> top) run" where
  "read_tid ok J cur_proc pid t st =
     (if \<not> numeric (fst t) then Inr st
      else bnd (new_proc ok J (read_thread J cur_proc pid t) (snd st)) (\<lambda>(a, s).
           bnd (add_proc ok (fst st) a s) (\<lambda>s. Inr (fst st + 1, s))))"

text \<open>The body of the loop over \<open>/proc\<close>. A process whose task directory is gone is skipped.\<close>

definition read_pid :: "(nat \<Rightarrow> bool) \<Rightarrow> junk \<Rightarrow> bool \<Rightarrow> pid_entry \<Rightarrow> nat \<times> top \<Rightarrow> (nat \<times> top) run" where
  "read_pid ok J threads e st =
     (if \<not> numeric (d_name e) then Inr st
      else if \<not> threads then
        bnd (new_proc ok J (read_process J e) (snd st)) (\<lambda>(a, s).
          case f_tasks e of
            None \<Rightarrow> Inr (fst st, s)
          | Some ts \<Rightarrow>
              bnd (count_threads a ts s) (\<lambda>s.
              bnd (add_proc ok (fst st) a s) (\<lambda>s. Inr (fst st + 1, s))))
      else
        let cur_proc = snd (read_status J (f_status e) (snd (read_cmdline (f_cmdline e) (junk_proc J))))
        in case f_tasks e of
             None \<Rightarrow> Inr st
           | Some ts \<Rightarrow> foldM (read_tid ok J cur_proc (atoi (d_name e))) ts st)"

definition clear_slot :: "nat \<Rightarrow> top \<Rightarrow> top run" where
  "clear_slot i s =
     bnd (lift_fault (buf_set (new_procs s) i None)) (\<lambda>arr. Inr (s\<lparr>new_procs := arr\<rparr>))"

definition read_procs :: "(nat \<Rightarrow> bool) \<Rightarrow> junk \<Rightarrow> bool \<Rightarrow> procfs \<Rightarrow> top \<Rightarrow> top run" where
  "read_procs ok J threads fs s =
     (case proc_dir fs of
        None \<Rightarrow> Inl (Die ''Could not open /proc.'')
      | Some es \<Rightarrow>
          let n = INIT_PROCS * (if threads then THREAD_MULT else 1);
              (g, m) = krequest ok (heap s);
              s = s\<lparr>heap := m, new_procs := (if g then Arr (replicate n None) else NullP),
                    num_new_procs := n\<rparr>
          in case stat_file fs of
               None \<Rightarrow> Inl (Die ''Could not open /proc/stat.'')
             | Some t \<Rightarrow>
                 bnd (foldM (read_pid ok J threads) es
                        (0, s\<lparr>new_cpu := store_cpu (sscanf cpu_format t) (new_cpu s)\<rparr>))
                     (\<lambda>(proc_num, s). foldM clear_slot [proc_num..<num_new_procs s] s))"

definition free_slot :: "nat \<Rightarrow> top \<Rightarrow> top run" where
  "free_slot i s =
     bnd (lift_fault (buf_get (old_procs s) i)) (\<lambda>x.
       case x of None \<Rightarrow> Inr s | Some a \<Rightarrow> lift_fault (free_proc a s))"

definition free_old_procs :: "top \<Rightarrow> top run" where
  "free_old_procs s =
     bnd (foldM free_slot [0..<num_old_procs s] s) (\<lambda>s.
       if old_procs s = Freed then Inl (Fault Double_free)
       else Inr (s\<lparr>old_procs := (if old_procs s = NullP then NullP else Freed)\<rparr>))"

section \<open>The invariant\<close>

text \<open>An array that holds the given records, then nulls.\<close>

definition holds_procs :: "slots \<Rightarrow> nat \<Rightarrow> nat list \<Rightarrow> bool" where
  "holds_procs arr n as \<longleftrightarrow> 0 < n \<and> (\<exists>k. arr = Arr (map Some as @ replicate k None) \<and> n = length as + k)"

text \<open>
  The records in use are those of the two arrays and \<open>lost\<close>, which no array points to any
  more; nothing is in two places.
\<close>

definition owns :: "nat list \<Rightarrow> nat list \<Rightarrow> nat set \<Rightarrow> top \<Rightarrow> bool" where
  "owns olds news lost s \<longleftrightarrow>
     pool_ok s \<and> distinct (olds @ news) \<and> lost \<inter> set (olds @ news) = {}
     \<and> used s = set olds \<union> set news \<union> lost"

definition rest_same :: "top \<Rightarrow> top \<Rightarrow> bool" where
  "rest_same s s' \<longleftrightarrow> old_procs s' = old_procs s \<and> num_old_procs s' = num_old_procs s
     \<and> old_cpu s' = old_cpu s \<and> new_cpu s' = new_cpu s"

definition arrays_same :: "top \<Rightarrow> top \<Rightarrow> bool" where
  "arrays_same s s' \<longleftrightarrow> rest_same s s' \<and> new_procs s' = new_procs s \<and> num_new_procs s' = num_new_procs s"

lemma rest_same_refl [simp]: "rest_same s s" "arrays_same s s"
  by (simp_all add: rest_same_def arrays_same_def)

lemma rest_same_trans: "rest_same s t \<Longrightarrow> rest_same t u \<Longrightarrow> rest_same s u"
  by (simp add: rest_same_def)

lemma arrays_same_trans: "arrays_same s t \<Longrightarrow> arrays_same t u \<Longrightarrow> arrays_same s u"
  by (simp add: arrays_same_def rest_same_def)

lemma new_proc_ok:
  assumes "pool_ok s" "\<And>n. ok n"
  shows "\<exists>a s' p. new_proc ok J f s = Inr (a, s') \<and> pool_ok s' \<and> a \<notin> used s
    \<and> used s' = insert a (used s) \<and> cells (heap s') a = Some (f p)
    \<and> (\<forall>b. b \<noteq> a \<longrightarrow> cells (heap s') b = cells (heap s) b)
    \<and> live (heap s') = insert a (live (heap s)) \<and> arrays_same s s'"
proof -
  obtain a s1 where al: "alloc_proc ok (junk_proc J) s = Inr (a, s1)"
  proof (cases "free_procs s")
    case None
    then show ?thesis using that assms(2) by (auto simp: alloc_proc_def kmalloc_def)
  next
    case (Some b)
    from assms(1) obtain as where as: "linked (heap s) (free_procs s) as" by (auto simp: pool_ok_def)
    with Some have "b \<in> live (heap s)" by (cases as) (auto simp: live_def)
    then show ?thesis using that Some by (auto simp: alloc_proc_def kread_def live_def)
  qed
  have upd: "arrays_same s s1"
    using al by (auto simp: arrays_same_def rest_same_def alloc_proc_def kmalloc_def kread_def Let_def split: option.splits if_splits)
  from alloc_proc_ok [OF assms(1) al] have
    a: "a \<notin> used s" "used s1 = insert a (used s)" "pool_ok s1"
      "cells (heap s1) = (if a \<in> live (heap s) then cells (heap s) else (cells (heap s))(a \<mapsto> junk_proc J))"
      "live (heap s1) = insert a (live (heap s))" by blast+
  then have lv: "a \<in> live (heap s1)" by simp
  from kread_live [OF lv] obtain p where p: "kread a (heap s1) = Inr p" by blast
  from kwrite_live [OF lv, of "f p"] obtain m where m: "kwrite a (f p) (heap s1) = Inr m"
    "live m = live (heap s1)" "cells m = (cells (heap s1))(a \<mapsto> f p)" "brk m = brk (heap s1)" by blast
  define s' where "s' = s1\<lparr>heap := m\<rparr>"
  from a(3) obtain as where as: "linked (heap s1) (free_procs s1) as" "distinct as"
    "num_free_procs s1 = int (length as)" by (auto simp: pool_ok_def)
  have na: "a \<notin> set as" using a(2) free_set_linked [OF as(1)] by (auto simp: used_def)
  have l: "linked m (free_procs s1) as" by (rule linked_cong [OF as(1)]) (use na m(3) in auto)
  have f: "free_set s' = free_set s1"
    using free_set_linked [of s' as] l free_set_linked [OF as(1)] by (simp add: s'_def)
  have u: "used s' = used s1" unfolding used_def f by (simp add: s'_def m(2))
  have ok: "pool_ok s'"
    using a(3) l as u m(2,4) by (auto simp: pool_ok_def s'_def kmem_ok_def)
  have "new_proc ok J f s = Inr (a, s')" using al p m(1) by (simp add: new_proc_def s'_def)
  moreover have "arrays_same s s'"
    using upd by (simp add: s'_def arrays_same_def rest_same_def)
  moreover have "\<forall>b. b \<noteq> a \<longrightarrow> cells (heap s') b = cells (heap s) b"
    using a(4) by (simp add: s'_def m(3))
  moreover have "cells (heap s') a = Some (f p)" "live (heap s') = insert a (live (heap s))"
    using a(5) m by (simp_all add: s'_def)
  ultimately show ?thesis using a(1,2) u ok by blast
qed

lemma pool_heap_only:
  assumes "pool_ok s" "cells m = (cells (heap s))(a \<mapsto> p)" "a \<in> used s" "brk m = brk (heap s)"
  shows "pool_ok (s\<lparr>heap := m\<rparr>) \<and> used (s\<lparr>heap := m\<rparr>) = used s"
proof -
  from assms(1) obtain as where as: "linked (heap s) (free_procs s) as" "distinct as"
    "num_free_procs s = int (length as)" by (auto simp: pool_ok_def)
  from assms(3) free_set_linked [OF as(1)] have na: "a \<notin> set as" "a \<in> live (heap s)"
    by (auto simp: used_def)
  then have lv: "live m = live (heap s)" using assms(2) by (auto simp: live_def)
  have l: "linked m (free_procs s) as" by (rule linked_cong [OF as(1)]) (use na assms(2) in auto)
  have f: "free_set (s\<lparr>heap := m\<rparr>) = free_set s"
    using free_set_linked [of "s\<lparr>heap := m\<rparr>" as] l free_set_linked [OF as(1)] by simp
  then have u: "used (s\<lparr>heap := m\<rparr>) = used s" by (simp add: used_def lv)
  with assms(1,4) l as lv show ?thesis by (auto simp: pool_ok_def kmem_ok_def)
qed

text \<open>Only these fields matter to the pool.\<close>

lemma pool_frame:
  assumes "heap s' = heap s" "free_procs s' = free_procs s" "num_used_procs s' = num_used_procs s"
    "num_free_procs s' = num_free_procs s"
  shows "pool_ok s' = pool_ok s" "used s' = used s"
  using assms by (simp_all add: pool_ok_def used_def free_set_def)

lemma pool_request:
  assumes "pool_ok s" "m = snd (krequest ok (heap s))"
  shows "pool_ok (s\<lparr>heap := m\<rparr>)" "used (s\<lparr>heap := m\<rparr>) = used s"
proof -
  have c: "cells m = cells (heap s)" "live m = live (heap s)" "kmem_ok (heap s) \<longrightarrow> kmem_ok m"
    by (simp_all add: assms(2))
  have l: "linked m = linked (heap s)"
    using linked_cong [of "heap s" _ _ m] linked_cong [of m _ _ "heap s"] c(1) by (intro ext) metis
  show "used (s\<lparr>heap := m\<rparr>) = used s" by (simp add: used_def free_set_def l c)
  then show "pool_ok (s\<lparr>heap := m\<rparr>)" using assms(1) c by (auto simp: pool_ok_def l)
qed

lemma add_proc_ok:
  assumes "holds_procs (new_procs s) (num_new_procs s) as" "\<And>n. ok n" "pool_ok s"
  shows "\<exists>s'. add_proc ok (length as) a s = Inr s' \<and> holds_procs (new_procs s') (num_new_procs s') (as @ [a])
    \<and> pool_ok s' \<and> used s' = used s \<and> cells (heap s') = cells (heap s)
    \<and> old_procs s' = old_procs s \<and> num_old_procs s' = num_old_procs s
    \<and> old_cpu s' = old_cpu s \<and> new_cpu s' = new_cpu s"
proof -
  from assms(1) obtain k where k: "new_procs s = Arr (map Some as @ replicate k None)"
    "num_new_procs s = length as + k" "0 < num_new_procs s" by (auto simp: holds_procs_def)
  have upd: "(map Some as @ replicate (Suc j) None)[length as := Some a]
      = map Some (as @ [a]) @ replicate j None" for j
    by (simp add: list_update_append)
  show ?thesis
  proof (cases k)
    case (Suc j)
    let ?s' = "s\<lparr>new_procs := Arr (map Some (as @ [a]) @ replicate j None)\<rparr>"
    have "add_proc ok (length as) a s = Inr ?s'"
      using k(1,2) upd [of j] by (simp add: add_proc_def Suc)
    moreover have "holds_procs (new_procs ?s') (num_new_procs ?s') (as @ [a])"
      using k Suc by (auto simp: holds_procs_def)
    ultimately show ?thesis using assms(3) pool_frame [of ?s' s] by (intro exI [of _ ?s']) simp
  next
    case 0
    then obtain j where j: "length as = Suc j" using k(2,3) by (cases "length as") auto
    let ?m = "snd (krequest ok (heap s))"
    let ?s1 = "s\<lparr>heap := ?m\<rparr>"
    let ?s' = "?s1\<lparr>new_procs := Arr (map Some (as @ [a]) @ replicate j None), num_new_procs := 2 * length as\<rparr>"
    have r: "take (2 * length as) (map Some as @ replicate (length as) None)
        = map Some as @ replicate (Suc j) None" by (simp add: j)
    have "add_proc ok (length as) a s = Inr ?s'"
      using k(1,2) 0 assms(2) upd [of j] r
      by (simp add: add_proc_def Let_def krequest_def)
    moreover have "holds_procs (new_procs ?s') (num_new_procs ?s') (as @ [a])"
      using j by (auto simp: holds_procs_def)
    moreover have "pool_ok ?s'" "used ?s' = used s"
      using pool_request [OF assms(3) refl, of ok] pool_frame [of ?s' ?s1] by simp_all
    ultimately show ?thesis by (intro exI [of _ ?s']) simp
  qed
qed

lemma count_threads_ok:
  assumes "pool_ok s" "cells (heap s) a = Some p" "a \<in> used s"
  shows "\<exists>s'. count_threads a ts s = Inr s' \<and> pool_ok s' \<and> used s' = used s \<and> arrays_same s s'
    \<and> cells (heap s') a = Some (p\<lparr>p_num_threads := p_num_threads p
          + int (length (filter (\<lambda>t. numeric (fst t)) ts))\<rparr>)
    \<and> (\<forall>b. b \<noteq> a \<longrightarrow> cells (heap s') b = cells (heap s) b)"
  using assms
proof (induction ts arbitrary: s p)
  case Nil
  then show ?case by (simp add: count_threads_def)
next
  case (Cons t ts)
  show ?case
  proof (cases "numeric (fst t)")
    case False
    with Cons show ?thesis by (simp add: count_threads_def)
  next
    case True
    from Cons.prems(3) have lv: "a \<in> live (heap s)" by (simp add: used_def)
    let ?q = "p\<lparr>p_num_threads := p_num_threads p + 1\<rparr>"
    from kwrite_live [OF lv, of ?q] obtain m where m: "kwrite a ?q (heap s) = Inr m"
      "cells m = (cells (heap s))(a \<mapsto> ?q)" "brk m = brk (heap s)" by blast
    from pool_heap_only [OF Cons.prems(1) m(2) Cons.prems(3) m(3)] have
      ok: "pool_ok (s\<lparr>heap := m\<rparr>)" "used (s\<lparr>heap := m\<rparr>) = used s" by simp_all
    have "cells (heap (s\<lparr>heap := m\<rparr>)) a = Some ?q" "a \<in> used (s\<lparr>heap := m\<rparr>)"
      using m(2) ok(2) Cons.prems(3) by simp_all
    from Cons.IH [OF ok(1) this] obtain s' where
      s': "count_threads a ts (s\<lparr>heap := m\<rparr>) = Inr s'" "pool_ok s'" "used s' = used (s\<lparr>heap := m\<rparr>)"
      "arrays_same (s\<lparr>heap := m\<rparr>) s'"
      "cells (heap s') a = Some (?q\<lparr>p_num_threads := p_num_threads ?q
          + int (length (filter (\<lambda>t. numeric (fst t)) ts))\<rparr>)"
      "\<forall>b. b \<noteq> a \<longrightarrow> cells (heap s') b = cells (heap (s\<lparr>heap := m\<rparr>)) b" by blast
    have "count_threads a (t # ts) s = Inr s'"
      using True Cons.prems(2) m(1) s'(1) by (simp add: count_threads_def kread_def)
    moreover have "arrays_same s s'" using s'(4) by (simp add: arrays_same_def rest_same_def)
    ultimately show ?thesis using s' ok(2) m(2) True by (intro exI [of _ s']) simp
  qed
qed

text \<open>Reading under way: \<open>as\<close> are the records of the new array, \<open>lost\<close> those no array has.\<close>

definition reading :: "nat list \<Rightarrow> nat list \<Rightarrow> nat set \<Rightarrow> top \<Rightarrow> bool" where
  "reading olds as lost s \<longleftrightarrow>
     owns olds as lost s \<and> holds_procs (new_procs s) (num_new_procs s) as"

text \<open>One more record, added to the array.\<close>

lemma add_reading:
  assumes r: "reading olds as lost s" and ok: "\<And>n. ok n"
    and s2: "pool_ok s2" "used s2 = insert a (used s)" "a \<notin> used s" "arrays_same s s2"
  shows "\<exists>s'. add_proc ok (length as) a s2 = Inr s' \<and> reading olds (as @ [a]) lost s'
    \<and> rest_same s s' \<and> cells (heap s') = cells (heap s2)"
proof -
  from r have o: "distinct (olds @ as)" "lost \<inter> set (olds @ as) = {}"
    "used s = set olds \<union> set as \<union> lost"
    and h: "holds_procs (new_procs s) (num_new_procs s) as"
    by (auto simp: reading_def owns_def)
  have "holds_procs (new_procs s2) (num_new_procs s2) as" using h s2(4) by (simp add: arrays_same_def)
  from add_proc_ok [where a = a and ok = ok, OF this ok s2(1)] obtain s' where
    s': "add_proc ok (length as) a s2 = Inr s'" "holds_procs (new_procs s') (num_new_procs s') (as @ [a])"
    "pool_ok s'" "used s' = used s2" "cells (heap s') = cells (heap s2)"
    "old_procs s' = old_procs s2" "num_old_procs s' = num_old_procs s2"
    "old_cpu s' = old_cpu s2" "new_cpu s' = new_cpu s2" by blast
  have "owns olds (as @ [a]) lost s'" using s'(3,4) s2(2,3) o by (auto simp: owns_def)
  moreover have "rest_same s s'" using s'(6-9) s2(4) by (simp add: arrays_same_def rest_same_def)
  ultimately show ?thesis using s' by (auto simp: reading_def)
qed

text \<open>How many records the loop over \<open>/proc\<close> adds for an entry, and how many it loses.\<close>

definition tids :: "pid_entry \<Rightarrow> (string \<times> string option) list" where
  "tids e = (case f_tasks e of None \<Rightarrow> [] | Some ts \<Rightarrow> filter (\<lambda>t. numeric (fst t)) ts)"

definition shown :: "bool \<Rightarrow> pid_entry \<Rightarrow> nat" where
  "shown threads e =
     (if \<not> numeric (d_name e) \<or> f_tasks e = None then 0 else if threads then length (tids e) else 1)"

definition dropped :: "bool \<Rightarrow> pid_entry \<Rightarrow> nat" where
  "dropped threads e = (if numeric (d_name e) \<and> \<not> threads \<and> f_tasks e = None then 1 else 0)"

text \<open>The records of the snapshot before keep their contents while the new one is read.\<close>

definition kept :: "nat list \<Rightarrow> top \<Rightarrow> top \<Rightarrow> bool" where
  "kept as s s' \<longleftrightarrow> (\<forall>b\<in>set as. cells (heap s') b = cells (heap s) b)"

lemma kept_trans: "kept as s t \<Longrightarrow> kept as t u \<Longrightarrow> kept as s u"
  by (simp add: kept_def)

text \<open>A record's identity: which process and thread it stands for.\<close>

definition ident :: "top \<Rightarrow> nat \<Rightarrow> int \<times> int" where
  "ident s a = (case cells (heap s) a of None \<Rightarrow> (0, 0) | Some p \<Rightarrow> (p_pid p, p_tid p))"

definition idents_of :: "bool \<Rightarrow> pid_entry \<Rightarrow> (int \<times> int) list" where
  "idents_of threads e =
     (if \<not> numeric (d_name e) \<or> f_tasks e = None then []
      else if threads then map (\<lambda>t. (atoi (d_name e), atoi (fst t))) (tids e)
      else [(atoi (d_name e), atoi (d_name e))])"

definition listed :: "(int \<times> int) list \<Rightarrow> nat list \<Rightarrow> top \<Rightarrow> bool" where
  "listed ids as s \<longleftrightarrow> map (ident s) as = ids"

lemma listed_length: "listed ids as s \<Longrightarrow> length as = length ids"
  by (auto simp: listed_def)

lemma store_one_ident:
  "p_pid (case vs of [] \<Rightarrow> p | C_val c # xs \<Rightarrow> p\<lparr>p_state := c\<rparr> | U_val v # xs \<Rightarrow> p | I_val i # xs \<Rightarrow> p) = p_pid p"
  "p_tid (case vs of [] \<Rightarrow> p | C_val c # xs \<Rightarrow> p\<lparr>p_state := c\<rparr> | U_val v # xs \<Rightarrow> p | I_val i # xs \<Rightarrow> p) = p_tid p"
  "p_pid (case vs of [] \<Rightarrow> p | C_val c # xs \<Rightarrow> p | U_val v # xs \<Rightarrow> p\<lparr>p_utime := v\<rparr> | I_val i # xs \<Rightarrow> p) = p_pid p"
  "p_tid (case vs of [] \<Rightarrow> p | C_val c # xs \<Rightarrow> p | U_val v # xs \<Rightarrow> p\<lparr>p_utime := v\<rparr> | I_val i # xs \<Rightarrow> p) = p_tid p"
  "p_pid (case vs of [] \<Rightarrow> p | C_val c # xs \<Rightarrow> p | U_val v # xs \<Rightarrow> p\<lparr>p_stime := v\<rparr> | I_val i # xs \<Rightarrow> p) = p_pid p"
  "p_tid (case vs of [] \<Rightarrow> p | C_val c # xs \<Rightarrow> p | U_val v # xs \<Rightarrow> p\<lparr>p_stime := v\<rparr> | I_val i # xs \<Rightarrow> p) = p_tid p"
  "p_pid (case vs of [] \<Rightarrow> p | C_val c # xs \<Rightarrow> p | U_val v # xs \<Rightarrow> p\<lparr>p_vss := sint v\<rparr> | I_val i # xs \<Rightarrow> p) = p_pid p"
  "p_tid (case vs of [] \<Rightarrow> p | C_val c # xs \<Rightarrow> p | U_val v # xs \<Rightarrow> p\<lparr>p_vss := sint v\<rparr> | I_val i # xs \<Rightarrow> p) = p_tid p"
  "p_pid (case vs of [] \<Rightarrow> p | C_val c # xs \<Rightarrow> p | U_val v # xs \<Rightarrow> p | I_val i # xs \<Rightarrow> p\<lparr>p_rss := i\<rparr>) = p_pid p"
  "p_tid (case vs of [] \<Rightarrow> p | C_val c # xs \<Rightarrow> p | U_val v # xs \<Rightarrow> p | I_val i # xs \<Rightarrow> p\<lparr>p_rss := i\<rparr>) = p_tid p"
  by (simp_all split: list.split scanned.split)

lemma store_stat_ident [simp]:
  "p_pid (store_stat vs p) = p_pid p" "p_tid (store_stat vs p) = p_tid p"
  by (simp_all only: store_stat_def Let_def store_one_ident)

lemma snd_read_stat_ident [simp]:
  "p_pid (snd (read_stat J f p)) = p_pid p" "p_tid (snd (read_stat J f p)) = p_tid p"
  by (simp_all add: read_stat_def Let_def split: option.split)

lemma snd_read_cmdline_ident [simp]:
  "p_pid (snd (read_cmdline f p)) = p_pid p" "p_tid (snd (read_cmdline f p)) = p_tid p"
  by (simp_all add: read_cmdline_def Let_def split: option.split)

lemma snd_read_status_ident [simp]:
  "p_pid (snd (read_status J f p)) = p_pid p" "p_tid (snd (read_status J f p)) = p_tid p"
  by (simp_all add: read_status_def Let_def split: option.split prod.split)

lemma read_process_ident [simp]:
  "p_pid (read_process J e p) = atoi (d_name e)" "p_tid (read_process J e p) = atoi (d_name e)"
  by (simp_all add: read_process_def Let_def)

lemma read_thread_ident [simp]:
  "p_pid (read_thread J c pid t p) = pid" "p_tid (read_thread J c pid t p) = atoi (fst t)"
  by (simp_all add: read_thread_def Let_def)

text \<open>A step of the loops: more records at the end of the array, perhaps some lost.\<close>

definition grown ::
  "nat list \<Rightarrow> nat list \<Rightarrow> nat set \<Rightarrow> (int \<times> int) list \<Rightarrow> nat \<Rightarrow> top \<Rightarrow> nat list \<Rightarrow> nat set \<Rightarrow> top \<Rightarrow> bool" where
  "grown olds as lost ids k s as' lost' s' \<longleftrightarrow>
     reading olds as' lost' s' \<and> rest_same s s' \<and> kept (olds @ as) s s'
     \<and> (\<exists>bs. as' = as @ bs \<and> listed ids bs s') \<and> card lost' = card lost + k \<and> finite lost'"

lemma grown_trans:
  assumes "grown olds as lost ids k s as1 lost1 s1" "grown olds as1 lost1 ids' k' s1 as2 lost2 s2"
  shows "grown olds as lost (ids @ ids') (k + k') s as2 lost2 s2"
proof -
  from assms obtain bs cs where bs: "as1 = as @ bs" "listed ids bs s1" "as2 = as1 @ cs" "listed ids' cs s2"
    and kp: "kept (olds @ as) s s1" "kept (olds @ as1) s1 s2"
    by (auto simp: grown_def)
  have "map (ident s2) bs = map (ident s1) bs"
    using kp(2) bs(1) by (auto simp: kept_def ident_def)
  with bs have "as2 = as @ (bs @ cs)" "listed (ids @ ids') (bs @ cs) s2" by (simp_all add: listed_def)
  moreover have "kept (olds @ as) s s2" using kp bs(1) by (auto simp: kept_def)
  ultimately show ?thesis using assms rest_same_trans [of s s1 s2] by (auto simp: grown_def)
qed

lemma grown_none: "reading olds as lost s \<Longrightarrow> finite lost \<Longrightarrow> grown olds as lost [] 0 s as lost s"
  by (auto simp: grown_def kept_def listed_def)

lemma grown_one:
  assumes r: "reading olds as lost s" "finite lost" and ok: "\<And>n. ok n"
    and s2: "pool_ok s2" "used s2 = insert a (used s)" "a \<notin> used s" "arrays_same s s2"
      "\<forall>b. b \<noteq> a \<longrightarrow> cells (heap s2) b = cells (heap s) b"
    and p: "cells (heap s2) a = Some p"
  shows "\<exists>s'. add_proc ok (length as) a s2 = Inr s'
    \<and> grown olds as lost [(p_pid p, p_tid p)] 0 s (as @ [a]) lost s'"
proof -
  from add_reading [where ok = ok, OF r(1) ok s2(1-4)] obtain s' where
    s': "add_proc ok (length as) a s2 = Inr s'" "reading olds (as @ [a]) lost s'"
    "rest_same s s'" "cells (heap s') = cells (heap s2)" by blast
  have "a \<notin> set (olds @ as)" using r(1) s2(3) by (auto simp: reading_def owns_def)
  then have "kept (olds @ as) s s'" using s2(5) s'(4) by (auto simp: kept_def)
  moreover have "listed [(p_pid p, p_tid p)] [a] s'" using p s'(4) by (simp add: listed_def ident_def)
  ultimately show ?thesis using s' r(2) by (auto simp: grown_def)
qed

lemma read_tid_grown:
  assumes r: "reading olds as lost s" "finite lost" and ok: "\<And>n. ok n"
  shows "\<exists>as' s'. read_tid ok J c pid t (length as, s) = Inr (length as', s')
    \<and> grown olds as lost (if numeric (fst t) then [(pid, atoi (fst t))] else []) 0 s as' lost s'"
proof (cases "numeric (fst t)")
  case False
  with grown_none [OF r] show ?thesis by (auto simp: read_tid_def)
next
  case True
  have po: "pool_ok s" using r(1) by (simp add: reading_def owns_def)
  from new_proc_ok [where ok = ok and J = J and f = "read_thread J c pid t", OF po ok] obtain a s1 p where
    n: "new_proc ok J (read_thread J c pid t) s = Inr (a, s1)" "pool_ok s1" "a \<notin> used s"
      "used s1 = insert a (used s)" "cells (heap s1) a = Some (read_thread J c pid t p)"
      "\<forall>b. b \<noteq> a \<longrightarrow> cells (heap s1) b = cells (heap s) b" "arrays_same s s1" by blast
  from grown_one [where ok = ok, OF r ok n(2,4,3,7,6,5)] obtain s' where
    "add_proc ok (length as) a s1 = Inr s'"
    "grown olds as lost [(pid, atoi (fst t))] 0 s (as @ [a]) lost s'" by auto
  with n(1) True show ?thesis by (intro exI [of _ "as @ [a]"] exI [of _ s']) (simp add: read_tid_def)
qed

lemma read_tids_grown:
  assumes "reading olds as lost s" "finite lost" and ok: "\<And>n. ok n"
  shows "\<exists>as' s'. foldM (read_tid ok J c pid) ts (length as, s) = Inr (length as', s')
    \<and> grown olds as lost (map (\<lambda>t. (pid, atoi (fst t))) (filter (\<lambda>t. numeric (fst t)) ts)) 0 s as' lost s'"
  using assms(1,2)
proof (induction ts arbitrary: as s)
  case Nil
  with grown_none show ?case by (intro exI [of _ as] exI [of _ s]) simp
next
  case (Cons t ts)
  from read_tid_grown [where ok = ok, OF Cons.prems ok] obtain as1 s1 where
    s1: "read_tid ok J c pid t (length as, s) = Inr (length as1, s1)"
    and g1: "grown olds as lost (if numeric (fst t) then [(pid, atoi (fst t))] else []) 0 s as1 lost s1"
    by blast
  from g1 have "reading olds as1 lost s1" "finite lost" by (simp_all add: grown_def)
  from Cons.IH [OF this] obtain as2 s2 where
    s2: "foldM (read_tid ok J c pid) ts (length as1, s1) = Inr (length as2, s2)"
    and g2: "grown olds as1 lost (map (\<lambda>t. (pid, atoi (fst t))) (filter (\<lambda>t. numeric (fst t)) ts)) 0
      s1 as2 lost s2" by blast
  from grown_trans [OF g1 g2] s1 s2 show ?case
    by (intro exI [of _ as2] exI [of _ s2], cases "numeric (fst t)") simp_all
qed

lemma read_pid_grown:
  assumes r: "reading olds as lost s" "finite lost" and ok: "\<And>n. ok n"
  shows "\<exists>as' lost' s'. read_pid ok J threads e (length as, s) = Inr (length as', s')
    \<and> grown olds as lost (idents_of threads e) (dropped threads e) s as' lost' s'"
proof (cases "numeric (d_name e)")
  case False
  with grown_none [OF r] show ?thesis
    by (intro exI [of _ as] exI [of _ lost] exI [of _ s])
       (simp add: read_pid_def idents_of_def dropped_def)
next
  case num: True
  have po: "pool_ok s" using r(1) by (simp add: reading_def owns_def)
  show ?thesis
  proof (cases threads)
    case True
    show ?thesis
    proof (cases "f_tasks e")
      case None
      with True num grown_none [OF r] show ?thesis
        by (intro exI [of _ as] exI [of _ lost] exI [of _ s])
           (simp add: read_pid_def idents_of_def dropped_def)
    next
      case (Some ts)
      let ?c = "snd (read_status J (f_status e) (snd (read_cmdline (f_cmdline e) (junk_proc J))))"
      from read_tids_grown [where ok = ok and J = J and c = ?c and pid = "atoi (d_name e)" and ts = ts,
          OF r ok] obtain as' s' where
        "foldM (read_tid ok J ?c (atoi (d_name e))) ts (length as, s) = Inr (length as', s')"
        "grown olds as lost (map (\<lambda>t. (atoi (d_name e), atoi (fst t))) (filter (\<lambda>t. numeric (fst t)) ts)) 0
          s as' lost s'" by blast
      with True num Some show ?thesis
        by (intro exI [of _ as'] exI [of _ lost] exI [of _ s'])
           (simp add: read_pid_def idents_of_def dropped_def tids_def)
    qed
  next
    case False
    from new_proc_ok [where ok = ok and J = J and f = "read_process J e", OF po ok] obtain a s1 p where
      n: "new_proc ok J (read_process J e) s = Inr (a, s1)" "pool_ok s1" "a \<notin> used s"
        "used s1 = insert a (used s)" "cells (heap s1) a = Some (read_process J e p)"
        "\<forall>b. b \<noteq> a \<longrightarrow> cells (heap s1) b = cells (heap s) b" "arrays_same s s1" by blast
    show ?thesis
    proof (cases "f_tasks e")
      case None
      have na: "a \<notin> lost" "a \<notin> set (olds @ as)" using r(1) n(3) by (auto simp: reading_def owns_def)
      then have "reading olds as (insert a lost) s1"
        using r(1) n(2,4,7) by (auto simp: reading_def owns_def arrays_same_def)
      moreover have "kept (olds @ as) s s1" using n(6) na by (auto simp: kept_def)
      ultimately have "grown olds as lost [] 1 s as (insert a lost) s1"
        using r(2) na n(7) by (auto simp: grown_def listed_def arrays_same_def)
      with None False num n(1) show ?thesis
        by (intro exI [of _ as] exI [of _ "insert a lost"] exI [of _ s1])
           (simp add: read_pid_def idents_of_def dropped_def)
    next
      case (Some ts)
      from count_threads_ok [OF n(2,5), of ts] n(4) obtain s2 p2 where
        s2: "count_threads a ts s1 = Inr s2" "pool_ok s2" "used s2 = used s1" "arrays_same s1 s2"
          "cells (heap s2) a = Some p2" "\<forall>b. b \<noteq> a \<longrightarrow> cells (heap s2) b = cells (heap s1) b"
        and p2: "p_pid p2 = atoi (d_name e)" "p_tid p2 = atoi (d_name e)" by auto
      have "used s2 = insert a (used s)" "arrays_same s s2"
        "\<forall>b. b \<noteq> a \<longrightarrow> cells (heap s2) b = cells (heap s) b"
        using s2(3,4,6) n(4,6,7) arrays_same_trans [of s s1 s2] by simp_all
      from grown_one [where ok = ok, OF r ok s2(2) this(1) n(3) this(2,3) s2(5)] obtain s' where
        "add_proc ok (length as) a s2 = Inr s'"
        "grown olds as lost [(p_pid p2, p_tid p2)] 0 s (as @ [a]) lost s'" by blast
      with Some False num n(1) s2(1) p2 show ?thesis
        by (intro exI [of _ "as @ [a]"] exI [of _ lost] exI [of _ s'])
           (simp add: read_pid_def idents_of_def dropped_def)
    qed
  qed
qed

lemma read_pids_grown:
  assumes "reading olds as lost s" "finite lost" and ok: "\<And>n. ok n"
  shows "\<exists>as' lost' s'. foldM (read_pid ok J threads) es (length as, s) = Inr (length as', s')
    \<and> grown olds as lost (concat (map (idents_of threads) es)) (sum_list (map (dropped threads) es))
        s as' lost' s'"
  using assms(1,2)
proof (induction es arbitrary: as lost s)
  case Nil
  with grown_none show ?case by (intro exI [of _ as] exI [of _ lost] exI [of _ s]) simp
next
  case (Cons e es)
  from read_pid_grown [where ok = ok and J = J and threads = threads and e = e, OF Cons.prems ok]
  obtain as1 lost1 s1 where
    s1: "read_pid ok J threads e (length as, s) = Inr (length as1, s1)"
    and g1: "grown olds as lost (idents_of threads e) (dropped threads e) s as1 lost1 s1" by blast
  from g1 have "reading olds as1 lost1 s1" "finite lost1" by (simp_all add: grown_def)
  from Cons.IH [OF this] obtain as2 lost2 s2 where
    s2: "foldM (read_pid ok J threads) es (length as1, s1) = Inr (length as2, s2)"
    and g2: "grown olds as1 lost1 (concat (map (idents_of threads) es))
      (sum_list (map (dropped threads) es)) s1 as2 lost2 s2" by blast
  from grown_trans [OF g1 g2] s1 s2 show ?case
    by (intro exI [of _ as2] exI [of _ lost2] exI [of _ s2]) simp
qed

lemma clear_rest:
  assumes "new_procs s = Arr xs" "\<forall>i\<in>set js. i < length xs \<and> xs ! i = None"
  shows "foldM clear_slot js s = Inr s"
  using assms(2)
proof (induction js)
  case (Cons j js)
  then have j: "j < length xs" "xs[j := None] = xs" by (metis list.set_intros(1), metis list.set_intros(1) list_update_id)
  have "s\<lparr>new_procs := Arr xs\<rparr> = s" using assms(1) by (metis top.surjective top.update_convs(7))
  with j assms(1) have "clear_slot j s = Inr s" by (simp add: clear_slot_def)
  with Cons show ?case by simp
qed simp

text \<open>
  A snapshot: the records of the new array stand for the listed threads, the older ones keep
  their contents, and what was skipped is lost.
\<close>

lemma read_procs_ok:
  assumes ow: "owns olds [] lost s" "finite lost" and ok: "\<And>n. ok n"
    and fs: "proc_dir fs = Some es" "stat_file fs = Some t"
  shows "\<exists>news lost' s'. read_procs ok J threads fs s = Inr s' \<and> owns olds news lost' s'
    \<and> holds_procs (new_procs s') (num_new_procs s') news
    \<and> listed (concat (map (idents_of threads) es)) news s' \<and> kept olds s s'
    \<and> card lost' = card lost + sum_list (map (dropped threads) es) \<and> finite lost'
    \<and> old_procs s' = old_procs s \<and> num_old_procs s' = num_old_procs s \<and> old_cpu s' = old_cpu s
    \<and> new_cpu s' = store_cpu (sscanf cpu_format t) (new_cpu s)"
proof -
  define n where "n = INIT_PROCS * (if threads then THREAD_MULT else 1)"
  have n0: "0 < n" by (simp add: n_def INIT_PROCS_def THREAD_MULT_def)
  let ?m = "snd (krequest ok (heap s))"
  let ?s1 = "s\<lparr>heap := ?m, new_procs := Arr (replicate n None), num_new_procs := n,
    new_cpu := store_cpu (sscanf cpu_format t) (new_cpu s)\<rparr>"
  have "pool_ok s" using ow(1) by (simp add: owns_def)
  from pool_request [OF this refl, of ok] have "pool_ok ?s1" "used ?s1 = used s"
    using pool_frame [of ?s1 "s\<lparr>heap := ?m\<rparr>"] by simp_all
  then have "reading olds [] lost ?s1"
    using ow(1) n0 by (simp add: reading_def owns_def holds_procs_def)
  from read_pids_grown [where ok = ok and J = J and threads = threads and es = es, OF this ow(2) ok]
  obtain as lost' s' where
    f: "foldM (read_pid ok J threads) es (0, ?s1) = Inr (length as, s')"
    and g: "grown olds [] lost (concat (map (idents_of threads) es)) (sum_list (map (dropped threads) es))
        ?s1 as lost' s'" by auto
  from g have h: "holds_procs (new_procs s') (num_new_procs s') as" and o: "owns olds as lost' s'"
    by (simp_all add: grown_def reading_def)
  from h obtain k where k: "new_procs s' = Arr (map Some as @ replicate k None)"
    "num_new_procs s' = length as + k" by (auto simp: holds_procs_def)
  have "foldM clear_slot [length as..<num_new_procs s'] s' = Inr s'"
    by (rule clear_rest [OF k(1)]) (auto simp: k(2) nth_append)
  moreover have "read_procs ok J threads fs s
      = bnd (foldM (read_pid ok J threads) es (0, ?s1))
          (\<lambda>(proc_num, s). foldM clear_slot [proc_num..<num_new_procs s] s)"
    using fs ok by (simp add: read_procs_def Let_def krequest_def n_def)
  ultimately have "read_procs ok J threads fs s = Inr s'" using f by simp
  moreover have "kept olds s s'" using g by (simp add: grown_def kept_def)
  ultimately show ?thesis
    using g h o by (intro exI [of _ as] exI [of _ lost'] exI [of _ s'])
      (simp add: grown_def rest_same_def)
qed

section \<open>Giving the old records back\<close>

lemma free_proc_same:
  assumes "free_proc a t = Inr t'"
  shows "arrays_same t t' \<and> (\<forall>b. b \<noteq> a \<longrightarrow> cells (heap t') b = cells (heap t) b) \<and> live (heap t') = live (heap t)"
proof -
  from assms obtain p where p: "cells (heap t) a = Some p"
    "t' = t\<lparr>heap := (heap t)\<lparr>cells := (cells (heap t))(a \<mapsto> p\<lparr>p_next := free_procs t\<rparr>)\<rparr>,
       free_procs := Some a, num_used_procs := num_used_procs t - 1, num_free_procs := num_free_procs t + 1\<rparr>"
    by (auto simp: free_proc_def bnd_eq_Inr kwrite_def kread_def split: option.splits)
  then show ?thesis by (auto simp: arrays_same_def rest_same_def live_def)
qed

lemma free_nulls:
  assumes "old_procs s = Arr xs" "\<forall>j\<in>set js. j < length xs \<and> xs ! j = None"
  shows "foldM free_slot js s = Inr s"
  using assms(2) by (induction js) (simp_all add: free_slot_def assms(1))

lemma free_loop:
  assumes "old_procs s = Arr xs" "i + length as \<le> length xs"
    and "\<forall>j<length as. xs ! (i + j) = Some (as ! j)"
    and "\<forall>j. i + length as \<le> j \<and> j < length xs \<longrightarrow> xs ! j = None"
  shows "foldM free_slot [i..<length xs] s = lift_fault (foldM free_proc as s)"
  using assms
proof (induction as arbitrary: i s)
  case Nil
  then show ?case by (auto intro: free_nulls)
next
  case (Cons a as)
  then have i: "i < length xs" "xs ! i = Some a" by fastforce+
  show ?case
  proof (cases "free_proc a s")
    case (Inl f)
    with i Cons.prems(1) show ?thesis by (simp add: upt_conv_Cons free_slot_def)
  next
    case (Inr t)
    with free_proc_same [OF this] Cons.prems(1) have "old_procs t = Arr xs"
      by (simp add: arrays_same_def rest_same_def)
    moreover have "\<forall>j<length as. xs ! (Suc i + j) = Some (as ! j)"
      using Cons.prems(3) by fastforce
    ultimately show ?thesis
      using Cons.IH [of t "Suc i"] Inr i Cons.prems by (simp add: upt_conv_Cons free_slot_def)
  qed
qed

lemma free_old_ok:
  assumes "owns olds news lost s" "holds_procs (old_procs s) (num_old_procs s) olds"
  shows "\<exists>s'. free_old_procs s = Inr s' \<and> owns [] news lost s' \<and> old_procs s' = Freed
    \<and> kept news s s' \<and> new_procs s' = new_procs s \<and> num_new_procs s' = num_new_procs s
    \<and> new_cpu s' = new_cpu s \<and> live (heap s') = live (heap s)"
proof -
  from assms(2) obtain k where k: "old_procs s = Arr (map Some olds @ replicate k None)"
    "num_old_procs s = length (map Some olds @ replicate k None)" by (auto simp: holds_procs_def)
  from assms(1) have o: "pool_ok s" "distinct olds" "set olds \<subseteq> used s"
    "used s = set olds \<union> set news \<union> lost" "distinct (olds @ news)" "lost \<inter> set (olds @ news) = {}"
    by (auto simp: owns_def)
  from pool.free_list [OF o(1-3)] obtain t where
    t: "foldM free_proc olds s = Inr t" "used t = used s - set olds" "pool_ok t" by blast
  have same: "arrays_same s t \<and> (\<forall>b. b \<notin> set olds \<longrightarrow> cells (heap t) b = cells (heap s) b)
      \<and> live (heap t) = live (heap s)"
    by (rule foldM_inv [OF t(1), where P = "\<lambda>u. arrays_same s u \<and> (\<forall>b. b \<notin> set olds \<longrightarrow> cells (heap u) b = cells (heap s) b)
      \<and> live (heap u) = live (heap s)"])
       (auto dest!: free_proc_same intro: arrays_same_trans, metis)
  then have "old_procs t = old_procs s" by (simp add: arrays_same_def rest_same_def)
  moreover have "foldM free_slot [0..<num_old_procs s] s = Inr t"
  proof -
    let ?xs = "map Some olds @ replicate k None"
    have "\<forall>j<length olds. ?xs ! (0 + j) = Some (olds ! j)" by (simp add: nth_append)
    moreover have "\<forall>j. 0 + length olds \<le> j \<and> j < length ?xs \<longrightarrow> ?xs ! j = None"
      by (auto simp: nth_append less_diff_conv2)
    ultimately show ?thesis unfolding k(2) using free_loop [OF k(1), of 0 olds] t(1) by simp
  qed
  ultimately have "free_old_procs s = Inr (t\<lparr>old_procs := Freed\<rparr>)"
    using k(1) by (simp add: free_old_procs_def)
  moreover have "owns [] news lost (t\<lparr>old_procs := Freed\<rparr>)"
    using t(2,3) o(4,5,6) pool_frame [of "t\<lparr>old_procs := Freed\<rparr>" t] by (auto simp: owns_def)
  moreover have "kept news s (t\<lparr>old_procs := Freed\<rparr>)"
    using same o(5) by (auto simp: kept_def)
  ultimately show ?thesis
    using same by (intro exI [of _ "t\<lparr>old_procs := Freed\<rparr>"]) (simp add: arrays_same_def rest_same_def)
qed

end
