(* ===== verification/TopView.thy ===== *)
theory TopView
  imports TopArgs TopProcs "HOL-Library.Signed_Division"
begin

text \<open>
  \<open>print_procs\<close> of \<open>top.c\<close>: the CPU time of every process since the snapshot before, the order
  of the rows, the rows themselves; and the loop of \<open>main\<close>. The C library's \<open>qsort\<close>, the page
  size and the user names are parameters.
\<close>

section \<open>Parameters and output\<close>

type_synonym ptr = "(nat \<times> tproc) option"

record env =
  env_ok :: "nat \<Rightarrow> bool"
  env_junk :: junk
  env_qsort :: "(ptr \<Rightarrow> ptr \<Rightarrow> int) \<Rightarrow> ptr list \<Rightarrow> ptr list"
  env_page :: int
  env_user :: "u32 \<Rightarrow> string option"

datatype top_line =
    Pct_line u64 u64 u64 u64
  | Sum_line u64 u64 u64 u64 u64 u64 u64 u64
  | Head_line bool
  | Proc_row int u64 char int int int string string string
  | Thread_row int int u64 char int int string string string string

section \<open>CPU time of the processes\<close>

fun find_old :: "top \<Rightarrow> int \<Rightarrow> int \<Rightarrow> nat list \<Rightarrow> nat option outcome" where
  "find_old s pid tid [] = Inr None"
| "find_old s pid tid (i # js) =
     bnd (buf_get (old_procs s) i) (\<lambda>x.
       case x of
         None \<Rightarrow> find_old s pid tid js
       | Some a \<Rightarrow> bnd (kread a (heap s)) (\<lambda>p.
           if p_pid p = pid \<and> p_tid p = tid then Inr (Some a) else find_old s pid tid js))"

definition find_old_proc :: "top \<Rightarrow> int \<Rightarrow> int \<Rightarrow> nat option outcome" where
  "find_old_proc s pid tid = find_old s pid tid [0..<num_old_procs s]"

definition delta_from :: "tproc option \<Rightarrow> tproc \<Rightarrow> tproc" where
  "delta_from q p =
     (let du = (case q of None \<Rightarrow> 0 | Some q \<Rightarrow> p_utime p - p_utime q);
          ds = (case q of None \<Rightarrow> 0 | Some q \<Rightarrow> p_stime p - p_stime q)
      in p\<lparr>p_delta_utime := du, p_delta_stime := ds, p_delta_time := du + ds\<rparr>)"

definition set_delta :: "nat \<Rightarrow> top \<Rightarrow> top outcome" where
  "set_delta i s =
     bnd (buf_get (new_procs s) i) (\<lambda>x.
       case x of
         None \<Rightarrow> Inr s
       | Some a \<Rightarrow>
           bnd (kread a (heap s)) (\<lambda>p.
           bnd (find_old_proc s (p_pid p) (p_tid p)) (\<lambda>old_proc.
           bnd (case old_proc of None \<Rightarrow> Inr None | Some b \<Rightarrow> bnd (kread b (heap s)) (\<lambda>q. Inr (Some q)))
               (\<lambda>q. bnd (kwrite a (delta_from q p) (heap s)) (\<lambda>m. Inr (s\<lparr>heap := m\<rparr>))))))"

definition cpu_sum :: "cpu_info \<Rightarrow> u64" where
  "cpu_sum c = c_utime c + c_ntime c + c_stime c + c_itime c + c_iowtime c + c_irqtime c + c_sirqtime c"

definition total_delta_time :: "top \<Rightarrow> u64" where
  "total_delta_time s = cpu_sum (new_cpu s) - cpu_sum (old_cpu s)"

section \<open>Order\<close>

definition numcmp :: "int \<Rightarrow> int \<Rightarrow> int" where
  "numcmp a b = (if a < b then -1 else if a > b then 1 else 0)"

definition with_nulls :: "(tproc \<Rightarrow> tproc \<Rightarrow> int) \<Rightarrow> ptr \<Rightarrow> ptr \<Rightarrow> int" where
  "with_nulls f pa pb =
     (case pa of
        None \<Rightarrow> (case pb of None \<Rightarrow> 0 | Some _ \<Rightarrow> 1)
      | Some a \<Rightarrow> (case pb of None \<Rightarrow> -1 | Some b \<Rightarrow> f (snd a) (snd b)))"

text \<open>\<open>delta_time\<close> is unsigned and is converted to \<open>long long\<close>.\<close>

definition proc_cpu_cmp :: "ptr \<Rightarrow> ptr \<Rightarrow> int" where
  "proc_cpu_cmp = with_nulls (\<lambda>a b. - numcmp (sint (p_delta_time a)) (sint (p_delta_time b)))"

definition proc_vss_cmp :: "ptr \<Rightarrow> ptr \<Rightarrow> int" where
  "proc_vss_cmp = with_nulls (\<lambda>a b. - numcmp (p_vss a) (p_vss b))"

definition proc_rss_cmp :: "ptr \<Rightarrow> ptr \<Rightarrow> int" where
  "proc_rss_cmp = with_nulls (\<lambda>a b. - numcmp (p_rss a) (p_rss b))"

definition proc_thr_cmp :: "ptr \<Rightarrow> ptr \<Rightarrow> int" where
  "proc_thr_cmp = with_nulls (\<lambda>a b. - numcmp (p_num_threads a) (p_num_threads b))"

fun cmp_procs :: "column \<Rightarrow> ptr \<Rightarrow> ptr \<Rightarrow> int" where
  "cmp_procs Cpu = proc_cpu_cmp"
| "cmp_procs Vss = proc_vss_cmp"
| "cmp_procs Rss = proc_rss_cmp"
| "cmp_procs Thr = proc_thr_cmp"

fun deref_all :: "top \<Rightarrow> nat option list \<Rightarrow> ptr list outcome" where
  "deref_all s [] = Inr []"
| "deref_all s (None # xs) = bnd (deref_all s xs) (\<lambda>ps. Inr (None # ps))"
| "deref_all s (Some a # xs) =
     bnd (kread a (heap s)) (\<lambda>p. bnd (deref_all s xs) (\<lambda>ps. Inr (Some (a, p) # ps)))"

definition sort_procs :: "env \<Rightarrow> column \<Rightarrow> top \<Rightarrow> top outcome" where
  "sort_procs E col s =
     (case new_procs s of
        NullP \<Rightarrow> Inl Null_deref
      | Freed \<Rightarrow> Inl Use_after_free
      | Arr xs \<Rightarrow>
          if length xs < num_new_procs s then Inl Out_of_bounds
          else bnd (deref_all s (take (num_new_procs s) xs)) (\<lambda>ps.
            Inr (s\<lparr>new_procs := Arr (map (map_option fst) (env_qsort E (cmp_procs col) ps)
                                     @ drop (num_new_procs s) xs)\<rparr>)))"

section \<open>Rows\<close>

text \<open>
  The user column shows at most eight characters. The policy column shows a field that no
  statement writes: the body of \<open>read_policy\<close> is commented out.
\<close>

definition user_str :: "env \<Rightarrow> tproc \<Rightarrow> string" where
  "user_str E p =
     take 8 (case env_user E (p_uid p) of Some n \<Rightarrow> n | None \<Rightarrow> take 19 (show_int (sint (p_uid p))))"

definition row_of :: "env \<Rightarrow> bool \<Rightarrow> u64 \<Rightarrow> tproc \<Rightarrow> top_line" where
  "row_of E thr tot p =
     (if \<not> thr then
        Proc_row (p_pid p) (p_delta_time p * 100 div tot) (p_state p) (p_num_threads p)
          (p_vss p sdiv 1024) (p_rss p * env_page E sdiv 1024) (p_policy p) (user_str E p)
          (if p_name p \<noteq> [] then p_name p else p_tname p)
      else
        Thread_row (p_pid p) (p_tid p) (p_delta_time p * 100 div tot) (p_state p)
          (p_vss p sdiv 1024) (p_rss p * env_page E sdiv 1024) (p_policy p) (user_str E p)
          (p_tname p) (p_name p))"

fun print_rows :: "env \<Rightarrow> cfg \<Rightarrow> u64 \<Rightarrow> top \<Rightarrow> nat list \<Rightarrow> top_line list outcome" where
  "print_rows E c tot s [] = Inr []"
| "print_rows E c tot s (i # js) =
     bnd (buf_get (new_procs s) i) (\<lambda>x.
       case x of
         None \<Rightarrow> Inr []
       | Some a \<Rightarrow>
           if max_procs c \<noteq> 0 \<and> int i \<ge> max_procs c then Inr []
           else bnd (kread a (heap s)) (\<lambda>p.
             if tot = 0 then Inl Div_by_zero
             else bnd (print_rows E c tot s js) (\<lambda>rows. Inr (row_of E (threads c) tot p # rows))))"

definition head_lines :: "bool \<Rightarrow> top \<Rightarrow> top_line list outcome" where
  "head_lines thr s =
     (let n = new_cpu s; p = old_cpu s; tot = total_delta_time s
      in if tot = 0 then Inl Div_by_zero
         else Inr [Pct_line
                     (((c_utime n + c_ntime n) - (c_utime p + c_ntime p)) * 100 div tot)
                     ((c_stime n - c_stime p) * 100 div tot)
                     ((c_iowtime n - c_iowtime p) * 100 div tot)
                     (((c_irqtime n + c_sirqtime n) - (c_irqtime p + c_sirqtime p)) * 100 div tot),
                   Sum_line (c_utime n - c_utime p) (c_ntime n - c_ntime p) (c_stime n - c_stime p)
                     (c_itime n - c_itime p) (c_iowtime n - c_iowtime p) (c_irqtime n - c_irqtime p)
                     (c_sirqtime n - c_sirqtime p) tot,
                   Head_line thr])"

definition print_procs :: "env \<Rightarrow> cfg \<Rightarrow> top \<Rightarrow> (top_line list \<times> top) outcome" where
  "print_procs E c s =
     bnd (foldM set_delta [0..<num_new_procs s] s) (\<lambda>s.
     bnd (sort_procs E (proc_cmp c) s) (\<lambda>s.
     bnd (head_lines (threads c) s) (\<lambda>hd.
     bnd (print_rows E c (total_delta_time s) s [0..<num_new_procs s]) (\<lambda>rows.
       Inr (hd @ rows, s)))))"

section \<open>main\<close>

text \<open>The body of the loop; \<open>fs\<close> is what \<open>/proc\<close> shows after the pause.\<close>

definition top_frame :: "env \<Rightarrow> cfg \<Rightarrow> procfs \<Rightarrow> top \<Rightarrow> (top_line list \<times> top) run" where
  "top_frame E c fs s =
     bnd (read_procs (env_ok E) (env_junk E) (threads c) fs
            (s\<lparr>old_procs := new_procs s, num_old_procs := num_new_procs s, old_cpu := new_cpu s\<rparr>))
         (\<lambda>s. bnd (lift_fault (print_procs E c s)) (\<lambda>(out, s).
              bnd (free_old_procs s) (\<lambda>s. Inr (out, s))))"

text \<open>
  The loop runs while \<open>iterations\<close> is -1 or was positive before its decrement. The \<open>k\<close>-th frame
  sees \<open>fs k\<close>. The result is none when the loop does not end.
\<close>

partial_function (option) top_loop ::
  "env \<Rightarrow> cfg \<Rightarrow> (nat \<Rightarrow> procfs) \<Rightarrow> nat \<Rightarrow> int \<Rightarrow> top \<Rightarrow> (top_line list list \<times> top) run option" where
  "top_loop E c fs k it s =
     (if it = -1 \<or> it > 0 then
        (case top_frame E c (fs k) s of
           Inl e \<Rightarrow> Some (Inl e)
         | Inr (out, s) \<Rightarrow>
             Option.bind (top_loop E c fs (Suc k) (if it = -1 then -1 else it - 1) s)
               (\<lambda>r. Some (bnd r (\<lambda>(outs, s). Inr (out # outs, s)))))
      else Some (Inr ([], s)))"

definition zero_cpu :: cpu_info where
  "zero_cpu = \<lparr>c_utime = 0, c_ntime = 0, c_stime = 0, c_itime = 0, c_iowtime = 0, c_irqtime = 0,
              c_sirqtime = 0\<rparr>"

definition top_zero :: top where
  "top_zero = \<lparr>heap = kmem_empty, free_procs = None, num_used_procs = 0, num_free_procs = 0,
              old_procs = NullP, num_old_procs = 0, new_procs = NullP, num_new_procs = 0,
              old_cpu = zero_cpu, new_cpu = zero_cpu\<rparr>"

datatype exit = Usage | Bad_args complaint | Stopped stop | Done "top_line list list"

definition top_main :: "env \<Rightarrow> string list \<Rightarrow> (nat \<Rightarrow> procfs) \<Rightarrow> exit option" where
  "top_main E argv fs =
     (case parse_args argv default_cfg of
        Help \<Rightarrow> Some Usage
      | Fail m \<Rightarrow> Some (Bad_args m)
      | Run c \<Rightarrow>
          (case read_procs (env_ok E) (env_junk E) (threads c) (fs 0) top_zero of
             Inl e \<Rightarrow> Some (Stopped e)
           | Inr s \<Rightarrow>
               map_option (\<lambda>r. case r of Inl e \<Rightarrow> Stopped e | Inr (outs, s) \<Rightarrow> Done outs)
                 (top_loop E c fs 1 (iterations c) s)))"

section \<open>Lemmas on the deltas\<close>

definition proc_of :: "top \<Rightarrow> nat \<Rightarrow> tproc" where
  "proc_of s a = the (cells (heap s) a)"

text \<open>The record of the snapshot before that stands for the same thread, if there is one.\<close>

definition with_delta :: "top \<Rightarrow> nat list \<Rightarrow> nat \<Rightarrow> tproc" where
  "with_delta s olds a =
     delta_from (map_option (proc_of s) (List.find (\<lambda>b. ident s b = ident s a) olds)) (proc_of s a)"

lemma find_old_nulls:
  "\<forall>i\<in>set js. buf_get (old_procs s) i = Inr None \<Longrightarrow> find_old s pid tid js = Inr None"
  by (induction js) auto

lemma find_old_slots:
  assumes "old_procs s = Arr xs" "i + length as \<le> length xs" "set as \<subseteq> live (heap s)"
    and "\<forall>j<length as. xs ! (i + j) = Some (as ! j)"
    and "\<forall>j. i + length as \<le> j \<and> j < length xs \<longrightarrow> xs ! j = None"
  shows "find_old s pid tid [i..<length xs] = Inr (List.find (\<lambda>b. ident s b = (pid, tid)) as)"
  using assms
proof (induction as arbitrary: i)
  case Nil
  then show ?case by (auto intro: find_old_nulls)
next
  case (Cons a as)
  then have i: "i < length xs" "xs ! i = Some a" by fastforce+
  from Cons.prems(3) kread_live [of a "heap s"] obtain p where
    p: "kread a (heap s) = Inr p" "cells (heap s) a = Some p" by auto
  have "\<forall>j<length as. xs ! (Suc i + j) = Some (as ! j)" using Cons.prems(4) by fastforce
  then have "find_old s pid tid [Suc i..<length xs] = Inr (List.find (\<lambda>b. ident s b = (pid, tid)) as)"
    using Cons.IH [of "Suc i"] Cons.prems by simp
  with i p Cons.prems(1) show ?case by (simp add: upt_conv_Cons ident_def)
qed

lemma holds_procs_slots:
  assumes "holds_procs arr n as"
  shows "\<exists>xs. arr = Arr xs \<and> n = length xs \<and> 0 + length as \<le> length xs
    \<and> (\<forall>j<length as. xs ! (0 + j) = Some (as ! j))
    \<and> (\<forall>j. 0 + length as \<le> j \<and> j < length xs \<longrightarrow> xs ! j = None)"
proof -
  from assms obtain k where k: "arr = Arr (map Some as @ replicate k None)" "n = length as + k"
    by (auto simp: holds_procs_def)
  have "\<forall>j. length as \<le> j \<and> j < length as + k \<longrightarrow> (map Some as @ replicate k None) ! j = None"
    by (auto simp: nth_append less_diff_conv2)
  then show ?thesis using k by (intro exI [of _ "map Some as @ replicate k None"]) (simp add: nth_append)
qed

lemma find_old_proc_ok:
  assumes "holds_procs (old_procs s) (num_old_procs s) olds" "set olds \<subseteq> live (heap s)"
  shows "find_old_proc s pid tid = Inr (List.find (\<lambda>b. ident s b = (pid, tid)) olds)"
proof -
  from holds_procs_slots [OF assms(1)] obtain xs where
    "old_procs s = Arr xs" "num_old_procs s = length xs" "0 + length olds \<le> length xs"
    "\<forall>j<length olds. xs ! (0 + j) = Some (olds ! j)"
    "\<forall>j. 0 + length olds \<le> j \<and> j < length xs \<longrightarrow> xs ! j = None" by blast
  with find_old_slots [of s xs 0 olds] assms(2) show ?thesis by (simp add: find_old_proc_def)
qed

lemma delta_from_ident [simp]:
  "p_pid (delta_from q p) = p_pid p" "p_tid (delta_from q p) = p_tid p" "p_next (delta_from q p) = p_next p"
  by (simp_all add: delta_from_def Let_def)

text \<open>The body of the loop for the record \<open>a\<close> of the new array.\<close>

lemma set_delta_one:
  assumes "buf_get (new_procs s) i = Inr (Some a)" "holds_procs (old_procs s) (num_old_procs s) olds"
    and "set olds \<subseteq> used s" "a \<in> used s" "pool_ok s"
  shows "\<exists>m. set_delta i s = Inr (s\<lparr>heap := m\<rparr>) \<and> cells m = (cells (heap s))(a \<mapsto> with_delta s olds a)
    \<and> pool_ok (s\<lparr>heap := m\<rparr>) \<and> used (s\<lparr>heap := m\<rparr>) = used s"
proof -
  have ul: "used s \<subseteq> live (heap s)" by (auto simp: used_def)
  with assms(4) obtain p where p: "kread a (heap s) = Inr p" "cells (heap s) a = Some p"
    using kread_live [of a "heap s"] by blast
  have id: "ident s a = (p_pid p, p_tid p)" "proc_of s a = p" using p(2) by (simp_all add: ident_def proc_of_def)
  let ?o = "List.find (\<lambda>b. ident s b = (p_pid p, p_tid p)) olds"
  have f: "find_old_proc s (p_pid p) (p_tid p) = Inr ?o"
    using find_old_proc_ok [OF assms(2)] assms(3) ul by blast
  have q: "(case ?o of None \<Rightarrow> Inr None | Some b \<Rightarrow> bnd (kread b (heap s)) (\<lambda>q. Inr (Some q)))
      = Inr (map_option (proc_of s) ?o)"
  proof (cases ?o)
    case (Some b)
    then have "b \<in> live (heap s)" using assms(3) ul find_in_set [OF Some] by blast
    with Some kread_live [of b "heap s"] show ?thesis by (auto simp: proc_of_def)
  qed simp
  have d: "delta_from (map_option (proc_of s) ?o) p = with_delta s olds a" by (simp add: with_delta_def id)
  from assms(4) ul have "a \<in> live (heap s)" by blast
  from kwrite_live [OF this, of "with_delta s olds a"] obtain m where
    m: "kwrite a (with_delta s olds a) (heap s) = Inr m"
      "cells m = (cells (heap s))(a \<mapsto> with_delta s olds a)" "brk m = brk (heap s)" by blast
  have "set_delta i s = Inr (s\<lparr>heap := m\<rparr>)"
    using assms(1) p(1) f q m(1) by (simp add: set_delta_def d)
  with pool_heap_only [OF assms(5) m(2) assms(4) m(3)] m(2) show ?thesis by blast
qed

lemma set_delta_nulls:
  "\<forall>i\<in>set js. buf_get (new_procs s) i = Inr None \<Longrightarrow> foldM set_delta js s = Inr s"
  by (induction js) (auto simp: set_delta_def)

lemma set_delta_loop:
  assumes "new_procs s = Arr xs" "i + length as \<le> length xs"
    and "\<forall>j<length as. xs ! (i + j) = Some (as ! j)"
    and "\<forall>j. i + length as \<le> j \<and> j < length xs \<longrightarrow> xs ! j = None"
    and "holds_procs (old_procs s) (num_old_procs s) olds" "set olds \<subseteq> used s" "set as \<subseteq> used s"
    and "pool_ok s" "distinct as" "set olds \<inter> set as = {}"
  shows "\<exists>s'. foldM set_delta [i..<length xs] s = Inr s' \<and> pool_ok s' \<and> used s' = used s
    \<and> arrays_same s s' \<and> (\<forall>a\<in>set as. cells (heap s') a = Some (with_delta s olds a))
    \<and> (\<forall>b. b \<notin> set as \<longrightarrow> cells (heap s') b = cells (heap s) b)"
  using assms
proof (induction as arbitrary: i s)
  case Nil
  then have "foldM set_delta [i..<length xs] s = Inr s" by (intro set_delta_nulls) auto
  with Nil show ?case by simp
next
  case (Cons a as)
  then have i: "i < length xs" "xs ! i = Some a" by fastforce+
  then have "buf_get (new_procs s) i = Inr (Some a)" using Cons.prems(1) by simp
  from set_delta_one [OF this Cons.prems(5,6) _ Cons.prems(8)] Cons.prems(7) obtain m where
    m: "set_delta i s = Inr (s\<lparr>heap := m\<rparr>)" "cells m = (cells (heap s))(a \<mapsto> with_delta s olds a)"
      "pool_ok (s\<lparr>heap := m\<rparr>)" "used (s\<lparr>heap := m\<rparr>) = used s" by auto
  let ?s1 = "s\<lparr>heap := m\<rparr>"
  have "\<forall>j<length as. xs ! (Suc i + j) = Some (as ! j)" using Cons.prems(3) by fastforce
  then have "\<exists>s'. foldM set_delta [Suc i..<length xs] ?s1 = Inr s' \<and> pool_ok s' \<and> used s' = used ?s1
    \<and> arrays_same ?s1 s' \<and> (\<forall>a\<in>set as. cells (heap s') a = Some (with_delta ?s1 olds a))
    \<and> (\<forall>b. b \<notin> set as \<longrightarrow> cells (heap s') b = cells (heap ?s1) b)"
    using Cons.prems i m(3,4) by (intro Cons.IH) auto
  then obtain s' where s': "foldM set_delta [Suc i..<length xs] ?s1 = Inr s'" "pool_ok s'"
    "used s' = used ?s1" "arrays_same ?s1 s'"
    "\<forall>a\<in>set as. cells (heap s') a = Some (with_delta ?s1 olds a)"
    "\<forall>b. b \<notin> set as \<longrightarrow> cells (heap s') b = cells (heap ?s1) b" by blast
  have na: "a \<notin> set as" "a \<notin> set olds" using Cons.prems(9,10) by auto
  have wd: "with_delta ?s1 olds b = with_delta s olds b" if "b \<in> set as" for b
  proof -
    have "b \<noteq> a" using that na by blast
    then have "ident ?s1 b = ident s b" "proc_of ?s1 b = proc_of s b"
      using m(2) by (simp_all add: ident_def proc_of_def)
    moreover have id: "ident ?s1 c = ident s c" "proc_of ?s1 c = proc_of s c" if "c \<in> set olds" for c
    proof -
      from that na(2) have "c \<noteq> a" by blast
      with m(2) show "ident ?s1 c = ident s c" "proc_of ?s1 c = proc_of s c"
        by (simp_all add: ident_def proc_of_def)
    qed
    moreover have "List.find (\<lambda>c. ident ?s1 c = ident s b) olds = List.find (\<lambda>c. ident s c = ident s b) olds"
      by (intro find_cong) (simp_all add: id)
    moreover have "map_option (proc_of ?s1) (List.find (\<lambda>c. ident s c = ident s b) olds)
        = map_option (proc_of s) (List.find (\<lambda>c. ident s c = ident s b) olds)"
      by (intro option.map_cong) (auto intro: id dest: find_in_set)
    ultimately show ?thesis by (simp add: with_delta_def)
  qed
  have "foldM set_delta [i..<length xs] s = Inr s'" using m(1) s'(1) i(1) by (simp add: upt_conv_Cons)
  moreover have "arrays_same s s'" using s'(4) by (simp add: arrays_same_def rest_same_def)
  ultimately show ?case
    using s' m wd na by (intro exI [of _ s']) auto
qed

section \<open>Lemmas on the order and the rows\<close>

fun key :: "column \<Rightarrow> tproc \<Rightarrow> int" where
  "key Cpu p = sint (p_delta_time p)"
| "key Vss p = p_vss p"
| "key Rss p = p_rss p"
| "key Thr p = p_num_threads p"

text \<open>What the code relies on of the C library's \<open>qsort\<close>.\<close>

definition qsorts :: "env \<Rightarrow> bool" where
  "qsorts E \<longleftrightarrow>
     (\<forall>cmp xs. mset (env_qsort E cmp xs) = mset xs)
     \<and> (\<forall>col xs. sorted_wrt (\<lambda>x y. cmp_procs col x y \<le> 0) (env_qsort E (cmp_procs col) xs))"

lemma numcmp_le: "0 \<le> numcmp a b \<longleftrightarrow> b \<le> a"
  by (simp add: numcmp_def)

lemma cmp_procs_alt: "cmp_procs col = with_nulls (\<lambda>a b. - numcmp (key col a) (key col b))"
  by (cases col) (simp_all add: proc_cpu_cmp_def proc_vss_cmp_def proc_rss_cmp_def proc_thr_cmp_def)

lemma cmp_procs_le:
  "cmp_procs col x y \<le> 0 \<longleftrightarrow>
     (case x of None \<Rightarrow> y = None
      | Some a \<Rightarrow> (case y of None \<Rightarrow> True | Some b \<Rightarrow> key col (snd b) \<le> key col (snd a)))"
  by (cases x; cases y) (simp_all add: cmp_procs_alt with_nulls_def numcmp_le)

lemma nulls_last:
  "sorted_wrt (\<lambda>x y. x = None \<longrightarrow> y = None) qs \<Longrightarrow> \<exists>rs k. qs = map Some rs @ replicate k None"
proof (induction qs)
  case Nil
  show ?case by (intro exI [of _ "[]"] exI [of _ 0]) simp
next
  case (Cons q qs)
  then obtain rs k where qs: "qs = map Some rs @ replicate k None" by auto
  show ?case
  proof (cases q)
    case None
    with Cons.prems qs have "rs = []" by (cases rs) auto
    with None qs show ?thesis by (intro exI [of _ "[]"] exI [of _ "Suc k"]) simp
  next
    case (Some r)
    with qs show ?thesis by (intro exI [of _ "r # rs"] exI [of _ k]) simp
  qed
qed

lemma deref_all_holds:
  "set as \<subseteq> live (heap s) \<Longrightarrow>
     deref_all s (map Some as @ replicate k None)
     = Inr (map (\<lambda>a. Some (a, proc_of s a)) as @ replicate k None)"
proof (induction as)
  case Nil
  show ?case by (induction k) simp_all
next
  case (Cons a as)
  from Cons.prems kread_live [of a "heap s"] obtain p where
    "kread a (heap s) = Inr p" "cells (heap s) a = Some p" by auto
  with Cons show ?case by (simp add: proc_of_def)
qed

lemma mset_somes:
  assumes "mset (map Some rs @ replicate k None) = mset (map Some ts @ replicate l None)"
  shows "mset rs = mset ts" "k = l"
proof -
  have f: "filter (\<lambda>x. x \<noteq> None) (map Some rs @ replicate k None) = map Some rs" for rs :: "'a list" and k
    by (induction rs) simp_all
  from arg_cong [OF assms, of "filter_mset (\<lambda>x. x \<noteq> None)"]
  have "mset (map Some rs) = mset (map Some ts)" by (simp only: f flip: mset_filter)
  then have "image_mset the (mset (map Some rs)) = image_mset the (mset (map Some ts))" by simp
  then show "mset rs = mset ts" by (simp add: image_mset.compositionality comp_def)
  from mset_eq_length [OF assms] mset_eq_length [OF this] show "k = l" by simp
qed

lemma sort_procs_ok:
  assumes "holds_procs (new_procs s) (num_new_procs s) as" "set as \<subseteq> live (heap s)" "qsorts E"
  shows "\<exists>arr as'. sort_procs E col s = Inr (s\<lparr>new_procs := arr\<rparr>)
    \<and> holds_procs arr (num_new_procs s) as' \<and> mset as' = mset as
    \<and> sorted_wrt (\<lambda>a b. key col (proc_of s b) \<le> key col (proc_of s a)) as'"
proof -
  from assms(1) obtain k where k: "new_procs s = Arr (map Some as @ replicate k None)"
    "num_new_procs s = length as + k" "0 < num_new_procs s" by (auto simp: holds_procs_def)
  let ?ts = "map (\<lambda>a. (a, proc_of s a)) as"
  let ?ps = "map (\<lambda>a. Some (a, proc_of s a)) as @ replicate k None"
  define qs where "qs = env_qsort E (cmp_procs col) ?ps"
  have ms: "mset qs = mset ?ps" and so: "sorted_wrt (\<lambda>x y. cmp_procs col x y \<le> 0) qs"
    using assms(3) by (simp_all add: qsorts_def qs_def)
  have "sorted_wrt (\<lambda>x y. x = None \<longrightarrow> y = None) qs"
    by (rule sorted_wrt_mono_rel [OF _ so]) (simp add: cmp_procs_le split: option.splits)
  from nulls_last [OF this] obtain rs l where qs: "qs = map Some rs @ replicate l None" by blast
  have "mset (map Some rs @ replicate l None) = mset (map Some ?ts @ replicate k None)"
    using ms by (simp only: qs list.map_comp comp_def)
  note rs = mset_somes [OF this]
  let ?as' = "map fst rs"
  have "mset ?as' = image_mset fst (mset ?ts)" by (simp only: mset_map rs(1))
  also have "\<dots> = mset as" by (simp add: image_mset.compositionality comp_def)
  finally have ma: "mset ?as' = mset as" .
  have pr: "snd r = proc_of s (fst r)" if "r \<in> set rs" for r
    using that mset_eq_setD [OF rs(1)] by auto
  have "sorted_wrt (\<lambda>a b. key col (snd b) \<le> key col (snd a)) rs"
    using so by (simp add: qs sorted_wrt_append sorted_wrt_map cmp_procs_le)
  then have "sorted_wrt (\<lambda>a b. key col (proc_of s (fst b)) \<le> key col (proc_of s (fst a))) rs"
    by (rule sorted_wrt_mono_rel [rotated]) (simp add: pr)
  then have sa: "sorted_wrt (\<lambda>a b. key col (proc_of s b) \<le> key col (proc_of s a)) ?as'"
    by (simp add: sorted_wrt_map)
  let ?arr = "Arr (map (map_option fst) qs)"
  have "sort_procs E col s = Inr (s\<lparr>new_procs := ?arr\<rparr>)"
    using k deref_all_holds [OF assms(2), of k] by (simp add: sort_procs_def qs_def)
  moreover have "holds_procs ?arr (num_new_procs s) ?as'"
    using k(2,3) rs(2) mset_eq_length [OF ma] by (simp add: holds_procs_def qs comp_def)
  ultimately show ?thesis using ma sa by blast
qed

text \<open>The records that are shown.\<close>

definition limit :: "cfg \<Rightarrow> nat list \<Rightarrow> nat list" where
  "limit c as = (if max_procs c = 0 then as else take (nat (max_procs c)) as)"

lemma print_rows_slots:
  assumes "new_procs s = Arr xs" "i + length as \<le> length xs" "set as \<subseteq> live (heap s)"
    and "\<forall>j<length as. xs ! (i + j) = Some (as ! j)"
    and "\<forall>j. i + length as \<le> j \<and> j < length xs \<longrightarrow> xs ! j = None" and "tot \<noteq> 0"
  shows "print_rows E c tot s [i..<length xs]
    = Inr (map (row_of E (threads c) tot \<circ> proc_of s)
        (if max_procs c = 0 then as else take (nat (max_procs c) - i) as))"
  using assms
proof (induction as arbitrary: i)
  case Nil
  then show ?case by (cases "i < length xs") (simp_all add: upt_conv_Cons)
next
  case (Cons a as)
  then have i: "i < length xs" "xs ! i = Some a" by fastforce+
  from Cons.prems(3) kread_live [of a "heap s"] obtain p where
    p: "kread a (heap s) = Inr p" "cells (heap s) a = Some p" by auto
  have "\<forall>j<length as. xs ! (Suc i + j) = Some (as ! j)" using Cons.prems(4) by fastforce
  then have ih: "print_rows E c tot s [Suc i..<length xs] = Inr (map (row_of E (threads c) tot \<circ> proc_of s)
        (if max_procs c = 0 then as else take (nat (max_procs c) - Suc i) as))"
    using Cons.IH [of "Suc i"] Cons.prems by simp
  show ?case
  proof (cases "max_procs c \<noteq> 0 \<and> max_procs c \<le> int i")
    case True
    then have "nat (max_procs c) - i = 0" by linarith
    with True i Cons.prems(1) show ?thesis by (simp add: upt_conv_Cons)
  next
    case False
    then have "max_procs c = 0 \<or> nat (max_procs c) - i = Suc (nat (max_procs c) - Suc i)" by linarith
    with False i p ih Cons.prems(1,6) show ?thesis
      by (auto simp: upt_conv_Cons proc_of_def)
  qed
qed

lemma print_rows_ok:
  assumes "holds_procs (new_procs s) (num_new_procs s) as" "set as \<subseteq> live (heap s)" "tot \<noteq> 0"
  shows "print_rows E c tot s [0..<num_new_procs s]
    = Inr (map (row_of E (threads c) tot \<circ> proc_of s) (limit c as))"
proof -
  from holds_procs_slots [OF assms(1)] obtain xs where
    "new_procs s = Arr xs" "num_new_procs s = length xs" "0 + length as \<le> length xs"
    "\<forall>j<length as. xs ! (0 + j) = Some (as ! j)"
    "\<forall>j. 0 + length as \<le> j \<and> j < length xs \<longrightarrow> xs ! j = None" by blast
  with print_rows_slots [of s xs 0 as tot E c] assms(2,3) show ?thesis by (simp add: limit_def)
qed

text \<open>The first two steps of \<open>print_procs\<close>: the deltas and the order.\<close>

lemma print_sorted:
  assumes ow: "owns olds news lost s"
    and h: "holds_procs (old_procs s) (num_old_procs s) olds" "holds_procs (new_procs s) (num_new_procs s) news"
    and q: "qsorts E"
  shows "\<exists>s1 as' s2. foldM set_delta [0..<num_new_procs s] s = Inr s1
    \<and> sort_procs E (proc_cmp c) s1 = Inr s2 \<and> mset as' = mset news
    \<and> sorted_wrt (\<lambda>a b. key (proc_cmp c) (with_delta s olds b) \<le> key (proc_cmp c) (with_delta s olds a)) as'
    \<and> owns olds as' lost s2 \<and> holds_procs (new_procs s2) (num_new_procs s2) as' \<and> rest_same s s2
    \<and> (\<forall>a\<in>set as'. proc_of s2 a = with_delta s olds a) \<and> set as' \<subseteq> live (heap s2)"
proof -
  from holds_procs_slots [OF h(2)] obtain xs where
    xs: "new_procs s = Arr xs" "num_new_procs s = length xs" "0 + length news \<le> length xs"
    "\<forall>j<length news. xs ! (0 + j) = Some (news ! j)"
    "\<forall>j. 0 + length news \<le> j \<and> j < length xs \<longrightarrow> xs ! j = None" by blast
  from ow have o: "pool_ok s" "set olds \<subseteq> used s" "set news \<subseteq> used s" "distinct news"
    "set olds \<inter> set news = {}" by (auto simp: owns_def)
  from set_delta_loop [OF xs(1,3,4,5) h(1) o(2,3,1,4,5)] obtain s1 where
    s1: "foldM set_delta [0..<length xs] s = Inr s1" "pool_ok s1" "used s1 = used s" "arrays_same s s1"
      "\<forall>a\<in>set news. cells (heap s1) a = Some (with_delta s olds a)" by blast
  have lv: "set news \<subseteq> live (heap s1)" using o(3) s1(3) by (auto simp: used_def)
  have h1: "holds_procs (new_procs s1) (num_new_procs s1) news"
    using h(2) s1(4) by (simp add: arrays_same_def)
  from sort_procs_ok [OF h1 lv q] obtain arr as' where
    s2: "sort_procs E (proc_cmp c) s1 = Inr (s1\<lparr>new_procs := arr\<rparr>)"
      "holds_procs arr (num_new_procs s1) as'" "mset as' = mset news"
      "sorted_wrt (\<lambda>a b. key (proc_cmp c) (proc_of s1 b) \<le> key (proc_cmp c) (proc_of s1 a)) as'" by blast
  let ?s2 = "s1\<lparr>new_procs := arr\<rparr>"
  have st: "set as' = set news" using mset_eq_setD [OF s2(3)] .
  have pr: "proc_of s1 a = with_delta s olds a" if "a \<in> set as'" for a
    using that st s1(5) by (simp add: proc_of_def)
  have "sorted_wrt (\<lambda>a b. key (proc_cmp c) (with_delta s olds b) \<le> key (proc_cmp c) (with_delta s olds a)) as'"
    by (rule sorted_wrt_mono_rel [OF _ s2(4)]) (simp add: pr)
  moreover have "owns olds as' lost ?s2"
    using ow s1(2,3) st mset_eq_imp_distinct_iff [OF s2(3)] pool_frame [of ?s2 s1]
    by (auto simp: owns_def)
  moreover have "rest_same s ?s2" using s1(4) by (simp add: arrays_same_def rest_same_def)
  moreover have "\<forall>a\<in>set as'. proc_of ?s2 a = with_delta s olds a" using pr by (simp add: proc_of_def)
  ultimately show ?thesis
    using s1(1) s2(1-3) lv st by (intro exI [of _ s1] exI [of _ as'] exI [of _ ?s2]) (simp add: xs(2))
qed

lemma head_same: "rest_same s s2 \<Longrightarrow> head_lines thr s2 = head_lines thr s"
  "rest_same s s2 \<Longrightarrow> total_delta_time s2 = total_delta_time s"
  by (simp_all add: head_lines_def total_delta_time_def rest_same_def)

lemma print_procs_ok:
  assumes ow: "owns olds news lost s"
    and h: "holds_procs (old_procs s) (num_old_procs s) olds" "holds_procs (new_procs s) (num_new_procs s) news"
    and q: "qsorts E" and t: "total_delta_time s \<noteq> 0"
  shows "\<exists>hd as' s'. print_procs E c s
      = Inr (hd @ map (row_of E (threads c) (total_delta_time s) \<circ> with_delta s olds) (limit c as'), s')
    \<and> head_lines (threads c) s = Inr hd \<and> mset as' = mset news
    \<and> sorted_wrt (\<lambda>a b. key (proc_cmp c) (with_delta s olds b) \<le> key (proc_cmp c) (with_delta s olds a)) as'
    \<and> owns olds as' lost s' \<and> holds_procs (new_procs s') (num_new_procs s') as' \<and> rest_same s s'"
proof -
  from print_sorted [OF ow h q, of c] obtain s1 as' s2 where
    s1: "foldM set_delta [0..<num_new_procs s] s = Inr s1" and
    s2: "sort_procs E (proc_cmp c) s1 = Inr s2" "mset as' = mset news"
      "sorted_wrt (\<lambda>a b. key (proc_cmp c) (with_delta s olds b) \<le> key (proc_cmp c) (with_delta s olds a)) as'"
      "owns olds as' lost s2" "holds_procs (new_procs s2) (num_new_procs s2) as'" "rest_same s s2"
      "\<forall>a\<in>set as'. proc_of s2 a = with_delta s olds a" "set as' \<subseteq> live (heap s2)" by blast
  from t obtain hl where hl: "head_lines (threads c) s = Inr hl" by (simp add: head_lines_def Let_def)
  have "map (row_of E (threads c) (total_delta_time s) \<circ> proc_of s2) (limit c as')
      = map (row_of E (threads c) (total_delta_time s) \<circ> with_delta s olds) (limit c as')"
    using s2(7) by (auto simp: limit_def dest: in_set_takeD)
  with print_rows_ok [OF s2(5,8) t, of E c] have "print_procs E c s
      = Inr (hl @ map (row_of E (threads c) (total_delta_time s) \<circ> with_delta s olds) (limit c as'), s2)"
    using s1 s2(1) hl head_same [OF s2(6)] by (simp add: print_procs_def)
  with hl s2 show ?thesis by blast
qed

lemma print_procs_no_time:
  assumes "owns olds news lost s" "holds_procs (old_procs s) (num_old_procs s) olds"
    and "holds_procs (new_procs s) (num_new_procs s) news" "qsorts E" "total_delta_time s = 0"
  shows "print_procs E c s = Inl Div_by_zero"
proof -
  from print_sorted [OF assms(1-4), of c] obtain s1 s2 where
    "foldM set_delta [0..<num_new_procs s] s = Inr s1" "sort_procs E (proc_cmp c) s1 = Inr s2"
    "rest_same s s2" by blast
  with assms(5) head_same [of s s2] show ?thesis
    by (simp add: print_procs_def head_lines_def Let_def)
qed

section \<open>Frames\<close>

text \<open>Between two frames: the records of the last snapshot are in the new array.\<close>

definition steady :: "nat list \<Rightarrow> nat set \<Rightarrow> top \<Rightarrow> bool" where
  "steady news lost s \<longleftrightarrow>
     owns [] news lost s \<and> holds_procs (new_procs s) (num_new_procs s) news \<and> finite lost"

definition cpu_read :: "procfs \<Rightarrow> cpu_info \<Rightarrow> cpu_info" where
  "cpu_read fs c = (case stat_file fs of None \<Rightarrow> c | Some t \<Rightarrow> store_cpu (sscanf cpu_format t) c)"

definition readable :: "procfs \<Rightarrow> bool" where
  "readable fs \<longleftrightarrow> proc_dir fs \<noteq> None \<and> stat_file fs \<noteq> None"

definition listing :: "bool \<Rightarrow> procfs \<Rightarrow> (int \<times> int) list" where
  "listing thr fs = concat (map (idents_of thr) (the (proc_dir fs)))"

definition skipped :: "bool \<Rightarrow> procfs \<Rightarrow> nat" where
  "skipped thr fs = sum_list (map (dropped thr) (the (proc_dir fs)))"

definition next_sample :: "top \<Rightarrow> top" where
  "next_sample s = s\<lparr>old_procs := new_procs s, num_old_procs := num_new_procs s, old_cpu := new_cpu s\<rparr>"

lemma steady_used: "steady news lost s \<Longrightarrow> num_used_procs s = int (length news + card lost)"
  by (auto simp: steady_def owns_def pool_ok_def card_Un_disjoint Int_commute distinct_card)

lemma snapshot_ok:
  assumes st: "steady news lost s" and r: "readable fs" and ok: "\<And>n. env_ok E n"
  shows "\<exists>news' lost' s1. read_procs (env_ok E) (env_junk E) thr fs (next_sample s) = Inr s1
    \<and> owns news news' lost' s1 \<and> finite lost' \<and> card lost' = card lost + skipped thr fs
    \<and> holds_procs (old_procs s1) (num_old_procs s1) news
    \<and> holds_procs (new_procs s1) (num_new_procs s1) news'
    \<and> map (ident s1) news' = listing thr fs \<and> (\<forall>a\<in>set news. proc_of s1 a = proc_of s a)
    \<and> old_cpu s1 = new_cpu s \<and> new_cpu s1 = cpu_read fs (new_cpu s)"
proof -
  from r obtain es t where fs: "proc_dir fs = Some es" "stat_file fs = Some t" by (auto simp: readable_def)
  have "owns news [] lost (next_sample s)" "finite lost"
    using st pool_frame [of "next_sample s" s] by (auto simp: steady_def owns_def next_sample_def)
  from read_procs_ok [where ok = "env_ok E" and J = "env_junk E" and threads = thr, OF this ok fs]
  obtain news' lost' s1 where
    s1: "read_procs (env_ok E) (env_junk E) thr fs (next_sample s) = Inr s1" "owns news news' lost' s1"
      "holds_procs (new_procs s1) (num_new_procs s1) news'"
      "listed (concat (map (idents_of thr) es)) news' s1" "kept news (next_sample s) s1"
      "card lost' = card lost + sum_list (map (dropped thr) es)" "finite lost'"
      "old_procs s1 = old_procs (next_sample s)" "num_old_procs s1 = num_old_procs (next_sample s)"
      "old_cpu s1 = old_cpu (next_sample s)"
      "new_cpu s1 = store_cpu (sscanf cpu_format t) (new_cpu (next_sample s))" by blast
  moreover have "\<forall>a\<in>set news. proc_of s1 a = proc_of s a"
    using s1(5) by (simp add: kept_def proc_of_def next_sample_def)
  ultimately show ?thesis
    using st fs by (intro exI [of _ news'] exI [of _ lost'] exI [of _ s1])
      (simp add: steady_def next_sample_def listing_def skipped_def listed_def cpu_read_def)
qed

lemma top_frame_ok:
  assumes st: "steady news lost s" and r: "readable fs" and ok: "\<And>n. env_ok E n" and q: "qsorts E"
    and t: "cpu_sum (cpu_read fs (new_cpu s)) \<noteq> cpu_sum (new_cpu s)"
  shows "\<exists>s1 hd as lost' s'. read_procs (env_ok E) (env_junk E) (threads c) fs (next_sample s) = Inr s1
    \<and> top_frame E c fs s = Inr (hd @ map (row_of E (threads c)
        (cpu_sum (cpu_read fs (new_cpu s)) - cpu_sum (new_cpu s)) \<circ> with_delta s1 news) (limit c as), s')
    \<and> mset (map (ident s1) as) = mset (listing (threads c) fs)
    \<and> sorted_wrt (\<lambda>a b. key (proc_cmp c) (with_delta s1 news b) \<le> key (proc_cmp c) (with_delta s1 news a)) as
    \<and> (\<forall>a\<in>set news. proc_of s1 a = proc_of s a)
    \<and> steady as lost' s' \<and> card lost' = card lost + skipped (threads c) fs
    \<and> new_cpu s' = cpu_read fs (new_cpu s)"
proof -
  from snapshot_ok [OF st r ok, of "threads c"] obtain news' lost' s1 where
    s1: "read_procs (env_ok E) (env_junk E) (threads c) fs (next_sample s) = Inr s1"
      "owns news news' lost' s1" "finite lost'" "card lost' = card lost + skipped (threads c) fs"
      "holds_procs (old_procs s1) (num_old_procs s1) news"
      "holds_procs (new_procs s1) (num_new_procs s1) news'"
      "map (ident s1) news' = listing (threads c) fs" "\<forall>a\<in>set news. proc_of s1 a = proc_of s a"
      "old_cpu s1 = new_cpu s" "new_cpu s1 = cpu_read fs (new_cpu s)" by blast
  have tot: "total_delta_time s1 = cpu_sum (cpu_read fs (new_cpu s)) - cpu_sum (new_cpu s)"
    by (simp add: total_delta_time_def s1(9,10))
  with t have t': "total_delta_time s1 \<noteq> 0" by simp
  from print_procs_ok [OF s1(2,5,6) q t', of c] obtain hd as s2 where
    s2: "print_procs E c s1 = Inr (hd @ map (row_of E (threads c) (total_delta_time s1)
          \<circ> with_delta s1 news) (limit c as), s2)" "mset as = mset news'"
      "sorted_wrt (\<lambda>a b. key (proc_cmp c) (with_delta s1 news b) \<le> key (proc_cmp c) (with_delta s1 news a)) as"
      "owns news as lost' s2" "holds_procs (new_procs s2) (num_new_procs s2) as" "rest_same s1 s2" by blast
  have "holds_procs (old_procs s2) (num_old_procs s2) news"
    using s1(5) s2(6) by (simp add: rest_same_def)
  from free_old_ok [OF s2(4) this] obtain s' where
    s': "free_old_procs s2 = Inr s'" "owns [] as lost' s'" "new_procs s' = new_procs s2"
      "num_new_procs s' = num_new_procs s2" "new_cpu s' = new_cpu s2" by blast
  have "top_frame E c fs s = Inr (hd @ map (row_of E (threads c) (total_delta_time s1)
      \<circ> with_delta s1 news) (limit c as), s')"
    using s1(1) s2(1) s'(1) by (simp add: top_frame_def next_sample_def)
  moreover have "mset (map (ident s1) as) = mset (listing (threads c) fs)"
    using s2(2) s1(7) by (metis mset_map)
  moreover have "steady as lost' s'" using s'(2-4) s2(5) s1(3) by (simp add: steady_def)
  moreover have "new_cpu s' = cpu_read fs (new_cpu s)" using s'(5) s2(6) s1(10) by (simp add: rest_same_def)
  ultimately show ?thesis using s1(1,4,8) s2(3) unfolding tot by blast
qed

lemma start_steady:
  assumes "readable fs" "\<And>n. env_ok E n"
  shows "\<exists>news lost s. read_procs (env_ok E) (env_junk E) thr fs top_zero = Inr s \<and> steady news lost s
    \<and> map (ident s) news = listing thr fs \<and> card lost = skipped thr fs
    \<and> new_cpu s = cpu_read fs zero_cpu"
proof -
  from assms(1) obtain es t where fs: "proc_dir fs = Some es" "stat_file fs = Some t"
    by (auto simp: readable_def)
  have "free_set top_zero = {}" by (rule free_set_linked [of _ "[]", simplified]) (simp add: top_zero_def)
  then have "owns [] [] {} top_zero"
    by (simp add: owns_def pool_ok_def used_def)
       (simp add: top_zero_def kmem_empty_def kmem_ok_def live_def)
  from read_procs_ok [where ok = "env_ok E" and J = "env_junk E" and threads = thr, OF this _ assms(2) fs]
  obtain news lost s where
    "read_procs (env_ok E) (env_junk E) thr fs top_zero = Inr s" "owns [] news lost s"
    "holds_procs (new_procs s) (num_new_procs s) news"
    "listed (concat (map (idents_of thr) es)) news s" "finite lost"
    "card lost = card ({} :: nat set) + sum_list (map (dropped thr) es)"
    "new_cpu s = store_cpu (sscanf cpu_format t) (new_cpu top_zero)" by auto
  then show ?thesis
    using fs by (intro exI [of _ news] exI [of _ lost] exI [of _ s])
      (simp add: steady_def listing_def skipped_def listed_def cpu_read_def top_zero_def)
qed

section \<open>The loop\<close>

text \<open>The counters after the \<open>k\<close>-th snapshot.\<close>

primrec cpu_at :: "(nat \<Rightarrow> procfs) \<Rightarrow> nat \<Rightarrow> cpu_info" where
  "cpu_at fs 0 = cpu_read (fs 0) zero_cpu"
| "cpu_at fs (Suc k) = cpu_read (fs (Suc k)) (cpu_at fs k)"

lemma top_loop_counts:
  assumes "steady news lost s" "new_cpu s = cpu_at fs k" "length news = length (listing (threads c) (fs k))"
    and "\<And>j. k < j \<Longrightarrow> j \<le> k + n \<Longrightarrow> readable (fs j)" "\<And>n. env_ok E n" "qsorts E"
    and "\<And>j. k \<le> j \<Longrightarrow> j < k + n \<Longrightarrow> cpu_sum (cpu_at fs (Suc j)) \<noteq> cpu_sum (cpu_at fs j)"
  shows "\<exists>outs s'. top_loop E c fs (Suc k) (int n) s = Some (Inr (outs, s')) \<and> length outs = n
    \<and> num_used_procs s' = int (length (listing (threads c) (fs (k + n))) + card lost
        + (\<Sum>j\<leftarrow>[Suc k..<Suc (k + n)]. skipped (threads c) (fs j)))"
  using assms
proof (induction n arbitrary: k s news lost)
  case 0
  with steady_used [OF 0(1)] show ?case by (simp add: top_loop.simps [of E c fs "Suc k"])
next
  case (Suc n)
  have "readable (fs (Suc k))" using Suc.prems(4) by simp
  moreover have "cpu_sum (cpu_read (fs (Suc k)) (new_cpu s)) \<noteq> cpu_sum (new_cpu s)"
    using Suc.prems(7) [of k] Suc.prems(2) by simp
  ultimately obtain s1 hd as lost' s' out where
    f: "top_frame E c (fs (Suc k)) s = Inr (out, s')"
    and st: "steady as lost' s'" "card lost' = card lost + skipped (threads c) (fs (Suc k))"
      "new_cpu s' = cpu_read (fs (Suc k)) (new_cpu s)"
      "mset (map (ident s1) as) = mset (listing (threads c) (fs (Suc k)))"
    using top_frame_ok [OF Suc.prems(1) _ Suc.prems(5,6), of "fs (Suc k)" c] by blast
  have "length as = length (listing (threads c) (fs (Suc k)))"
    using mset_eq_length [OF st(4)] by simp
  with Suc.IH [OF st(1), of "Suc k"] st(3) Suc.prems(2,4-7) obtain outs s'' where
    g: "top_loop E c fs (Suc (Suc k)) (int n) s' = Some (Inr (outs, s''))" "length outs = n"
      "num_used_procs s'' = int (length (listing (threads c) (fs (Suc k + n))) + card lost'
        + (\<Sum>j\<leftarrow>[Suc (Suc k)..<Suc (Suc k + n)]. skipped (threads c) (fs j)))" by auto
  have "top_loop E c fs (Suc k) (int (Suc n)) s = Some (Inr (out # outs, s''))"
    using f g(1) by (subst top_loop.simps) simp
  moreover have "[Suc k..<Suc (k + Suc n)] = Suc k # [Suc (Suc k)..<Suc (Suc k + n)]"
    by (simp add: upt_conv_Cons)
  ultimately show ?case
    using g(2,3) st(2) by (intro exI [of _ "out # outs"] exI [of _ s'']) simp
qed

lemma top_loop_endless:
  assumes "top_loop E c fs k (-1) s = Some r"
  shows "\<exists>e. r = Inl e"
proof -
  have "it = -1 \<longrightarrow> (\<exists>e. r = Inl e)" if "top_loop E c fs k it s = Some r" for it
  proof (rule top_loop.raw_induct [where P = "\<lambda>E c fs k it s r. it = -1 \<longrightarrow> (\<exists>e. r = Inl e)", OF _ that])
    fix loop E c fs k it s r
    assume ih: "\<And>E c fs k it s r. loop E c fs k it s = Some r \<Longrightarrow> it = -1 \<longrightarrow> (\<exists>e. r = Inl e)"
      and r: "(if it = -1 \<or> it > 0 then
        (case top_frame E c (fs k) s of
           Inl e \<Rightarrow> Some (Inl e)
         | Inr (out, s) \<Rightarrow>
             Option.bind (loop E c fs (Suc k) (if it = -1 then -1 else it - 1) s)
               (\<lambda>r. Some (bnd r (\<lambda>(outs, s). Inr (out # outs, s)))))
      else Some (Inr ([], s))) = Some r"
    show "it = -1 \<longrightarrow> (\<exists>e. r = Inl e)"
    proof
      assume it: "it = -1"
      show "\<exists>e. r = Inl e"
      proof (cases "top_frame E c (fs k) s")
        case (Inl e)
        with r it show ?thesis by auto
      next
        case (Inr os)
        with r it obtain q where q: "loop E c fs (Suc k) (-1) (snd os) = Some q"
          "r = bnd q (\<lambda>(outs, s). Inr (fst os # outs, s))"
          by (auto simp: bind_eq_Some_conv split: prod.splits)
        with ih [OF q(1)] show ?thesis by auto
      qed
    qed
  qed
  with assms show ?thesis by blast
qed

lemma top_loop_negative: "it < -1 \<Longrightarrow> top_loop E c fs k it s = Some (Inr ([], s))"
  by (simp add: top_loop.simps)

section \<open>An instance of the parameters\<close>

fun ptr_insert :: "(ptr \<Rightarrow> ptr \<Rightarrow> int) \<Rightarrow> ptr \<Rightarrow> ptr list \<Rightarrow> ptr list" where
  "ptr_insert cmp x [] = [x]"
| "ptr_insert cmp x (y # ys) = (if cmp x y \<le> 0 then x # y # ys else y # ptr_insert cmp x ys)"

definition ptr_sort :: "(ptr \<Rightarrow> ptr \<Rightarrow> int) \<Rightarrow> ptr list \<Rightarrow> ptr list" where
  "ptr_sort cmp xs = foldr (ptr_insert cmp) xs []"

lemma mset_ptr_insert [simp]: "mset (ptr_insert cmp x ys) = add_mset x (mset ys)"
  by (induction ys) auto

lemma set_ptr_insert [simp]: "set (ptr_insert cmp x ys) = insert x (set ys)"
  by (metis mset_ptr_insert set_mset_add_mset_insert set_mset_mset)

lemma cmp_procs_trans: "cmp_procs col x y \<le> 0 \<Longrightarrow> cmp_procs col y z \<le> 0 \<Longrightarrow> cmp_procs col x z \<le> 0"
  by (auto simp: cmp_procs_le split: option.splits)

lemma cmp_procs_total: "\<not> cmp_procs col x y \<le> 0 \<Longrightarrow> cmp_procs col y x \<le> 0"
  by (auto simp: cmp_procs_le split: option.splits)

lemma sorted_ptr_insert:
  "sorted_wrt (\<lambda>x y. cmp_procs col x y \<le> 0) ys \<Longrightarrow>
     sorted_wrt (\<lambda>x y. cmp_procs col x y \<le> 0) (ptr_insert (cmp_procs col) x ys)"
proof (induction ys)
  case (Cons y ys)
  then show ?case using cmp_procs_trans [of col x y] cmp_procs_total [of col x y] by auto
qed simp

definition example_junk :: junk where
  "example_junk =
     \<lparr>junk_buf = [], junk_uid = 0, junk_gid = 0,
      junk_proc = \<lparr>p_next = None, p_pid = 0, p_tid = 0, p_uid = 0, p_gid = 0, p_name = [],
        p_tname = [], p_state = CHR ''?'', p_utime = 0, p_stime = 0, p_delta_utime = 0,
        p_delta_stime = 0, p_delta_time = 0, p_vss = 0, p_rss = 0, p_num_threads = 0,
        p_policy = []\<rparr>\<rparr>"

definition example_env :: env where
  "example_env = \<lparr>env_ok = (\<lambda>_. True), env_junk = example_junk, env_qsort = ptr_sort,
                 env_page = 4096, env_user = (\<lambda>_. None)\<rparr>"

lemma example_env_facts: "env_ok example_env n" "qsorts example_env"
proof -
  show "env_ok example_env n" by (simp add: example_env_def)
  have "mset (ptr_sort cmp xs) = mset xs" for cmp xs
    by (induction xs) (simp_all add: ptr_sort_def)
  moreover have "sorted_wrt (\<lambda>x y. cmp_procs col x y \<le> 0) (ptr_sort (cmp_procs col) xs)" for col xs
    by (induction xs) (simp_all add: ptr_sort_def sorted_ptr_insert)
  ultimately show "qsorts example_env" by (simp add: qsorts_def example_env_def)
qed

definition example_entry :: "string \<Rightarrow> (string \<times> string option) list option \<Rightarrow> pid_entry" where
  "example_entry n ts = \<lparr>d_name = n, f_stat = None, f_cmdline = None, f_status = None, f_tasks = ts\<rparr>"

definition example_fs :: "string \<Rightarrow> procfs" where
  "example_fs t =
     \<lparr>proc_dir = Some [example_entry ''self'' None, example_entry ''7'' (Some [(''7'', None), (''9'', None)]),
                      example_entry ''8'' None],
      stat_file = Some t\<rparr>"

definition example_run :: "nat \<Rightarrow> procfs" where
  "example_run k = example_fs (''cpu'' @ put_fields (if k = 0 then [1, 0, 0, 3, 0, 0, 0] else [2, 0, 0, 7, 0, 0, 0]))"

lemma example_run_cpu:
  "cpu_sum (cpu_read (example_run k) c) = (if k = 0 then 4 else 9)"
  using store_cpu_line [of "if k = 0 then [1, 0, 0, 3, 0, 0, 0] else [2, 0, 0, 7, 0, 0, 0]" "[]" c]
  by (simp add: example_run_def example_fs_def cpu_read_def cpu_sum_def ends_number_def)

lemma example_run_facts:
  "readable (example_run k)" "listing False (example_run k) = [(7, 7)]"
  "listing True (example_run k) = [(7, 7), (7, 9)]" "skipped False (example_run k) = 1"
  "cpu_sum (cpu_at example_run 1) \<noteq> cpu_sum (cpu_at example_run 0)"
proof -
  show "readable (example_run k)" by (simp add: readable_def example_run_def example_fs_def)
  have a: "atoi ''7'' = 7" "atoi ''9'' = 9" by code_simp+
  have n: "numeric ''7''" "numeric ''8''" "numeric ''9''" "\<not> numeric ''self''" by code_simp+
  show "listing False (example_run k) = [(7, 7)]" "listing True (example_run k) = [(7, 7), (7, 9)]"
    "skipped False (example_run k) = 1"
    by (simp_all add: listing_def skipped_def example_run_def example_fs_def example_entry_def
        idents_of_def dropped_def tids_def a n)
  show "cpu_sum (cpu_at example_run 1) \<noteq> cpu_sum (cpu_at example_run 0)"
    by (simp add: example_run_cpu)
qed

section \<open>Properties\<close>



text \<open>
  C20. How many frames are shown. With \<open>-n\<close> and a number that is not negative, exactly that many,
  and then the program ends; with -1, which is the default, the loop never ends on its own; with
  a smaller number it shows none.
\<close>

theorem top_shows_frames:
  assumes "parse_args argv default_cfg = Run c" "\<And>n. env_ok E n" "qsorts E"
    and "\<And>k. k \<le> n \<Longrightarrow> readable (fs k)"
    and "\<And>k. k < n \<Longrightarrow> cpu_sum (cpu_at fs (Suc k)) \<noteq> cpu_sum (cpu_at fs k)"
  shows "(iterations c = int n \<longrightarrow> (\<exists>outs. top_main E argv fs = Some (Done outs) \<and> length outs = n))
    \<and> (iterations c = -1 \<longrightarrow> (\<forall>outs. top_main E argv fs \<noteq> Some (Done outs)))
    \<and> (iterations c < -1 \<longrightarrow> top_main E argv fs = Some (Done []))"
proof -
  from start_steady [OF assms(4) assms(2), of 0 "threads c"] obtain news lost s where
    s: "read_procs (env_ok E) (env_junk E) (threads c) (fs 0) top_zero = Inr s" "steady news lost s"
      "map (ident s) news = listing (threads c) (fs 0)" "new_cpu s = cpu_at fs 0" by auto
  from s(3) have len: "length news = length (listing (threads c) (fs 0))" by (metis length_map)
  have m: "top_main E argv fs = map_option (\<lambda>r. case r of Inl e \<Rightarrow> Stopped e | Inr (outs, s) \<Rightarrow> Done outs)
      (top_loop E c fs 1 (iterations c) s)"
    using assms(1) s(1) by (simp add: top_main_def)
  from top_loop_counts [where n = n and fs = fs and E = E and c = c, OF s(2,4) len _ assms(2,3)] assms(4,5)
  obtain outs s' where "top_loop E c fs (Suc 0) (int n) s = Some (Inr (outs, s'))" "length outs = n"
    by auto
  then show ?thesis
    using m top_loop_negative [of "iterations c" E c fs 1 s]
    by (auto dest!: top_loop_endless)
qed

theorem top_shows_frames_witness:
  "\<exists>outs. top_main example_env [''-n'', ''1''] example_run = Some (Done outs) \<and> length outs = 1"
proof -
  have "atoi ''1'' = 1" by code_simp
  then have "parse_args [''-n'', ''1''] default_cfg = Run (default_cfg\<lparr>iterations := 1\<rparr>)"
    by (simp add: default_cfg_def)
  from top_shows_frames [where n = 1 and fs = example_run, OF this example_env_facts]
  show ?thesis using example_run_facts(1,5) by auto
qed

text \<open>
  C8. Where the records are. After the last frame the records in use are those of the last
  snapshot and, without \<open>-t\<close>, one for every process of any snapshot whose task directory could
  not be opened: such a record is taken from the pool and then neither shown nor given back.
  Nothing else is lost.
\<close>

theorem top_records:
  assumes "\<And>n. env_ok E n" "qsorts E" "\<And>k. k \<le> n \<Longrightarrow> readable (fs k)"
    and "\<And>k. k < n \<Longrightarrow> cpu_sum (cpu_at fs (Suc k)) \<noteq> cpu_sum (cpu_at fs k)"
  shows "\<exists>s outs s'. read_procs (env_ok E) (env_junk E) (threads c) (fs 0) top_zero = Inr s
    \<and> top_loop E c fs 1 (int n) s = Some (Inr (outs, s'))
    \<and> num_used_procs s' = int (length (listing (threads c) (fs n))
        + (\<Sum>k\<leftarrow>[0..<Suc n]. skipped (threads c) (fs k)))"
proof -
  from start_steady [OF assms(3) assms(1), of 0 "threads c"] obtain news lost s where
    s: "read_procs (env_ok E) (env_junk E) (threads c) (fs 0) top_zero = Inr s" "steady news lost s"
      "map (ident s) news = listing (threads c) (fs 0)" "card lost = skipped (threads c) (fs 0)"
      "new_cpu s = cpu_at fs 0" by auto
  from s(3) have len: "length news = length (listing (threads c) (fs 0))" by (metis length_map)
  from top_loop_counts [where n = n and fs = fs and E = E and c = c, OF s(2,5) len _ assms(1,2)] assms(3,4)
  obtain outs s' where
    l: "top_loop E c fs (Suc 0) (int n) s = Some (Inr (outs, s'))"
      "num_used_procs s' = int (length (listing (threads c) (fs (0 + n))) + card lost
        + (\<Sum>k\<leftarrow>[Suc 0..<Suc (0 + n)]. skipped (threads c) (fs k)))" by auto
  have "(\<Sum>k\<leftarrow>[0..<Suc n]. skipped (threads c) (fs k))
      = skipped (threads c) (fs 0) + (\<Sum>k\<leftarrow>[Suc 0..<Suc n]. skipped (threads c) (fs k))"
    by (simp add: upt_conv_Cons del: upt_Suc)
  with l s(1,4) show ?thesis by (intro exI [of _ s] exI [of _ outs] exI [of _ s']) simp
qed

theorem top_records_witness:
  "\<exists>s outs s'. read_procs (env_ok example_env) (env_junk example_env) False (example_run 0) top_zero = Inr s
    \<and> top_loop example_env default_cfg example_run 1 1 s = Some (Inr (outs, s'))
    \<and> num_used_procs s' = 3"
  using top_records [where n = 1 and fs = example_run and c = default_cfg, OF example_env_facts]
    example_run_facts(1,5)
  by (simp add: example_run_facts(2,4) default_cfg_def)

text \<open>
  A frame divides by zero when no CPU time has passed since the snapshot before, as it may
  with \<open>-d 0\<close>.
\<close>

lemma top_frame_no_time:
  assumes "steady news lost s" "readable fs" "\<And>n. env_ok E n" "qsorts E"
    and "cpu_sum (cpu_read fs (new_cpu s)) = cpu_sum (new_cpu s)"
  shows "top_frame E c fs s = Inl (Fault Div_by_zero)"
proof -
  from snapshot_ok [OF assms(1-3), of "threads c"] obtain news' lost' s1 where
    s1: "read_procs (env_ok E) (env_junk E) (threads c) fs (next_sample s) = Inr s1"
      "owns news news' lost' s1" "holds_procs (old_procs s1) (num_old_procs s1) news"
      "holds_procs (new_procs s1) (num_new_procs s1) news'"
      "old_cpu s1 = new_cpu s" "new_cpu s1 = cpu_read fs (new_cpu s)" by blast
  from print_procs_no_time [OF s1(2,3,4) assms(4)] assms(5) s1(5,6)
  have "print_procs E c s1 = Inl Div_by_zero" by (simp add: total_delta_time_def)
  with s1(1) show ?thesis by (simp add: top_frame_def next_sample_def)
qed

end
