(* ===== verification/Shadow.thy ===== *)
theory Shadow
  imports Prelude
begin

text \<open>
  The shadow-variable demo: \<open>livepatch-shadow-mod.c\<close>, which leaks an integer with every dummy it
  allocates, and the live patches \<open>livepatch-shadow-fix1.c\<close> and \<open>livepatch-shadow-fix2.c\<close>, which
  replace its functions. A call goes to the newest loaded patch that replaces the function. A
  shadow variable is an entry of a map from objects to data, one map per identifier, as the
  kernel's livepatch documentation describes \<open>klp_shadow_alloc\<close>, \<open>klp_shadow_get\<close> and
  \<open>klp_shadow_free\<close>.
\<close>

section \<open>State\<close>

datatype patch = Fix1 | Fix2

datatype sh_msg =
    Alloc_msg "patch option" nat u64
  | Free_msg nat u64
  | Prevented_msg nat nat
  | Leaked_msg nat
  | Count_msg nat int
  | No_shadow_msg nat nat
  | Cleanup_msg u64

text \<open>
  \<open>dummy_mem\<close> holds \<open>jiffies_expire\<close> of each dummy, \<open>leak_mem\<close> the integers; \<open>sv_leak\<close> and
  \<open>sv_counter\<close> are the shadow variables; \<open>stack\<close> are the enabled patches, newest first, and
  \<open>disabled\<close> those that are no longer called but still loaded. An allocation message carries
  the function that printed it: the module's own (\<open>None\<close>) or the one of a patch.
\<close>

record sh =
  dummy_mem :: "u64 kmem"
  leak_mem :: "unit kmem"
  dummy_list :: "nat list"
  sv_leak :: "nat \<rightharpoonup> nat"
  sv_counter :: "nat \<rightharpoonup> int"
  alloc_queued :: bool
  cleanup_queued :: bool
  stack :: "patch list"
  disabled :: "patch list"
  sh_log :: "sh_msg list"

definition say :: "sh_msg \<Rightarrow> sh \<Rightarrow> sh" where
  "say m s = s\<lparr>sh_log := sh_log s @ [m]\<rparr>"

text \<open>The two heaps are refused independently: the dummies first, then the integers and shadow variables.\<close>

type_synonym grants = "(nat \<Rightarrow> bool) \<times> (nat \<Rightarrow> bool)"

section \<open>The module\<close>

definition EXPIRE_MS :: nat where
  "EXPIRE_MS = 1000 * (4 * (3 * 1))"

definition dummy_alloc :: "grants \<Rightarrow> (nat \<Rightarrow> u64) \<Rightarrow> u64 \<Rightarrow> sh \<Rightarrow> (nat option \<times> sh) outcome" where
  "dummy_alloc ok m2j jiffies s =
     (let (d, m) = kmalloc (fst ok) (jiffies + m2j EXPIRE_MS) (dummy_mem s); s = s\<lparr>dummy_mem := m\<rparr>
      in case d of
           None \<Rightarrow> Inr (None, s)
         | Some d \<Rightarrow>
             let (leak, m) = kmalloc (snd ok) () (leak_mem s); s = s\<lparr>leak_mem := m\<rparr>
             in case leak of
                  None \<Rightarrow> bnd (kfree d (dummy_mem s)) (\<lambda>m. Inr (None, s\<lparr>dummy_mem := m\<rparr>))
                | Some leak \<Rightarrow> Inr (Some d, say (Alloc_msg None d (jiffies + m2j EXPIRE_MS)) s))"

definition dummy_free :: "nat \<Rightarrow> sh \<Rightarrow> sh outcome" where
  "dummy_free d s =
     bnd (kread d (dummy_mem s)) (\<lambda>e.
     bnd (kfree d (dummy_mem s)) (\<lambda>m. Inr ((say (Free_msg d e) s)\<lparr>dummy_mem := m\<rparr>)))"

text \<open>\<open>time_after(a, b)\<close> compares through the sign of the wrapped difference.\<close>

definition time_after :: "u64 \<Rightarrow> u64 \<Rightarrow> bool" where
  "time_after a b \<longleftrightarrow> sint (b - a) < 0"

definition dummy_check :: "nat \<Rightarrow> u64 \<Rightarrow> sh \<Rightarrow> (bool \<times> sh) outcome" where
  "dummy_check d jiffies s = bnd (kread d (dummy_mem s)) (\<lambda>e. Inr (time_after jiffies e, s))"

section \<open>The patches\<close>

definition shadow_leak_ctor :: "nat option \<Rightarrow> nat option" where
  "shadow_leak_ctor ctor_data = ctor_data"

definition fix1_dummy_alloc :: "grants \<Rightarrow> (nat \<Rightarrow> u64) \<Rightarrow> u64 \<Rightarrow> sh \<Rightarrow> (nat option \<times> sh) outcome" where
  "fix1_dummy_alloc ok m2j jiffies s =
     (let (d, m) = kmalloc (fst ok) (jiffies + m2j EXPIRE_MS) (dummy_mem s); s = s\<lparr>dummy_mem := m\<rparr>
      in case d of
           None \<Rightarrow> Inr (None, s)
         | Some d \<Rightarrow>
             let (leak, m) = kmalloc (snd ok) () (leak_mem s); s = s\<lparr>leak_mem := m\<rparr>
             in case leak of
                  None \<Rightarrow> bnd (kfree d (dummy_mem s)) (\<lambda>m. Inr (None, s\<lparr>dummy_mem := m\<rparr>))
                | Some leak \<Rightarrow>
                    let (g, m) = krequest (snd ok) (leak_mem s); s = s\<lparr>leak_mem := m\<rparr>
                    in if \<not> g \<or> sv_leak s d \<noteq> None
                       then bnd (kfree leak (leak_mem s)) (\<lambda>ml.
                            bnd (kfree d (dummy_mem s)) (\<lambda>md.
                              Inr (None, (say (No_shadow_msg d leak) s)\<lparr>leak_mem := ml, dummy_mem := md\<rparr>)))
                       else Inr (Some d, say (Alloc_msg (Some Fix1) d (jiffies + m2j EXPIRE_MS))
                              (s\<lparr>sv_leak := (sv_leak s)(d := shadow_leak_ctor (Some leak))\<rparr>)))"

text \<open>The destructor of both patches, and \<open>klp_shadow_free\<close> with it.\<close>

definition leak_dtor :: "nat \<Rightarrow> nat \<Rightarrow> sh \<Rightarrow> sh outcome" where
  "leak_dtor d leak s =
     bnd (kfree leak (leak_mem s)) (\<lambda>m. Inr ((say (Prevented_msg d leak) s)\<lparr>leak_mem := m\<rparr>))"

definition shadow_free_leak :: "nat \<Rightarrow> sh \<Rightarrow> sh outcome" where
  "shadow_free_leak d s =
     (case sv_leak s d of
        None \<Rightarrow> Inr s
      | Some leak \<Rightarrow> leak_dtor d leak (s\<lparr>sv_leak := (sv_leak s)(d := None)\<rparr>))"

definition fix1_dummy_free :: "nat \<Rightarrow> sh \<Rightarrow> sh outcome" where
  "fix1_dummy_free d s =
     bnd (if sv_leak s d \<noteq> None then shadow_free_leak d s else Inr (say (Leaked_msg d) s)) (\<lambda>s.
     bnd (kfree d (dummy_mem s)) (\<lambda>m. Inr (s\<lparr>dummy_mem := m\<rparr>)))"

definition fix2_dummy_check :: "(nat \<Rightarrow> bool) \<Rightarrow> nat \<Rightarrow> u64 \<Rightarrow> sh \<Rightarrow> (bool \<times> sh) outcome" where
  "fix2_dummy_check g d jiffies s =
     (let s = (case sv_counter s d of
                 Some n \<Rightarrow> s\<lparr>sv_counter := (sv_counter s)(d \<mapsto> n + 1)\<rparr>
               | None \<Rightarrow> if g d then s\<lparr>sv_counter := (sv_counter s)(d \<mapsto> 1)\<rparr> else s)
      in bnd (kread d (dummy_mem s)) (\<lambda>e. Inr (time_after jiffies e, s)))"

definition fix2_dummy_free :: "nat \<Rightarrow> sh \<Rightarrow> sh outcome" where
  "fix2_dummy_free d s =
     bnd (if sv_leak s d \<noteq> None then shadow_free_leak d s else Inr (say (Leaked_msg d) s)) (\<lambda>s.
       let s = (case sv_counter s d of
                  None \<Rightarrow> s
                | Some n \<Rightarrow> (say (Count_msg d n) s)\<lparr>sv_counter := (sv_counter s)(d := None)\<rparr>)
       in bnd (kfree d (dummy_mem s)) (\<lambda>m. Inr (s\<lparr>dummy_mem := m\<rparr>)))"

text \<open>Calls through the patched functions.\<close>

definition call_alloc :: "grants \<Rightarrow> (nat \<Rightarrow> u64) \<Rightarrow> u64 \<Rightarrow> sh \<Rightarrow> (nat option \<times> sh) outcome" where
  "call_alloc ok m2j jiffies s =
     (if Fix1 \<in> set (stack s) then fix1_dummy_alloc ok m2j jiffies s else dummy_alloc ok m2j jiffies s)"

definition call_free :: "nat \<Rightarrow> sh \<Rightarrow> sh outcome" where
  "call_free d s =
     (case stack s of [] \<Rightarrow> dummy_free d s | Fix1 # _ \<Rightarrow> fix1_dummy_free d s | Fix2 # _ \<Rightarrow> fix2_dummy_free d s)"

definition call_check :: "(nat \<Rightarrow> bool) \<Rightarrow> nat \<Rightarrow> u64 \<Rightarrow> sh \<Rightarrow> (bool \<times> sh) outcome" where
  "call_check g d jiffies s =
     (if Fix2 \<in> set (stack s) then fix2_dummy_check g d jiffies s else dummy_check d jiffies s)"

section \<open>Works, load and unload\<close>

definition alloc_work_func :: "grants \<Rightarrow> (nat \<Rightarrow> u64) \<Rightarrow> u64 \<Rightarrow> sh \<Rightarrow> sh outcome" where
  "alloc_work_func ok m2j jiffies s =
     bnd (call_alloc ok m2j jiffies s) (\<lambda>(d, s).
       case d of
         None \<Rightarrow> Inr s
       | Some d \<Rightarrow> Inr (s\<lparr>dummy_list := d # dummy_list s, alloc_queued := True\<rparr>))"

definition cleanup_one :: "(nat \<Rightarrow> bool) \<Rightarrow> u64 \<Rightarrow> nat \<Rightarrow> sh \<Rightarrow> sh outcome" where
  "cleanup_one g jiffies d s =
     bnd (call_check g d jiffies s) (\<lambda>(expired, s).
       if expired then call_free d (s\<lparr>dummy_list := removeAll d (dummy_list s)\<rparr>) else Inr s)"

definition cleanup_work_func :: "(nat \<Rightarrow> bool) \<Rightarrow> u64 \<Rightarrow> sh \<Rightarrow> sh outcome" where
  "cleanup_work_func g jiffies s =
     bnd (foldM (cleanup_one g jiffies) (dummy_list s) (say (Cleanup_msg jiffies) s))
         (\<lambda>s. Inr (s\<lparr>cleanup_queued := True\<rparr>))"

definition livepatch_shadow_mod_init :: sh where
  "livepatch_shadow_mod_init =
     \<lparr>dummy_mem = kmem_empty, leak_mem = kmem_empty, dummy_list = [], sv_leak = Map.empty,
      sv_counter = Map.empty, alloc_queued = True, cleanup_queued = True, stack = [], disabled = [], sh_log = []\<rparr>"

definition exit_one :: "nat \<Rightarrow> sh \<Rightarrow> sh outcome" where
  "exit_one d s = call_free d (s\<lparr>dummy_list := removeAll d (dummy_list s)\<rparr>)"

definition livepatch_shadow_mod_exit :: "sh \<Rightarrow> sh outcome" where
  "livepatch_shadow_mod_exit s =
     foldM exit_one (dummy_list s) (s\<lparr>alloc_queued := False, cleanup_queued := False\<rparr>)"

text \<open>
  The exits of the patches, run when the patch is disabled: each releases all shadow variables of
  one identifier; \<open>objs\<close> are the objects that have one, in the kernel's order.
\<close>

definition livepatch_shadow_fix1_exit :: "nat list \<Rightarrow> sh \<Rightarrow> sh outcome" where
  "livepatch_shadow_fix1_exit objs s = foldM shadow_free_leak objs s"

definition livepatch_shadow_fix2_exit :: "sh \<Rightarrow> sh outcome" where
  "livepatch_shadow_fix2_exit s = Inr (s\<lparr>sv_counter := Map.empty\<rparr>)"

text \<open>
  What can happen while the module is loaded. A work runs only when it is queued; a patch is
  loaded once, disabled, and only then unloaded. The kernel decides for each dummy whether the
  allocation of its counter is granted.
\<close>

datatype sh_event =
    Alloc u64
  | Cleanup "nat \<Rightarrow> bool" u64
  | Load patch
  | Disable patch
  | Unload1 "nat list"
  | Unload2

definition sh_step :: "grants \<Rightarrow> (nat \<Rightarrow> u64) \<Rightarrow> sh_event \<Rightarrow> sh \<Rightarrow> sh outcome" where
  "sh_step ok m2j e s =
     (case e of
        Alloc j \<Rightarrow> if alloc_queued s then alloc_work_func ok m2j j (s\<lparr>alloc_queued := False\<rparr>) else Inr s
      | Cleanup g j \<Rightarrow> if cleanup_queued s then cleanup_work_func g j (s\<lparr>cleanup_queued := False\<rparr>) else Inr s
      | Load p \<Rightarrow> if p \<in> set (stack s) \<union> set (disabled s) then Inr s else Inr (s\<lparr>stack := p # stack s\<rparr>)
      | Disable p \<Rightarrow>
          if p \<in> set (stack s)
          then Inr (s\<lparr>stack := removeAll p (stack s), disabled := p # disabled s\<rparr>) else Inr s
      | Unload1 objs \<Rightarrow>
          if Fix1 \<in> set (disabled s) \<and> distinct objs \<and> set objs = dom (sv_leak s)
          then bnd (livepatch_shadow_fix1_exit objs s) (\<lambda>s. Inr (s\<lparr>disabled := removeAll Fix1 (disabled s)\<rparr>))
          else Inr s
      | Unload2 \<Rightarrow>
          if Fix2 \<in> set (disabled s)
          then bnd (livepatch_shadow_fix2_exit s) (\<lambda>s. Inr (s\<lparr>disabled := removeAll Fix2 (disabled s)\<rparr>))
          else Inr s)"

section \<open>Invariant\<close>

text \<open>The dummies allocated by the module's own function, read off the log.\<close>

definition unpatched :: "sh \<Rightarrow> nat" where
  "unpatched s = length (filter (\<lambda>m. case m of Alloc_msg None _ _ \<Rightarrow> True | _ \<Rightarrow> False) (sh_log s))"

text \<open>
  The list holds exactly the live dummies; a shadow variable holds a live integer, no integer is
  held twice; every other live integer is lost, one for each dummy of the unpatched function;
  without the first patch there is no leak variable.
\<close>

definition leaks_ok :: "sh \<Rightarrow> bool" where
  "leaks_ok s \<longleftrightarrow>
     kmem_ok (dummy_mem s) \<and> kmem_ok (leak_mem s) \<and>
     dom (sv_leak s) \<subseteq> {..<brk (dummy_mem s)} \<and>
     inj_on (sv_leak s) (dom (sv_leak s)) \<and> ran (sv_leak s) \<subseteq> live (leak_mem s) \<and>
     card (live (leak_mem s)) = unpatched s + card (dom (sv_leak s)) \<and>
     (Fix1 \<notin> set (stack s) \<union> set (disabled s) \<longrightarrow> sv_leak s = Map.empty)"

definition shI :: "sh \<Rightarrow> bool" where
  "shI s \<longleftrightarrow> leaks_ok s \<and> distinct (dummy_list s) \<and> set (dummy_list s) = live (dummy_mem s)"

lemma unpatched_say [simp]:
  "unpatched (say m s) = (case m of Alloc_msg None _ _ \<Rightarrow> Suc (unpatched s) | _ \<Rightarrow> unpatched s)"
  by (auto simp: unpatched_def say_def split: sh_msg.split option.split)

lemma say_sel [simp]:
  "dummy_mem (say m s) = dummy_mem s" "leak_mem (say m s) = leak_mem s"
  "dummy_list (say m s) = dummy_list s" "sv_leak (say m s) = sv_leak s"
  "sv_counter (say m s) = sv_counter s" "stack (say m s) = stack s" "disabled (say m s) = disabled s"
  "alloc_queued (say m s) = alloc_queued s" "cleanup_queued (say m s) = cleanup_queued s"
  by (simp_all add: say_def)

lemma unpatched_upd [simp]:
  "unpatched (s\<lparr>dummy_mem := a\<rparr>) = unpatched s" "unpatched (s\<lparr>leak_mem := b\<rparr>) = unpatched s"
  "unpatched (s\<lparr>dummy_list := c\<rparr>) = unpatched s" "unpatched (s\<lparr>sv_leak := d\<rparr>) = unpatched s"
  "unpatched (s\<lparr>sv_counter := e\<rparr>) = unpatched s" "unpatched (s\<lparr>stack := f\<rparr>) = unpatched s"
  "unpatched (s\<lparr>disabled := f\<rparr>) = unpatched s" "unpatched (s\<lparr>alloc_queued := g\<rparr>) = unpatched s"
  "unpatched (s\<lparr>cleanup_queued := g\<rparr>) = unpatched s"
  by (simp_all add: unpatched_def)

lemma leaks_ok_upd [simp]:
  "leaks_ok (s\<lparr>dummy_list := c\<rparr>) = leaks_ok s" "leaks_ok (s\<lparr>sv_counter := e\<rparr>) = leaks_ok s"
  "leaks_ok (s\<lparr>alloc_queued := g\<rparr>) = leaks_ok s" "leaks_ok (s\<lparr>cleanup_queued := g\<rparr>) = leaks_ok s"
  by (simp_all add: leaks_ok_def)

text \<open>What a release leaves alone.\<close>

definition ctl_same :: "sh \<Rightarrow> sh \<Rightarrow> bool" where
  "ctl_same s s' \<longleftrightarrow> dummy_list s' = dummy_list s \<and> stack s' = stack s \<and> disabled s' = disabled s \<and>
     alloc_queued s' = alloc_queued s \<and> cleanup_queued s' = cleanup_queued s \<and> unpatched s' = unpatched s"

lemma ctl_same_refl [simp]: "ctl_same s s"
  by (simp add: ctl_same_def)

lemma ctl_same_trans: "ctl_same s t \<Longrightarrow> ctl_same t u \<Longrightarrow> ctl_same s u"
  by (simp add: ctl_same_def)

lemma finite_live: "kmem_ok m \<Longrightarrow> finite (live m)"
  by (rule finite_subset [of _ "{..<brk m}"]) (auto simp: kmem_ok_def)

lemma dom_less: "dom (f(d := None)) = dom f - {d}"
  by auto

lemma leaks_okI:
  assumes "leak_mem t = m" "sv_leak t = sv" "kmem_ok (dummy_mem t)" "kmem_ok m"
    "dom sv \<subseteq> {..<brk (dummy_mem t)}" "inj_on sv (dom sv)" "ran sv \<subseteq> live m"
    "card (live m) = unpatched t + card (dom sv)"
    "Fix1 \<notin> set (stack t) \<union> set (disabled t) \<longrightarrow> sv = Map.empty"
  shows "leaks_ok t"
  using assms by (simp add: leaks_ok_def)

lemma shadow_free_leak_ok:
  assumes "leaks_ok s"
  shows "\<exists>s'. shadow_free_leak d s = Inr s' \<and> leaks_ok s' \<and> ctl_same s s' \<and>
           dummy_mem s' = dummy_mem s \<and> sv_leak s' = (sv_leak s)(d := None)"
proof (cases "sv_leak s d")
  case None
  then have "(sv_leak s)(d := None) = sv_leak s" by auto
  with None assms show ?thesis by (simp add: shadow_free_leak_def)
next
  case (Some leak)
  then have d: "d \<in> dom (sv_leak s)" and r: "leak \<in> ran (sv_leak s)" by (auto simp: ran_def)
  from assms r have "kmem_ok (leak_mem s)" "leak \<in> live (leak_mem s)" by (auto simp: leaks_ok_def)
  with km.free_alive obtain m where
    m: "kfree leak (leak_mem s) = Inr m" "live m = live (leak_mem s) - {leak}" "kmem_ok m" by blast
  let ?s = "say (Prevented_msg d leak) (s\<lparr>sv_leak := (sv_leak s)(d := None)\<rparr>)\<lparr>leak_mem := m\<rparr>"
  have run: "shadow_free_leak d s = Inr ?s"
    by (simp add: shadow_free_leak_def leak_dtor_def Some m)
  have inj: "inj_on (sv_leak s) (dom (sv_leak s) - {d})" "leak \<notin> ran ((sv_leak s)(d := None))"
    using assms Some d by (auto simp: leaks_ok_def inj_on_def ran_def dom_def split: if_splits)
  have "finite (dom (sv_leak s))" "finite (live (leak_mem s))"
    using assms by (auto simp: leaks_ok_def finite_live intro: finite_subset)
  then have card: "card (live m) = unpatched s + card (dom (sv_leak s) - {d})"
    using assms m(2) d r card_Suc_Diff1 [of "dom (sv_leak s)" d]
    by (simp add: leaks_ok_def card_Diff_singleton subset_iff)
  have "leaks_ok ?s"
  proof (rule leaks_okI [of ?s m "(sv_leak s)(d := None)"])
    show "inj_on ((sv_leak s)(d := None)) (dom ((sv_leak s)(d := None)))"
      using inj(1) by (simp add: inj_on_def)
    show "ran ((sv_leak s)(d := None)) \<subseteq> live m"
      using assms m(2) inj(2) by (auto simp: leaks_ok_def ran_def split: if_splits)
    show "dom ((sv_leak s)(d := None)) \<subseteq> {..<brk (dummy_mem ?s)}"
      using assms by (auto simp: leaks_ok_def)
    show "Fix1 \<notin> set (stack ?s) \<union> set (disabled ?s) \<longrightarrow> (sv_leak s)(d := None) = Map.empty"
      using assms Some by (auto simp: leaks_ok_def)
  qed (use assms m(3) card in \<open>simp_all add: leaks_ok_def\<close>)
  with run show ?thesis by (auto simp: ctl_same_def)
qed

lemma kfree_brk: "kfree a m = Inr m' \<Longrightarrow> brk m' = brk m"
  by (auto simp: kfree_def split: option.splits)

lemma free_dummy_ok:
  assumes "leaks_ok s" "d \<in> live (dummy_mem s)"
  shows "\<exists>m. kfree d (dummy_mem s) = Inr m \<and> live m = live (dummy_mem s) - {d} \<and>
           leaks_ok (s\<lparr>dummy_mem := m\<rparr>)"
proof -
  from assms have "kmem_ok (dummy_mem s)" by (simp add: leaks_ok_def)
  with km.free_alive assms obtain m where
    m: "kfree d (dummy_mem s) = Inr m" "live m = live (dummy_mem s) - {d}" "kmem_ok m" by blast
  from kfree_brk [OF m(1)] have "brk m = brk (dummy_mem s)" .
  with m(3) assms(1) have "leaks_ok (s\<lparr>dummy_mem := m\<rparr>)" by (simp add: leaks_ok_def)
  with m show ?thesis by blast
qed

text \<open>Releasing a dummy: it is no longer live, and a patched release drops its integer too.\<close>

definition released :: "nat \<Rightarrow> sh \<Rightarrow> sh \<Rightarrow> bool" where
  "released d s s' \<longleftrightarrow> leaks_ok s' \<and> ctl_same s s' \<and>
     live (dummy_mem s') = live (dummy_mem s) - {d} \<and>
     sv_leak s' = (if stack s = [] then sv_leak s else (sv_leak s)(d := None))"

lemma call_free_ok:
  assumes "leaks_ok s" "d \<in> live (dummy_mem s)"
  shows "\<exists>s'. call_free d s = Inr s' \<and> released d s s'"
proof (cases "stack s")
  case Nil
  from assms(2) obtain e where "kread d (dummy_mem s) = Inr e" using kread_live by blast
  moreover have "leaks_ok (say (Free_msg d e) s)" using assms(1) by (simp add: leaks_ok_def)
  then obtain m where "kfree d (dummy_mem s) = Inr m" "live m = live (dummy_mem s) - {d}"
      "leaks_ok (say (Free_msg d e) s\<lparr>dummy_mem := m\<rparr>)"
    using free_dummy_ok [of "say (Free_msg d e) s" d] assms(2) by auto
  ultimately show ?thesis using Nil by (simp add: call_free_def dummy_free_def released_def ctl_same_def)
next
  case (Cons p ps)
  let ?rel = "if sv_leak s d \<noteq> None then shadow_free_leak d s else Inr (say (Leaked_msg d) s)"
  have "\<exists>t. ?rel = Inr t \<and> leaks_ok t \<and> ctl_same s t \<and> dummy_mem t = dummy_mem s \<and>
          sv_leak t = (sv_leak s)(d := None)"
  proof (cases "sv_leak s d")
    case None
    then have "(sv_leak s)(d := None) = sv_leak s" by auto
    moreover have "leaks_ok (say (Leaked_msg d) s)" using assms(1) by (simp add: leaks_ok_def)
    ultimately show ?thesis using None by (simp add: ctl_same_def)
  next
    case (Some leak)
    with shadow_free_leak_ok [OF assms(1), of d] show ?thesis by simp
  qed
  then obtain t where t: "?rel = Inr t" "leaks_ok t" "ctl_same s t" "dummy_mem t = dummy_mem s"
    "sv_leak t = (sv_leak s)(d := None)" by blast
  show ?thesis
  proof (cases p)
    case Fix1
    from free_dummy_ok [of t d] t assms(2) obtain m where
      "kfree d (dummy_mem s) = Inr m" "live m = live (dummy_mem s) - {d}" "leaks_ok (t\<lparr>dummy_mem := m\<rparr>)"
      by auto
    with t Cons Fix1 show ?thesis
      by (simp add: call_free_def fix1_dummy_free_def released_def ctl_same_def)
  next
    case Fix2
    let ?u = "case sv_counter t d of None \<Rightarrow> t
       | Some n \<Rightarrow> say (Count_msg d n) t\<lparr>sv_counter := (sv_counter t)(d := None)\<rparr>"
    have u: "leaks_ok ?u" "ctl_same s ?u" "dummy_mem ?u = dummy_mem s" "sv_leak ?u = (sv_leak s)(d := None)"
      using t by (auto simp: ctl_same_def leaks_ok_def split: option.split)
    with free_dummy_ok [of ?u d] assms(2) obtain m where
      "kfree d (dummy_mem s) = Inr m" "live m = live (dummy_mem s) - {d}" "leaks_ok (?u\<lparr>dummy_mem := m\<rparr>)"
      by auto
    with t u Cons Fix2 show ?thesis
      by (simp add: call_free_def fix2_dummy_free_def released_def ctl_same_def Let_def)
  qed
qed

text \<open>An allocation: what it adds, or that it left nothing behind.\<close>

lemma leaks_ok_leak_mem:
  "leaks_ok s \<Longrightarrow> kmem_ok m \<Longrightarrow> live m = live (leak_mem s) \<Longrightarrow> leaks_ok (s\<lparr>leak_mem := m\<rparr>)"
  by (simp add: leaks_ok_def)

lemma leaks_ok_dummy_mem:
  "leaks_ok s \<Longrightarrow> kmem_ok m \<Longrightarrow> brk (dummy_mem s) \<le> brk m \<Longrightarrow> leaks_ok (s\<lparr>dummy_mem := m\<rparr>)"
  by (auto simp: leaks_ok_def)

lemma kmalloc_granted:
  assumes "kmem_ok m" "kmalloc ok x m = (Some a, m')"
  shows "a = brk m \<and> a \<notin> live m \<and> live m' = insert a (live m) \<and> kmem_ok m' \<and> brk m' = Suc (brk m)"
  using km.alloc_granted [OF assms] assms(2) by (auto simp: kmalloc_def split: if_splits)

lemma kmalloc_refused:
  assumes "kmem_ok m" "kmalloc ok x m = (None, m')"
  shows "live m' = live m \<and> kmem_ok m' \<and> brk m' = Suc (brk m)"
  using km.alloc_refused [OF assms] assms(2) by (auto simp: kmalloc_def split: if_splits)

definition allocated :: "nat option \<Rightarrow> sh \<Rightarrow> sh \<Rightarrow> bool" where
  "allocated r s s' \<longleftrightarrow> leaks_ok s' \<and> dummy_list s' = dummy_list s \<and> stack s' = stack s \<and>
     disabled s' = disabled s \<and> alloc_queued s' = alloc_queued s \<and> cleanup_queued s' = cleanup_queued s \<and>
     (case r of
        None \<Rightarrow> live (dummy_mem s') = live (dummy_mem s) \<and> sv_leak s' = sv_leak s \<and> unpatched s' = unpatched s
      | Some d \<Rightarrow> d \<notin> live (dummy_mem s) \<and> live (dummy_mem s') = insert d (live (dummy_mem s)) \<and>
          (if Fix1 \<in> set (stack s)
           then dom (sv_leak s') = insert d (dom (sv_leak s)) \<and> unpatched s' = unpatched s
           else sv_leak s' = sv_leak s \<and> unpatched s' = Suc (unpatched s)))"

lemma give_up_dummy:
  assumes "leaks_ok s" "kmem_ok (dummy_mem s0)" "dummy_mem s = m" "kmalloc ok x (dummy_mem s0) = (Some d, m)"
    "dummy_list s = dummy_list s0" "stack s = stack s0" "disabled s = disabled s0" "sv_leak s = sv_leak s0"
    "alloc_queued s = alloc_queued s0" "cleanup_queued s = cleanup_queued s0" "unpatched s = unpatched s0"
  shows "\<exists>m'. kfree d m = Inr m' \<and> allocated None s0 (s\<lparr>dummy_mem := m'\<rparr>)"
proof -
  from kmalloc_granted [OF assms(2,4)] have d: "d \<notin> live (dummy_mem s0)" "live m = insert d (live (dummy_mem s0))"
    by blast+
  with free_dummy_ok [OF assms(1), of d] assms(3) obtain m' where
    "kfree d m = Inr m'" "live m' = live m - {d}" "leaks_ok (s\<lparr>dummy_mem := m'\<rparr>)" by auto
  with d assms(5-) show ?thesis by (auto simp: allocated_def)
qed

text \<open>The two allocation functions agree when one of their first two requests is refused.\<close>

lemma alloc_refused_ok:
  assumes "leaks_ok s" and "kmalloc (fst ok) (j + m2j EXPIRE_MS) (dummy_mem s) = (r1, m1)"
    and "kmalloc (snd ok) () (leak_mem s) = (r2, m2)" and "r1 = None \<or> r2 = None"
  shows "\<exists>s'. dummy_alloc ok m2j j s = Inr (None, s') \<and> fix1_dummy_alloc ok m2j j s = Inr (None, s') \<and>
           allocated None s s'"
proof (cases r1)
  case None
  with kmalloc_refused [OF _ assms(2) [unfolded None]] assms(1) have
    m1: "live m1 = live (dummy_mem s)" "kmem_ok m1" "brk m1 = Suc (brk (dummy_mem s))" by (simp_all add: leaks_ok_def)
  with assms(1) have "leaks_ok (s\<lparr>dummy_mem := m1\<rparr>)" by (intro leaks_ok_dummy_mem) simp_all
  with assms(2) None m1 show ?thesis by (simp add: dummy_alloc_def fix1_dummy_alloc_def allocated_def)
next
  case (Some d)
  with assms(4) have r2: "r2 = None" by simp
  from assms(1) have k: "kmem_ok (dummy_mem s)" "kmem_ok (leak_mem s)" by (simp_all add: leaks_ok_def)
  note g1 = assms(2) [unfolded Some] and g2 = assms(3) [unfolded r2]
  from kmalloc_granted [OF k(1) g1] assms(1) have "leaks_ok (s\<lparr>dummy_mem := m1\<rparr>)"
    by (intro leaks_ok_dummy_mem) simp_all
  with kmalloc_refused [OF k(2) g2] leaks_ok_leak_mem [of "s\<lparr>dummy_mem := m1\<rparr>" m2]
  have "leaks_ok (s\<lparr>dummy_mem := m1, leak_mem := m2\<rparr>)" by simp
  from give_up_dummy [OF this k(1) _ g1] obtain m' where
    "kfree d m1 = Inr m'" "allocated None s (s\<lparr>dummy_mem := m1, leak_mem := m2, dummy_mem := m'\<rparr>)" by auto
  with g1 g2 show ?thesis by (simp add: dummy_alloc_def fix1_dummy_alloc_def)
qed

lemma dummy_alloc_ok:
  assumes "leaks_ok s" "Fix1 \<notin> set (stack s)"
  shows "\<exists>r s'. dummy_alloc ok m2j j s = Inr (r, s') \<and> allocated r s s'"
proof -
  from assms(1) have k: "kmem_ok (dummy_mem s)" "kmem_ok (leak_mem s)" by (simp_all add: leaks_ok_def)
  obtain r1 m1 where 1: "kmalloc (fst ok) (j + m2j EXPIRE_MS) (dummy_mem s) = (r1, m1)" by fastforce
  obtain r2 m2 where 2: "kmalloc (snd ok) () (leak_mem s) = (r2, m2)" by fastforce
  show ?thesis
  proof (cases "r1 = None \<or> r2 = None")
    case True
    with alloc_refused_ok [where j = j and m2j = m2j, OF assms(1) 1 2] show ?thesis by blast
  next
    case False
    then obtain d leak where r: "r1 = Some d" "r2 = Some leak" by auto
    from kmalloc_granted [OF k(1) 1 [unfolded r]] have m1: "d \<notin> live (dummy_mem s)"
      "live m1 = insert d (live (dummy_mem s))" "kmem_ok m1" "brk m1 = Suc (brk (dummy_mem s))" by blast+
    from kmalloc_granted [OF k(2) 2 [unfolded r]] have m2: "leak \<notin> live (leak_mem s)"
      "live m2 = insert leak (live (leak_mem s))" "kmem_ok m2" by blast+
    have "leaks_ok (s\<lparr>dummy_mem := m1\<rparr>)" using assms(1) m1 by (intro leaks_ok_dummy_mem) simp_all
    moreover from m2 finite_live [OF k(2)] have "card (live m2) = Suc (card (live (leak_mem s)))" by simp
    ultimately have "leaks_ok (say (Alloc_msg None d (j + m2j EXPIRE_MS)) (s\<lparr>dummy_mem := m1, leak_mem := m2\<rparr>))"
      using m2 by (auto simp: leaks_ok_def)
    with 1 2 r m1 assms(2) show ?thesis by (simp add: dummy_alloc_def allocated_def)
  qed
qed

text \<open>A granted shadow variable keeps the account: one more integer is live, and it is tracked.\<close>

lemma track_ok:
  assumes "leaks_ok s" "d \<notin> dom (sv_leak s)" "d < brk (dummy_mem s)" "leak \<notin> live (leak_mem s)"
    "live m = insert leak (live (leak_mem s))" "kmem_ok m" "Fix1 \<in> set (stack s)"
  shows "leaks_ok (s\<lparr>leak_mem := m, sv_leak := (sv_leak s)(d \<mapsto> leak)\<rparr>)"
proof (rule leaks_okI [where m = m and sv = "(sv_leak s)(d \<mapsto> leak)"])
  have "finite (dom (sv_leak s))" "finite (live (leak_mem s))"
    using assms(1) by (auto simp: leaks_ok_def finite_live intro: finite_subset)
  with assms show "card (live m) = unpatched (s\<lparr>leak_mem := m, sv_leak := (sv_leak s)(d \<mapsto> leak)\<rparr>)
      + card (dom ((sv_leak s)(d \<mapsto> leak)))"
    by (simp add: leaks_ok_def)
  show "inj_on ((sv_leak s)(d \<mapsto> leak)) (dom ((sv_leak s)(d \<mapsto> leak)))"
    using assms(1,2,4) by (auto simp: leaks_ok_def inj_on_def ran_def dom_def)
  show "ran ((sv_leak s)(d \<mapsto> leak)) \<subseteq> live m"
    using assms(1,5) by (auto simp: leaks_ok_def ran_def split: if_splits)
qed (use assms in \<open>auto simp: leaks_ok_def\<close>)

lemma fix1_dummy_alloc_ok:
  assumes "leaks_ok s" "Fix1 \<in> set (stack s)"
  shows "\<exists>r s'. fix1_dummy_alloc ok m2j j s = Inr (r, s') \<and> allocated r s s'"
proof -
  from assms(1) have k: "kmem_ok (dummy_mem s)" "kmem_ok (leak_mem s)" by (simp_all add: leaks_ok_def)
  obtain r1 m1 where 1: "kmalloc (fst ok) (j + m2j EXPIRE_MS) (dummy_mem s) = (r1, m1)" by fastforce
  obtain r2 m2 where 2: "kmalloc (snd ok) () (leak_mem s) = (r2, m2)" by fastforce
  show ?thesis
  proof (cases "r1 = None \<or> r2 = None")
    case True
    with alloc_refused_ok [where j = j and m2j = m2j, OF assms(1) 1 2] show ?thesis by blast
  next
    case False
    then obtain d leak where r: "r1 = Some d" "r2 = Some leak" by auto
    note g1 = 1 [unfolded r] and g2 = 2 [unfolded r]
    from kmalloc_granted [OF k(1) g1] have m1: "d = brk (dummy_mem s)" "d \<notin> live (dummy_mem s)"
      "live m1 = insert d (live (dummy_mem s))" "kmem_ok m1" "brk m1 = Suc (brk (dummy_mem s))" by blast+
    from kmalloc_granted [OF k(2) g2] have m2: "leak \<notin> live (leak_mem s)"
      "live m2 = insert leak (live (leak_mem s))" "kmem_ok m2" by blast+
    have ok1: "leaks_ok (s\<lparr>dummy_mem := m1\<rparr>)" using assms(1) m1 by (intro leaks_ok_dummy_mem) simp_all
    have sv: "d \<notin> dom (sv_leak s)" using assms(1) m1(1) by (auto simp: leaks_ok_def)
    obtain g m3 where 3: "krequest (snd ok) m2 = (g, m3)" by fastforce
    with krequest_kmem [where ok = "snd ok" and m = m2] m2 have
      m3: "live m3 = insert leak (live (leak_mem s))" "kmem_ok m3" by simp_all
    show ?thesis
    proof (cases g)
      case False
      from m2 m3 km.free_alive [of m3 leak] obtain m4 where
        m4: "kfree leak m3 = Inr m4" "live m4 = live (leak_mem s)" "kmem_ok m4" by auto
      let ?t = "say (No_shadow_msg d leak) (s\<lparr>dummy_mem := m1, leak_mem := m3\<rparr>)\<lparr>leak_mem := m4\<rparr>"
      from leaks_ok_leak_mem [OF ok1 m4(3)] m4(2) have "leaks_ok ?t" by (simp add: leaks_ok_def)
      from give_up_dummy [OF this k(1) _ g1] obtain m' where
        "kfree d m1 = Inr m'" "allocated None s (?t\<lparr>dummy_mem := m'\<rparr>)" by auto
      with g1 g2 3 False m4 show ?thesis by (simp add: fix1_dummy_alloc_def)
    next
      case True
      from track_ok [OF ok1, of d leak m3] sv m1 m2 m3 assms(2)
      have "leaks_ok (s\<lparr>dummy_mem := m1, leak_mem := m3, sv_leak := (sv_leak s)(d \<mapsto> leak)\<rparr>)" by simp
      then have "leaks_ok (say (Alloc_msg (Some Fix1) d (j + m2j EXPIRE_MS))
          (s\<lparr>dummy_mem := m1, leak_mem := m3, sv_leak := (sv_leak s)(d \<mapsto> leak)\<rparr>))"
        by (simp add: leaks_ok_def)
      with g1 g2 3 True m1 sv assms(2) show ?thesis
        by (auto simp: fix1_dummy_alloc_def allocated_def shadow_leak_ctor_def dom_def)
    qed
  qed
qed

lemma call_alloc_ok:
  "leaks_ok s \<Longrightarrow> \<exists>r s'. call_alloc ok m2j j s = Inr (r, s') \<and> allocated r s s'"
  using dummy_alloc_ok fix1_dummy_alloc_ok by (simp add: call_alloc_def)

section \<open>Every event keeps the account\<close>

lemma alloc_work_ok:
  assumes "shI s"
  shows "\<exists>s'. alloc_work_func ok m2j j s = Inr s' \<and> shI s' \<and> stack s' = stack s \<and>
           (Fix1 \<in> set (stack s) \<longrightarrow> unpatched s' = unpatched s \<and>
             (dom (sv_leak s) \<subseteq> set (dummy_list s) \<longrightarrow> dom (sv_leak s') \<subseteq> set (dummy_list s')))"
proof -
  from assms call_alloc_ok [of s ok m2j j] obtain r t where
    t: "call_alloc ok m2j j s = Inr (r, t)" "allocated r s t" by (auto simp: shI_def)
  show ?thesis
  proof (cases r)
    case None
    with t have "alloc_work_func ok m2j j s = Inr t" by (simp add: alloc_work_func_def)
    with t None assms show ?thesis by (simp add: shI_def allocated_def)
  next
    case (Some d)
    let ?s = "t\<lparr>dummy_list := d # dummy_list t, alloc_queued := True\<rparr>"
    from t Some have run: "alloc_work_func ok m2j j s = Inr ?s" by (simp add: alloc_work_func_def)
    have "shI ?s" using t Some assms by (simp add: shI_def allocated_def)
    moreover have "stack ?s = stack s" using t(2) by (simp add: allocated_def)
    moreover have "unpatched ?s = unpatched s \<and> dom (sv_leak ?s) = insert d (dom (sv_leak s)) \<and>
        set (dummy_list ?s) = insert d (set (dummy_list s))" if "Fix1 \<in> set (stack s)"
      using t(2) that Some by (simp add: allocated_def)
    ultimately show ?thesis using run by blast
  qed
qed

text \<open>Releasing a dummy that is taken off the list first.\<close>

lemma drop_dummy_ok:
  assumes "shI s" "d \<in> set (dummy_list s)"
  shows "\<exists>s'. call_free d (s\<lparr>dummy_list := removeAll d (dummy_list s)\<rparr>) = Inr s' \<and> shI s' \<and>
           dummy_list s' = removeAll d (dummy_list s) \<and> stack s' = stack s \<and> disabled s' = disabled s \<and>
           unpatched s' = unpatched s \<and>
           sv_leak s' = (if stack s = [] then sv_leak s else (sv_leak s)(d := None))"
proof -
  let ?t = "s\<lparr>dummy_list := removeAll d (dummy_list s)\<rparr>"
  from assms have "leaks_ok ?t" "d \<in> live (dummy_mem ?t)" by (auto simp: shI_def)
  from call_free_ok [OF this] obtain s' where "call_free d ?t = Inr s'" "released d ?t s'" by blast
  with assms show ?thesis by (auto simp: released_def ctl_same_def shI_def distinct_removeAll)
qed

lemma call_check_ok:
  assumes "shI s" "d \<in> set (dummy_list s)"
  shows "\<exists>b c. call_check g d j s = Inr (b, s\<lparr>sv_counter := c\<rparr>)"
proof -
  from assms obtain e where e: "kread d (dummy_mem s) = Inr e" using kread_live by (metis shI_def)
  have s: "s = s\<lparr>sv_counter := sv_counter s\<rparr>" by simp
  show ?thesis
  proof (cases "Fix2 \<in> set (stack s)")
    case True
    with e show ?thesis
      by (cases "sv_counter s d") (auto simp: call_check_def fix2_dummy_check_def intro: s)
  next
    case False
    with e show ?thesis by (auto simp: call_check_def dummy_check_def intro: s)
  qed
qed

lemma shI_upd [simp]:
  "shI (s\<lparr>sv_counter := c\<rparr>) = shI s" "shI (s\<lparr>alloc_queued := a\<rparr>) = shI s"
  "shI (s\<lparr>cleanup_queued := a\<rparr>) = shI s" "shI (say (Cleanup_msg j) s) = shI s"
  by (simp_all add: shI_def leaks_ok_def)

text \<open>What a pass over the list leaves: the account, the patches, and fewer tracked integers.\<close>

definition passed :: "sh \<Rightarrow> sh \<Rightarrow> bool" where
  "passed s s' \<longleftrightarrow> shI s' \<and> stack s' = stack s \<and> disabled s' = disabled s \<and> unpatched s' = unpatched s \<and>
     set (dummy_list s') \<subseteq> set (dummy_list s) \<and> dom (sv_leak s') \<subseteq> dom (sv_leak s) \<and>
     (stack s \<noteq> [] \<longrightarrow> dom (sv_leak s') \<inter> set (dummy_list s) \<subseteq> set (dummy_list s'))"

lemma passed_trans: "passed s t \<Longrightarrow> passed t u \<Longrightarrow> passed s u"
  unfolding passed_def by (elim conjE, intro conjI) (simp_all, blast+)

lemma cleanup_one_ok:
  assumes "shI s" "d \<in> set (dummy_list s)"
  shows "\<exists>s'. cleanup_one g j d s = Inr s' \<and> passed s s' \<and> set (dummy_list s) - {d} \<subseteq> set (dummy_list s')"
proof -
  from call_check_ok [OF assms] obtain b c where c: "call_check g d j s = Inr (b, s\<lparr>sv_counter := c\<rparr>)" by blast
  let ?t = "s\<lparr>sv_counter := c\<rparr>"
  show ?thesis
  proof (cases b)
    case True
    from assms drop_dummy_ok [of ?t d] obtain s' where
      "call_free d (?t\<lparr>dummy_list := removeAll d (dummy_list ?t)\<rparr>) = Inr s'" "shI s'"
      "dummy_list s' = removeAll d (dummy_list ?t)" "stack s' = stack s" "disabled s' = disabled s"
      "unpatched s' = unpatched s" "sv_leak s' = (if stack s = [] then sv_leak s else (sv_leak s)(d := None))"
      by auto
    with c True show ?thesis by (auto simp: cleanup_one_def passed_def)
  next
    case False
    with c assms show ?thesis by (auto simp: cleanup_one_def passed_def)
  qed
qed

lemma cleanup_loop_ok:
  "shI s \<Longrightarrow> distinct ds \<Longrightarrow> set ds \<subseteq> set (dummy_list s) \<Longrightarrow>
     \<exists>s'. foldM (cleanup_one g j) ds s = Inr s' \<and> passed s s'"
proof (induction ds arbitrary: s)
  case Nil
  then show ?case by (simp add: passed_def)
next
  case (Cons d ds)
  from Cons.prems cleanup_one_ok [of s d g j] obtain t where
    t: "cleanup_one g j d s = Inr t" "passed s t" "set (dummy_list s) - {d} \<subseteq> set (dummy_list t)" by auto
  moreover from t Cons.prems have "shI t" "set ds \<subseteq> set (dummy_list t)" by (auto simp: passed_def)
  ultimately show ?case using Cons.IH [of t] Cons.prems(2) passed_trans by fastforce
qed

lemma cleanup_work_ok:
  assumes "shI s"
  shows "\<exists>s'. cleanup_work_func g j s = Inr s' \<and> passed s s'"
proof -
  let ?s = "say (Cleanup_msg j) s"
  from assms have "shI ?s" "distinct (dummy_list s)" by (simp, simp add: shI_def)
  with cleanup_loop_ok [of ?s "dummy_list s" g j] obtain s' where
    "foldM (cleanup_one g j) (dummy_list s) ?s = Inr s'" "passed ?s s'" by auto
  then show ?thesis by (simp add: cleanup_work_func_def passed_def)
qed

lemma fix1_exit_ok:
  "shI s \<Longrightarrow> \<exists>s'. livepatch_shadow_fix1_exit objs s = Inr s' \<and> shI s' \<and> ctl_same s s' \<and>
     sv_leak s' = (\<lambda>d. if d \<in> set objs then None else sv_leak s d)"
proof (induction objs arbitrary: s)
  case Nil
  then show ?case by (simp add: livepatch_shadow_fix1_exit_def)
next
  case (Cons d objs)
  from Cons.prems shadow_free_leak_ok [of s d] obtain t where
    t: "shadow_free_leak d s = Inr t" "leaks_ok t" "ctl_same s t" "dummy_mem t = dummy_mem s"
      "sv_leak t = (sv_leak s)(d := None)" by (auto simp: shI_def)
  with Cons.prems have "shI t" by (simp add: shI_def ctl_same_def)
  from Cons.IH [OF this] t obtain s' where
    "foldM shadow_free_leak objs t = Inr s'" "shI s'" "ctl_same s s'"
    "sv_leak s' = (\<lambda>x. if x \<in> set objs then None else sv_leak t x)"
    using ctl_same_trans by (auto simp: livepatch_shadow_fix1_exit_def)
  with t show ?case by (auto simp: livepatch_shadow_fix1_exit_def fun_eq_iff)
qed

text \<open>While the first patch stays enabled from the start, every integer is tracked by a dummy.\<close>

definition fixed :: "sh \<Rightarrow> bool" where
  "fixed s \<longleftrightarrow> Fix1 \<in> set (stack s) \<and> unpatched s = 0 \<and> dom (sv_leak s) \<subseteq> set (dummy_list s)"

lemma passed_fixed: "passed s s' \<Longrightarrow> fixed s \<Longrightarrow> fixed s'"
  unfolding passed_def fixed_def by (elim conjE, intro conjI) (simp_all, force)

lemma shI_stack:
  "shI s \<Longrightarrow> (Fix1 \<notin> set st \<union> set ds \<longrightarrow> sv_leak s = Map.empty) \<Longrightarrow>
     shI (s\<lparr>stack := st, disabled := ds\<rparr>)"
  by (simp add: shI_def leaks_ok_def)

lemma sh_step_ok:
  assumes "shI s"
  shows "\<exists>s'. sh_step ok m2j e s = Inr s' \<and> shI s' \<and> (fixed s \<and> e \<noteq> Disable Fix1 \<longrightarrow> fixed s')"
proof (cases e)
  case (Alloc j)
  let ?s = "s\<lparr>alloc_queued := False\<rparr>"
  from assms have "shI ?s" by simp
  from alloc_work_ok [OF this, of ok m2j j] show ?thesis
    using Alloc assms by (auto simp: sh_step_def fixed_def)
next
  case (Cleanup g j)
  let ?s = "s\<lparr>cleanup_queued := False\<rparr>"
  from assms have "shI ?s" by simp
  from cleanup_work_ok [OF this, of g j] obtain s' where
    "cleanup_work_func g j ?s = Inr s'" "passed ?s s'" by blast
  moreover have "fixed ?s = fixed s" by (simp add: fixed_def)
  ultimately show ?thesis
    using Cleanup assms passed_fixed [of ?s s'] by (auto simp: sh_step_def passed_def)
next
  case (Load p)
  have "shI (s\<lparr>stack := p # stack s, disabled := disabled s\<rparr>)"
    using assms by (intro shI_stack) (auto simp: shI_def leaks_ok_def)
  with Load assms show ?thesis by (auto simp: sh_step_def fixed_def)
next
  case (Disable p)
  have "shI (s\<lparr>stack := removeAll p (stack s), disabled := p # disabled s\<rparr>)"
    using assms by (intro shI_stack) (auto simp: shI_def leaks_ok_def)
  with Disable assms show ?thesis by (auto simp: sh_step_def fixed_def)
next
  case (Unload1 objs)
  from fix1_exit_ok [OF assms, of objs] obtain t where
    t: "livepatch_shadow_fix1_exit objs s = Inr t" "shI t" "ctl_same s t"
      "sv_leak t = (\<lambda>d. if d \<in> set objs then None else sv_leak s d)" by blast
  show ?thesis
  proof (cases "Fix1 \<in> set (disabled s) \<and> distinct objs \<and> set objs = dom (sv_leak s)")
    case True
    with t(4) have "sv_leak t = Map.empty" by (auto simp: fun_eq_iff)
    with t(2) have "shI (t\<lparr>stack := stack t, disabled := removeAll Fix1 (disabled t)\<rparr>)"
      by (intro shI_stack) simp_all
    then have "shI (t\<lparr>disabled := removeAll Fix1 (disabled t)\<rparr>)" by simp
    moreover have "fixed s \<longrightarrow> fixed (t\<lparr>disabled := removeAll Fix1 (disabled t)\<rparr>)"
      using t(3) \<open>sv_leak t = Map.empty\<close> by (simp add: fixed_def ctl_same_def)
    ultimately show ?thesis using t(1) True Unload1 by (simp add: sh_step_def)
  qed (use Unload1 assms in \<open>auto simp: sh_step_def\<close>)
next
  case Unload2
  let ?s = "s\<lparr>sv_counter := Map.empty\<rparr>"
  from assms have "shI (?s\<lparr>stack := stack ?s, disabled := removeAll Fix2 (disabled ?s)\<rparr>)"
    by (intro shI_stack) (auto simp: shI_def leaks_ok_def)
  with Unload2 assms show ?thesis
    by (simp add: sh_step_def livepatch_shadow_fix2_exit_def fixed_def)
qed

lemma shI_init: "shI livepatch_shadow_mod_init"
  by (simp add: livepatch_shadow_mod_init_def shI_def leaks_ok_def kmem_empty_def live_def kmem_ok_def
      unpatched_def)

lemma sh_run_ok:
  "shI s \<Longrightarrow> \<exists>s'. foldM (sh_step ok m2j) es s = Inr s' \<and> shI s' \<and>
     (fixed s \<and> Disable Fix1 \<notin> set es \<longrightarrow> fixed s')"
proof (induction es arbitrary: s)
  case (Cons e es)
  from sh_step_ok [OF Cons.prems] obtain t where
    "sh_step ok m2j e s = Inr t" "shI t" "fixed s \<and> e \<noteq> Disable Fix1 \<longrightarrow> fixed t" by blast
  with Cons.IH [of t] show ?case by auto
qed simp

lemma exit_loop_ok:
  "shI s \<Longrightarrow> ds = dummy_list s \<Longrightarrow> \<exists>s'. foldM exit_one ds s = Inr s' \<and> passed s s' \<and> dummy_list s' = []"
proof (induction ds arbitrary: s)
  case (Cons d ds)
  from drop_dummy_ok [OF Cons.prems(1), of d] Cons.prems(2) obtain t where
    t: "exit_one d s = Inr t" "shI t" "dummy_list t = removeAll d (dummy_list s)" "stack t = stack s"
      "disabled t = disabled s" "unpatched t = unpatched s"
      "sv_leak t = (if stack s = [] then sv_leak s else (sv_leak s)(d := None))"
    by (auto simp: exit_one_def) (metis list.set_intros(1))
  moreover from Cons.prems t(3) have "ds = dummy_list t"
    by (auto simp: shI_def) (metis distinct.simps(2) removeAll.simps(2) removeAll_id)
  moreover from t have "passed s t" by (auto simp: passed_def)
  ultimately show ?case using Cons.IH [of t] passed_trans by fastforce
qed (simp add: passed_def)

lemma mod_exit_ok:
  assumes "shI s"
  shows "\<exists>s'. livepatch_shadow_mod_exit s = Inr s' \<and> passed s s' \<and> dummy_list s' = []"
proof -
  let ?s = "s\<lparr>alloc_queued := False, cleanup_queued := False\<rparr>"
  from assms exit_loop_ok [of ?s "dummy_list s"] obtain s' where
    "foldM exit_one (dummy_list s) ?s = Inr s'" "passed ?s s'" "dummy_list s' = []" by auto
  then show ?thesis by (simp add: livepatch_shadow_mod_exit_def passed_def)
qed

section \<open>Properties\<close>

text \<open>
  When the first patch is loaded before the first allocation and stays enabled, nothing is
  leaked: after the unload no dummy and no integer is live, whatever else happens and whichever
  allocations are refused.
\<close>

lemma fix1_no_leak:
  assumes "Disable Fix1 \<notin> set es"
  shows "\<exists>s s'. foldM (sh_step ok m2j) (Load Fix1 # es) livepatch_shadow_mod_init = Inr s \<and>
     livepatch_shadow_mod_exit s = Inr s' \<and> live (dummy_mem s') = {} \<and> live (leak_mem s') = {}"
proof -
  obtain t where t: "sh_step ok m2j (Load Fix1) livepatch_shadow_mod_init = Inr t" "shI t"
    using sh_step_ok [OF shI_init, of ok m2j "Load Fix1"] by blast
  then have "fixed t" by (auto simp: sh_step_def livepatch_shadow_mod_init_def fixed_def unpatched_def)
  with sh_run_ok [OF t(2), of ok m2j es] assms obtain s where
    s: "foldM (sh_step ok m2j) es t = Inr s" "shI s" "fixed s" by blast
  from mod_exit_ok [OF s(2)] obtain s' where
    e: "livepatch_shadow_mod_exit s = Inr s'" "passed s s'" "dummy_list s' = []" by blast
  with passed_fixed s(3) have "fixed s'" by blast
  with e have "live (dummy_mem s') = {}" "card (live (leak_mem s')) = 0" "finite (live (leak_mem s'))"
    by (auto simp: passed_def shI_def leaks_ok_def fixed_def finite_live)
  with t(1) s(1) e(1) show ?thesis by auto
qed

text \<open>
  C23. Whatever works run and whatever patches are loaded, disabled and unloaded in between, the
  demo never faults, its unload releases every dummy, and the integers it leaks are exactly those
  of the dummies that the unpatched \<open>dummy_alloc\<close> made, besides the ones that the first patch
  still tracks while it is loaded. When the first patch is loaded before the first allocation and
  stays enabled, nothing is leaked, whatever else happens and whichever allocations are refused.
\<close>

theorem shadow_leaks:
  "(\<exists>s s'. foldM (sh_step ok m2j) es livepatch_shadow_mod_init = Inr s \<and>
     livepatch_shadow_mod_exit s = Inr s' \<and> live (dummy_mem s') = {} \<and>
     card (live (leak_mem s')) =
       unpatched s' + (if Fix1 \<in> set (stack s') \<union> set (disabled s') then card (dom (sv_leak s')) else 0)) \<and>
   (Disable Fix1 \<notin> set es \<longrightarrow>
     (\<exists>s s'. foldM (sh_step ok m2j) (Load Fix1 # es) livepatch_shadow_mod_init = Inr s \<and>
       livepatch_shadow_mod_exit s = Inr s' \<and> live (dummy_mem s') = {} \<and> live (leak_mem s') = {}))"
proof
  from sh_run_ok [OF shI_init, of ok m2j es] obtain s where
    s: "foldM (sh_step ok m2j) es livepatch_shadow_mod_init = Inr s" "shI s" by blast
  from mod_exit_ok [OF s(2)] obtain s' where
    e: "livepatch_shadow_mod_exit s = Inr s'" "passed s s'" "dummy_list s' = []" by blast
  then have "live (dummy_mem s') = {}" "leaks_ok s'" by (auto simp: passed_def shI_def)
  with s(1) e(1) show "\<exists>s s'. foldM (sh_step ok m2j) es livepatch_shadow_mod_init = Inr s \<and>
     livepatch_shadow_mod_exit s = Inr s' \<and> live (dummy_mem s') = {} \<and>
     card (live (leak_mem s')) =
       unpatched s' + (if Fix1 \<in> set (stack s') \<union> set (disabled s') then card (dom (sv_leak s')) else 0)"
    by (auto simp: leaks_ok_def)
qed (blast intro: fix1_no_leak)

theorem shadow_leaks_witness:
  "\<exists>s s'. foldM (sh_step (\<lambda>n. n \<noteq> 3, \<lambda>n. n \<noteq> 1) of_nat)
       (Load Fix1 # [Alloc 5, Load Fix2, Alloc 6, Cleanup (\<lambda>_. True) 20000, Alloc 7]) livepatch_shadow_mod_init = Inr s \<and>
     livepatch_shadow_mod_exit s = Inr s' \<and> live (dummy_mem s') = {} \<and> live (leak_mem s') = {}"
  using shadow_leaks [of "(\<lambda>n. n \<noteq> 3, \<lambda>n. n \<noteq> 1)" of_nat
      "[Alloc 5, Load Fix2, Alloc 6, Cleanup (\<lambda>_. True) 20000, Alloc 7]"] by auto

end
