(* ===== verification/Livepatch.thy ===== *)
theory Livepatch
  imports Prelude
begin

text \<open>
  The livepatch callback demos: \<open>livepatch-callbacks-demo.c\<close>, which registers callbacks for the
  kernel and for two modules and replaces a function of one of them, and its targets
  \<open>livepatch-callbacks-mod.c\<close> and \<open>livepatch-callbacks-busymod.c\<close>. The livepatch core calls the
  callbacks as the kernel's documentation of livepatch callbacks describes; its operations (named
  \<open>klp_\<close>) are generic in the table of objects and have no source of their own here.
\<close>

section \<open>State\<close>

datatype mod_state = LIVE | COMING | GOING | UNFORMED

definition module_state :: "mod_state \<Rightarrow> string" where
  "module_state st =
     (case st of
        LIVE \<Rightarrow> ''[MODULE_STATE_LIVE] Normal state''
      | COMING \<Rightarrow> ''[MODULE_STATE_COMING] Full formed, running module_init''
      | GOING \<Rightarrow> ''[MODULE_STATE_GOING] Going away''
      | UNFORMED \<Rightarrow> ''[MODULE_STATE_UNFORMED] Still setting it up'')"

datatype lp_msg =
    Callback_msg string "(string \<times> string) option"   \<comment> \<open>no module: vmlinux\<close>
  | Text_msg string
  | Sleep_msg string int

text \<open>
  A transition goes on until every task has switched over; \<open>Work_sleeping\<close> is the work of the
  busy module inside its original function.
\<close>

datatype phase = Absent | Patching | Patched | Unpatching

datatype work = Work_idle | Work_queued | Work_sleeping

datatype call = Pre_patch int | Post_patch | Pre_unpatch | Post_unpatch

record lp =
  pre_patch_ret :: int
  sleep_secs :: int
  lp_log :: "lp_msg list"
  lp_mods :: "string \<Rightarrow> mod_state option"
  lp_work :: work
  lp_phase :: phase
  lp_post_unpatch :: "nat \<Rightarrow> bool"     \<comment> \<open>\<open>post_unpatch_enabled\<close> of each object\<close>
  lp_patched :: "nat \<Rightarrow> bool"
  lp_calls :: "(nat \<times> call) list"      \<comment> \<open>the callbacks called so far, with the result of \<open>pre_patch\<close>\<close>

definition pr_info :: "lp_msg \<Rightarrow> lp \<Rightarrow> lp" where
  "pr_info m s = s\<lparr>lp_log := lp_log s @ [m]\<rparr>"

text \<open>An object of a patch; a function of it is replaced by its name.\<close>

record klp_object =
  ob_name :: "string option"
  ob_funcs :: "(string \<times> (lp \<Rightarrow> lp)) list"
  ob_pre_patch :: "string option \<Rightarrow> lp \<Rightarrow> int \<times> lp"
  ob_post_patch :: "string option \<Rightarrow> lp \<Rightarrow> lp"
  ob_pre_unpatch :: "string option \<Rightarrow> lp \<Rightarrow> lp"
  ob_post_unpatch :: "string option \<Rightarrow> lp \<Rightarrow> lp"

section \<open>The demo\<close>

text \<open>The module of an object, when it is loaded, with its state.\<close>

definition ob_mod :: "string option \<Rightarrow> lp \<Rightarrow> (string \<times> mod_state) option" where
  "ob_mod ob s = (case ob of None \<Rightarrow> None | Some n \<Rightarrow> map_option (Pair n) (lp_mods s n))"

definition callback_info :: "string \<Rightarrow> string option \<Rightarrow> lp \<Rightarrow> lp" where
  "callback_info callback ob s =
     (case ob_mod ob s of
        Some (n, st) \<Rightarrow> pr_info (Callback_msg callback (Some (n, module_state st))) s
      | None \<Rightarrow> pr_info (Callback_msg callback None) s)"

definition pre_patch_callback :: "string option \<Rightarrow> lp \<Rightarrow> int \<times> lp" where
  "pre_patch_callback ob s =
     (let s = callback_info ''pre_patch_callback'' ob s in (pre_patch_ret s, s))"

definition post_patch_callback :: "string option \<Rightarrow> lp \<Rightarrow> lp" where
  "post_patch_callback ob s = callback_info ''post_patch_callback'' ob s"

definition pre_unpatch_callback :: "string option \<Rightarrow> lp \<Rightarrow> lp" where
  "pre_unpatch_callback ob s = callback_info ''pre_unpatch_callback'' ob s"

definition post_unpatch_callback :: "string option \<Rightarrow> lp \<Rightarrow> lp" where
  "post_unpatch_callback ob s = callback_info ''post_unpatch_callback'' ob s"

definition patched_work_func :: "lp \<Rightarrow> lp" where
  "patched_work_func s = pr_info (Text_msg ''patched_work_func'') s"

definition no_funcs :: "(string \<times> (lp \<Rightarrow> lp)) list" where
  "no_funcs = []"

definition busymod_funcs :: "(string \<times> (lp \<Rightarrow> lp)) list" where
  "busymod_funcs = [(''busymod_work_func'', patched_work_func)]"

definition objs :: "klp_object list" where
  "objs =
     [\<lparr>ob_name = None, ob_funcs = no_funcs,
       ob_pre_patch = pre_patch_callback, ob_post_patch = post_patch_callback,
       ob_pre_unpatch = pre_unpatch_callback, ob_post_unpatch = post_unpatch_callback\<rparr>,
      \<lparr>ob_name = Some ''livepatch_callbacks_mod'', ob_funcs = no_funcs,
       ob_pre_patch = pre_patch_callback, ob_post_patch = post_patch_callback,
       ob_pre_unpatch = pre_unpatch_callback, ob_post_unpatch = post_unpatch_callback\<rparr>,
      \<lparr>ob_name = Some ''livepatch_callbacks_busymod'', ob_funcs = busymod_funcs,
       ob_pre_patch = pre_patch_callback, ob_post_patch = post_patch_callback,
       ob_pre_unpatch = pre_unpatch_callback, ob_post_unpatch = post_unpatch_callback\<rparr>]"

section \<open>The livepatch core\<close>

definition klp_loaded :: "klp_object list \<Rightarrow> lp \<Rightarrow> nat \<Rightarrow> bool" where
  "klp_loaded obs s i \<longleftrightarrow>
     (case ob_name (obs ! i) of None \<Rightarrow> True | Some n \<Rightarrow> lp_mods s n \<noteq> None)"

definition klp_called :: "nat \<Rightarrow> call \<Rightarrow> lp \<Rightarrow> lp" where
  "klp_called i c s = s\<lparr>lp_calls := lp_calls s @ [(i, c)]\<rparr>"

definition klp_pre_patch :: "klp_object list \<Rightarrow> nat \<Rightarrow> lp \<Rightarrow> int \<times> lp" where
  "klp_pre_patch obs i s =
     (let (ret, s) = ob_pre_patch (obs ! i) (ob_name (obs ! i)) s
      in (ret, klp_called i (Pre_patch ret)
                (s\<lparr>lp_post_unpatch := (lp_post_unpatch s)(i := (ret = 0))\<rparr>)))"

definition klp_post_patch :: "klp_object list \<Rightarrow> nat \<Rightarrow> lp \<Rightarrow> lp" where
  "klp_post_patch obs i s = klp_called i Post_patch (ob_post_patch (obs ! i) (ob_name (obs ! i)) s)"

definition klp_pre_unpatch :: "klp_object list \<Rightarrow> nat \<Rightarrow> lp \<Rightarrow> lp" where
  "klp_pre_unpatch obs i s = klp_called i Pre_unpatch (ob_pre_unpatch (obs ! i) (ob_name (obs ! i)) s)"

definition klp_post_unpatch :: "klp_object list \<Rightarrow> nat \<Rightarrow> lp \<Rightarrow> lp" where
  "klp_post_unpatch obs i s =
     (let s = (if lp_post_unpatch s i
               then klp_called i Post_unpatch (ob_post_unpatch (obs ! i) (ob_name (obs ! i)) s) else s)
      in s\<lparr>lp_post_unpatch := (lp_post_unpatch s)(i := False)\<rparr>)"

definition klp_patch_object :: "nat \<Rightarrow> bool \<Rightarrow> lp \<Rightarrow> lp" where
  "klp_patch_object i b s = s\<lparr>lp_patched := (lp_patched s)(i := b)\<rparr>"

text \<open>The loaded objects, in the order of the table.\<close>

definition klp_each :: "klp_object list \<Rightarrow> lp \<Rightarrow> nat list" where
  "klp_each obs s = filter (klp_loaded obs s) [0..<length obs]"

text \<open>
  The end of a transition: the loaded objects get \<open>post_patch\<close>, or lose their functions and get
  \<open>post_unpatch\<close>.
\<close>

definition klp_complete_transition :: "klp_object list \<Rightarrow> lp \<Rightarrow> lp" where
  "klp_complete_transition obs s =
     (if lp_phase s = Patching
      then (fold (klp_post_patch obs) (klp_each obs s) s)\<lparr>lp_phase := Patched\<rparr>
      else (fold (\<lambda>i s. klp_post_unpatch obs i (klp_patch_object i False s)) (klp_each obs s) s)
             \<lparr>lp_phase := Absent\<rparr>)"

text \<open>
  Enabling calls \<open>pre_patch\<close> and redirects the functions, object by object; the first error
  cancels the transition and is the result.
\<close>

fun klp_prepare :: "klp_object list \<Rightarrow> nat list \<Rightarrow> lp \<Rightarrow> int \<times> lp" where
  "klp_prepare obs [] s = (0, s)"
| "klp_prepare obs (i # is) s =
     (let (ret, s) = klp_pre_patch obs i s
      in if ret \<noteq> 0 then (ret, s) else klp_prepare obs is (klp_patch_object i True s))"

definition klp_enable_patch :: "klp_object list \<Rightarrow> lp \<Rightarrow> int \<times> lp" where
  "klp_enable_patch obs s =
     (let (ret, s) = klp_prepare obs (klp_each obs s) s
      in if ret \<noteq> 0 then (ret, klp_complete_transition obs (s\<lparr>lp_phase := Unpatching\<rparr>))
         else (0, s\<lparr>lp_phase := Patching\<rparr>))"

definition klp_disable_patch :: "klp_object list \<Rightarrow> lp \<Rightarrow> lp" where
  "klp_disable_patch obs s =
     (fold (\<lambda>i s. if lp_patched s i then klp_pre_unpatch obs i s else s) [0..<length obs] s)
       \<lparr>lp_phase := Unpatching\<rparr>"

definition klp_reverse_transition :: "lp \<Rightarrow> lp" where
  "klp_reverse_transition s =
     s\<lparr>lp_phase := (if lp_phase s = Patching then Unpatching else Patching)\<rparr>"

text \<open>
  A module is loaded: while a patch has an object for it, \<open>pre_patch\<close> may refuse it, and \<open>post_patch\<close>
  follows at once unless a transition is going on. A module goes: its objects are unpatched.
\<close>

definition klp_module_coming :: "klp_object list \<Rightarrow> nat \<Rightarrow> lp \<Rightarrow> int \<times> lp" where
  "klp_module_coming obs i s =
     (if lp_phase s = Absent then (0, s)
      else let (ret, s) = klp_pre_patch obs i s
           in if ret \<noteq> 0 then (ret, s)
              else let s = klp_patch_object i True s
                   in (0, if lp_phase s = Patched then klp_post_patch obs i s else s))"

definition klp_module_going :: "klp_object list \<Rightarrow> nat \<Rightarrow> lp \<Rightarrow> lp" where
  "klp_module_going obs i s =
     (if lp_phase s = Absent then s
      else let s = (if lp_phase s = Patched then klp_pre_unpatch obs i s else s)
           in klp_post_unpatch obs i (klp_patch_object i False s))"

definition livepatch_callbacks_demo_init :: "lp \<Rightarrow> int \<times> lp" where
  "livepatch_callbacks_demo_init s = klp_enable_patch objs s"

definition livepatch_callbacks_demo_exit :: "lp \<Rightarrow> lp" where
  "livepatch_callbacks_demo_exit s = s"

section \<open>The target modules\<close>

definition livepatch_callbacks_mod_init :: "lp \<Rightarrow> int \<times> lp" where
  "livepatch_callbacks_mod_init s =
     (0, pr_info (Text_msg ''livepatch_callbacks_mod_init2'')
          (pr_info (Text_msg ''livepatch_callbacks_mod_init'')
            (pr_info (Text_msg ''livepatch_callbacks_mod_init1'') s)))"

definition livepatch_callbacks_mod_exit :: "lp \<Rightarrow> lp" where
  "livepatch_callbacks_mod_exit s =
     pr_info (Text_msg ''livepatch_callbacks_mod_exit2'')
       (pr_info (Text_msg ''livepatch_callbacks_mod_exit'')
         (pr_info (Text_msg ''livepatch_callbacks_mod_exit1'') s))"

text \<open>The work of the busy module in two halves: up to its sleep, and after it.\<close>

definition busymod_work_func :: "lp \<Rightarrow> lp" where
  "busymod_work_func s =
     (pr_info (Sleep_msg ''busymod_work_func'' (sleep_secs s)) s)\<lparr>lp_work := Work_sleeping\<rparr>"

definition busymod_work_end :: "lp \<Rightarrow> lp" where
  "busymod_work_end s = (pr_info (Text_msg ''busymod_work_func exit'') s)\<lparr>lp_work := Work_idle\<rparr>"

definition busymod_init :: "lp \<Rightarrow> int \<times> lp" where
  "busymod_init s =
     (let s = pr_info (Text_msg ''livepatch_callbacks_mod_init'') s
      in (0, if lp_work s = Work_idle then s\<lparr>lp_work := Work_queued\<rparr> else s))"

text \<open>
  The unload cancels the work and waits for it: it gets past this point with the work idle.
\<close>

definition busymod_exit :: "lp \<Rightarrow> lp" where
  "busymod_exit s = pr_info (Text_msg ''livepatch_callbacks_mod_exit'') (s\<lparr>lp_work := Work_idle\<rparr>)"

section \<open>What can happen\<close>

text \<open>
  A call of a function goes to its replacement when its object is patched and the task has
  switched over.
\<close>

definition klp_call :: "klp_object list \<Rightarrow> nat \<Rightarrow> string \<Rightarrow> (lp \<Rightarrow> lp) \<Rightarrow> bool \<Rightarrow> lp \<Rightarrow> lp" where
  "klp_call obs i f original switched s =
     (case map_of (ob_funcs (obs ! i)) f of
        Some new \<Rightarrow> if lp_patched s i \<and> switched then new s else original s
      | None \<Rightarrow> original s)"

definition target_init :: "nat \<Rightarrow> lp \<Rightarrow> int \<times> lp" where
  "target_init i s = (if i = 1 then livepatch_callbacks_mod_init s else busymod_init s)"

definition target_exit :: "nat \<Rightarrow> lp \<Rightarrow> lp" where
  "target_exit i s = (if i = 1 then livepatch_callbacks_mod_exit s else busymod_exit s)"

definition set_mod :: "nat \<Rightarrow> mod_state option \<Rightarrow> lp \<Rightarrow> lp" where
  "set_mod i st s = s\<lparr>lp_mods := (lp_mods s)(the (ob_name (objs ! i)) := st)\<rparr>"

definition load_module :: "nat \<Rightarrow> lp \<Rightarrow> int \<times> lp" where
  "load_module i s =
     (let (ret, s) = klp_module_coming objs i (set_mod i (Some COMING) s)
      in (ret, if ret \<noteq> 0 then set_mod i None s else s))"

definition start_module :: "nat \<Rightarrow> lp \<Rightarrow> lp" where
  "start_module i s = set_mod i (Some LIVE) (snd (target_init i s))"

definition unload_module :: "nat \<Rightarrow> lp \<Rightarrow> lp" where
  "unload_module i s =
     set_mod i None (klp_module_going objs i (target_exit i (set_mod i (Some GOING) s)))"

definition mod_is :: "nat \<Rightarrow> mod_state option \<Rightarrow> lp \<Rightarrow> bool" where
  "mod_is i st s \<longleftrightarrow> (i = 1 \<or> i = 2) \<and> lp_mods s (the (ob_name (objs ! i))) = st"

text \<open>
  The events come in any order: the patch is enabled, a transition completes (not to the patched
  state while the busy module sleeps in its function), the patch is disabled, a transition is
  reversed, a parameter is written, a target module is loaded, started and unloaded, its work runs
  and ends. In a transition the task of the work may or may not have switched over.
\<close>

inductive lp_step :: "lp \<Rightarrow> lp \<Rightarrow> bool" where
  enable: "lp_phase s = Absent \<Longrightarrow> livepatch_callbacks_demo_init s = (ret, s') \<Longrightarrow> lp_step s s'"
| leave: "lp_phase s = Absent \<Longrightarrow> lp_step s (livepatch_callbacks_demo_exit s)"
| complete: "lp_phase s = Unpatching \<or> lp_phase s = Patching \<and> lp_work s \<noteq> Work_sleeping \<Longrightarrow>
     lp_step s (klp_complete_transition objs s)"
| disable: "lp_phase s = Patched \<Longrightarrow> lp_step s (klp_disable_patch objs s)"
| reverse: "lp_phase s = Unpatching \<or> lp_phase s = Patching \<Longrightarrow>
     lp_step s (klp_reverse_transition s)"
| parameter: "lp_step s (s\<lparr>pre_patch_ret := r, sleep_secs := n\<rparr>)"
| load: "mod_is i None s \<Longrightarrow> load_module i s = (ret, s') \<Longrightarrow> lp_step s s'"
| start: "mod_is i (Some COMING) s \<Longrightarrow> lp_step s (start_module i s)"
| unload: "mod_is i (Some LIVE) s \<Longrightarrow> i = 1 \<or> lp_work s \<noteq> Work_sleeping \<Longrightarrow>
     lp_step s (unload_module i s)"
| run: "lp_work s = Work_queued \<Longrightarrow> lp_phase s = Patched \<longrightarrow> switched \<Longrightarrow>
     lp_step s (klp_call objs 2 ''busymod_work_func'' busymod_work_func switched
                 (s\<lparr>lp_work := Work_idle\<rparr>))"
| wake: "lp_work s = Work_sleeping \<Longrightarrow> lp_step s (busymod_work_end s)"

inductive lp_reach :: "lp \<Rightarrow> lp \<Rightarrow> bool" for s where
  here: "lp_reach s s"
| there: "lp_reach s t \<Longrightarrow> lp_step t u \<Longrightarrow> lp_reach s u"

definition lp_start :: lp where
  "lp_start =
     \<lparr>pre_patch_ret = 0, sleep_secs = 0, lp_log = [], lp_mods = Map.empty, lp_work = Work_idle,
      lp_phase = Absent, lp_post_unpatch = (\<lambda>_. False), lp_patched = (\<lambda>_. False), lp_calls = []\<rparr>"

section \<open>The protocol of an object\<close>

text \<open>
  What the documentation promises to the callbacks of one object: sessions that a successful
  \<open>pre_patch\<close> opens and a \<open>post_unpatch\<close> closes.
\<close>

datatype sess = Idle | Prepared | Active | Leaving | Broken

fun sess_step :: "sess \<Rightarrow> call \<Rightarrow> sess" where
  "sess_step Idle (Pre_patch ret) = (if ret = 0 then Prepared else Idle)"
| "sess_step Prepared Post_patch = Active"
| "sess_step Prepared Post_unpatch = Idle"
| "sess_step Active Pre_unpatch = Leaving"
| "sess_step Leaving Post_patch = Active"
| "sess_step Leaving Post_unpatch = Idle"
| "sess_step _ _ = Broken"

definition track :: "nat \<Rightarrow> (nat \<times> call) list \<Rightarrow> sess" where
  "track i calls = foldl sess_step Idle (map snd (filter (\<lambda>c. fst c = i) calls))"

lemma track_snoc [simp]:
  "track i (calls @ [(j, c)]) = (if j = i then sess_step (track i calls) c else track i calls)"
  by (simp add: track_def)

text \<open>Where an object stands in each phase.\<close>

definition expected :: "phase \<Rightarrow> bool \<Rightarrow> sess set" where
  "expected ph loaded =
     (if \<not> loaded then {Idle}
      else case ph of Absent \<Rightarrow> {Idle} | Patched \<Rightarrow> {Active} | _ \<Rightarrow> {Prepared, Leaving})"

text \<open>Each call of a callback printed one message, with the name of the callback and of the object.\<close>

fun call_name :: "call \<Rightarrow> string" where
  "call_name (Pre_patch ret) = ''pre_patch_callback''"
| "call_name Post_patch = ''post_patch_callback''"
| "call_name Pre_unpatch = ''pre_unpatch_callback''"
| "call_name Post_unpatch = ''post_unpatch_callback''"

fun printed :: "lp_msg list \<Rightarrow> (string \<times> string option) list" where
  "printed [] = []"
| "printed (Callback_msg f t # ms) = (f, map_option fst t) # printed ms"
| "printed (_ # ms) = printed ms"

lemma printed_append [simp]: "printed (ms @ ns) = printed ms @ printed ns"
  by (induction ms rule: printed.induct) auto

definition matched :: "lp \<Rightarrow> bool" where
  "matched s \<longleftrightarrow> printed (lp_log s) = map (\<lambda>(i, c). (call_name c, ob_name (objs ! i))) (lp_calls s)"

section \<open>The operations, object by object\<close>

definition view :: "nat \<Rightarrow> lp \<Rightarrow> bool \<times> bool \<times> sess" where
  "view i s = (lp_post_unpatch s i, lp_patched s i, track i (lp_calls s))"

definition ctl :: "lp \<Rightarrow> (string \<Rightarrow> mod_state option) \<times> work \<times> phase \<times> int" where
  "ctl s = (lp_mods s, lp_work s, lp_phase s, pre_patch_ret s)"

lemmas lp_view = view_def ctl_def matched_def

lemma phase_views [simp]:
  "view j (s\<lparr>lp_phase := p\<rparr>) = view j s" "matched (s\<lparr>lp_phase := p\<rparr>) = matched s"
  "klp_loaded obs (s\<lparr>lp_phase := p\<rparr>) = klp_loaded obs s"
  "ctl (s\<lparr>lp_phase := p\<rparr>) = (lp_mods s, lp_work s, p, pre_patch_ret s)"
  by (simp_all add: lp_view klp_loaded_def fun_eq_iff split: option.split)

lemma less3_cases: "i < 3 \<Longrightarrow> i = 0 \<or> i = 1 \<or> i = (2::nat)"
  by linarith

lemma length_objs [simp]: "length objs = 3"
  by (simp add: objs_def)

lemma objs_names [simp]:
  "ob_name (objs ! 0) = None" "ob_name (objs ! Suc 0) = Some ''livepatch_callbacks_mod''"
  "ob_name (objs ! 2) = Some ''livepatch_callbacks_busymod''"
  by (simp_all add: objs_def)

lemma objs_callbacks:
  "i < 3 \<Longrightarrow> ob_pre_patch (objs ! i) = pre_patch_callback \<and>
     ob_post_patch (objs ! i) = post_patch_callback \<and>
     ob_pre_unpatch (objs ! i) = pre_unpatch_callback \<and>
     ob_post_unpatch (objs ! i) = post_unpatch_callback"
  by (drule less3_cases) (auto simp: objs_def)

lemma callback_info_loaded:
  assumes "klp_loaded objs s i"
  shows "\<exists>t. callback_info f (ob_name (objs ! i)) s = pr_info (Callback_msg f t) s \<and>
     map_option fst t = ob_name (objs ! i)"
proof (cases "ob_name (objs ! i)")
  case None
  then show ?thesis by (intro exI [of _ None]) (simp add: callback_info_def ob_mod_def)
next
  case (Some n)
  with assms obtain st where "lp_mods s n = Some st" by (auto simp: klp_loaded_def)
  with Some show ?thesis
    by (intro exI [of _ "Some (n, module_state st)"]) (simp add: callback_info_def ob_mod_def)
qed

lemmas callback_defs = pre_patch_callback_def post_patch_callback_def pre_unpatch_callback_def
  post_unpatch_callback_def klp_called_def pr_info_def

lemma klp_pre_patch_view:
  assumes "klp_pre_patch objs i s = (r, s')" "i < 3" "klp_loaded objs s i" "matched s"
  shows "r = pre_patch_ret s \<and> matched s' \<and> ctl s' = ctl s \<and>
    view j s' = (if j = i then (r = 0, lp_patched s i, sess_step (track i (lp_calls s)) (Pre_patch r))
                 else view j s)"
  using assms callback_info_loaded [OF assms(3), of "''pre_patch_callback''"]
  by (auto simp: klp_pre_patch_def objs_callbacks callback_defs lp_view Let_def)

lemma klp_post_patch_view:
  assumes "i < 3" "klp_loaded objs s i" "matched s"
  shows "matched (klp_post_patch objs i s) \<and> ctl (klp_post_patch objs i s) = ctl s \<and>
    view j (klp_post_patch objs i s) =
      (if j = i then (lp_post_unpatch s i, lp_patched s i, sess_step (track i (lp_calls s)) Post_patch)
       else view j s)"
  using assms callback_info_loaded [OF assms(2), of "''post_patch_callback''"]
  by (auto simp: klp_post_patch_def objs_callbacks callback_defs lp_view)

lemma klp_pre_unpatch_view:
  assumes "i < 3" "klp_loaded objs s i" "matched s"
  shows "matched (klp_pre_unpatch objs i s) \<and> ctl (klp_pre_unpatch objs i s) = ctl s \<and>
    view j (klp_pre_unpatch objs i s) =
      (if j = i then (lp_post_unpatch s i, lp_patched s i, sess_step (track i (lp_calls s)) Pre_unpatch)
       else view j s)"
  using assms callback_info_loaded [OF assms(2), of "''pre_unpatch_callback''"]
  by (auto simp: klp_pre_unpatch_def objs_callbacks callback_defs lp_view)

lemma klp_post_unpatch_view:
  assumes "i < 3" "klp_loaded objs s i" "matched s"
  shows "matched (klp_post_unpatch objs i s) \<and> ctl (klp_post_unpatch objs i s) = ctl s \<and>
    view j (klp_post_unpatch objs i s) =
      (if j = i then (False, lp_patched s i,
         if lp_post_unpatch s i then sess_step (track i (lp_calls s)) Post_unpatch
         else track i (lp_calls s))
       else view j s)"
  using assms callback_info_loaded [OF assms(2), of "''post_unpatch_callback''"]
  by (auto simp: klp_post_unpatch_def objs_callbacks callback_defs lp_view Let_def)

lemma klp_patch_object_view:
  "matched (klp_patch_object i b s) = matched s \<and> ctl (klp_patch_object i b s) = ctl s \<and>
   view j (klp_patch_object i b s) = (if j = i then (lp_post_unpatch s i, b, track i (lp_calls s)) else view j s)"
  by (simp add: klp_patch_object_def lp_view)

lemma klp_loaded_ctl: "ctl s = ctl t \<Longrightarrow> klp_loaded obs s = klp_loaded obs t"
  by (rule ext) (simp add: klp_loaded_def ctl_def split: option.split)

text \<open>A loop whose body works on one object at a time.\<close>

lemma fold_views:
  assumes "\<And>i s. i \<in> set is \<Longrightarrow> matched s \<Longrightarrow> Q s \<Longrightarrow>
      matched (f i s) \<and> Q (f i s) \<and>
      (\<forall>j. view j (f i s) = (if j = i then g (view j s) else view j s))"
    and "distinct is" "matched s" "Q s"
  shows "matched (fold f is s) \<and> Q (fold f is s) \<and>
    (\<forall>j. view j (fold f is s) = (if j \<in> set is then g (view j s) else view j s))"
  using assms
proof (induction "is" arbitrary: s)
  case (Cons i "is")
  have f: "matched (f i s)" "Q (f i s)"
    "\<And>j. view j (f i s) = (if j = i then g (view j s) else view j s)"
    using Cons.prems(1) [of i s] Cons.prems(3,4) by auto
  have "matched (fold f is (f i s)) \<and> Q (fold f is (f i s)) \<and>
      (\<forall>j. view j (fold f is (f i s)) = (if j \<in> set is then g (view j (f i s)) else view j (f i s)))"
    using Cons.prems(1,2) f(1,2) by (intro Cons.IH) auto
  with f(3) Cons.prems(2) show ?case by auto
qed simp

definition vstep :: "call \<Rightarrow> bool \<times> bool \<times> sess \<Rightarrow> bool \<times> bool \<times> sess" where
  "vstep c v = (case v of (e, p, \<sigma>) \<Rightarrow> (e, p, sess_step \<sigma> c))"

definition vclose :: "bool \<times> bool \<times> sess \<Rightarrow> bool \<times> bool \<times> sess" where
  "vclose v = (case v of (e, p, \<sigma>) \<Rightarrow> (False, False, if e then sess_step \<sigma> Post_unpatch else \<sigma>))"

lemma view_sel: "fst (view j s) = lp_post_unpatch s j" "fst (snd (view j s)) = lp_patched s j"
  "snd (snd (view j s)) = track j (lp_calls s)"
  by (simp_all add: view_def)

lemma close_view:
  assumes "i < 3" "klp_loaded objs s i" "matched s"
  shows "matched (klp_post_unpatch objs i (klp_patch_object i False s)) \<and>
    ctl (klp_post_unpatch objs i (klp_patch_object i False s)) = ctl s \<and>
    view j (klp_post_unpatch objs i (klp_patch_object i False s)) =
      (if j = i then vclose (view j s) else view j s)"
proof -
  let ?t = "klp_patch_object i False s"
  have t: "matched ?t" "ctl ?t = ctl s" "\<And>j. view j ?t = (if j = i then (lp_post_unpatch s i, False, track i (lp_calls s)) else view j s)"
    using assms(3) by (auto simp: klp_patch_object_view)
  have l: "klp_loaded objs ?t i" using assms(2) klp_loaded_ctl [OF t(2)] by metis
  have "lp_post_unpatch ?t i = lp_post_unpatch s i" "\<not> lp_patched ?t i" "track i (lp_calls ?t) = track i (lp_calls s)"
    by (simp_all add: klp_patch_object_def)
  with klp_post_unpatch_view [OF assms(1) l t(1), of j] t(2,3) show ?thesis
    by (auto simp: vclose_def view_def)
qed

lemma klp_each_props: "distinct (klp_each objs s)" "i \<in> set (klp_each objs s) \<longleftrightarrow> i < 3 \<and> klp_loaded objs s i"
  by (auto simp: klp_each_def)

lemma post_patch_body:
  assumes "i \<in> set (klp_each objs s0)" "matched s" "ctl s = ctl s0"
  shows "matched (klp_post_patch objs i s) \<and> ctl (klp_post_patch objs i s) = ctl s0 \<and>
    (\<forall>j. view j (klp_post_patch objs i s) = (if j = i then vstep Post_patch (view j s) else view j s))"
proof -
  from assms have "i < 3" "klp_loaded objs s i" by (auto simp: klp_each_props klp_loaded_ctl [OF assms(3)])
  from klp_post_patch_view [OF this assms(2)] assms(3) show ?thesis
    by (simp add: vstep_def view_def [of i s])
qed

lemma close_body:
  assumes "i \<in> set (klp_each objs s0)" "matched s" "ctl s = ctl s0"
  shows "matched (klp_post_unpatch objs i (klp_patch_object i False s)) \<and>
    ctl (klp_post_unpatch objs i (klp_patch_object i False s)) = ctl s0 \<and>
    (\<forall>j. view j (klp_post_unpatch objs i (klp_patch_object i False s)) =
      (if j = i then vclose (view j s) else view j s))"
proof -
  from assms have "i < 3" "klp_loaded objs s i" by (auto simp: klp_each_props klp_loaded_ctl [OF assms(3)])
  from close_view [OF this assms(2)] assms(3) show ?thesis by simp
qed

lemma complete_view:
  assumes "matched s"
  shows "matched (klp_complete_transition objs s) \<and>
    ctl (klp_complete_transition objs s) = (lp_mods s, lp_work s, if lp_phase s = Patching then Patched else Absent, pre_patch_ret s) \<and>
    (\<forall>j<3. view j (klp_complete_transition objs s) =
       (if klp_loaded objs s j
        then (if lp_phase s = Patching then vstep Post_patch (view j s) else vclose (view j s))
        else view j s))"
proof (cases "lp_phase s = Patching")
  case True
  let ?t = "fold (klp_post_patch objs) (klp_each objs s) s"
  have "matched ?t \<and> ctl ?t = ctl s \<and>
      (\<forall>j. view j ?t = (if j \<in> set (klp_each objs s) then vstep Post_patch (view j s) else view j s))"
    by (rule fold_views [where Q = "\<lambda>t. ctl t = ctl s"]) (fact post_patch_body klp_each_props(1) assms refl)+
  with True show ?thesis
    by (auto simp: klp_complete_transition_def klp_each_props matched_def ctl_def view_def)
next
  case False
  let ?t = "fold (\<lambda>i s. klp_post_unpatch objs i (klp_patch_object i False s)) (klp_each objs s) s"
  have "matched ?t \<and> ctl ?t = ctl s \<and>
      (\<forall>j. view j ?t = (if j \<in> set (klp_each objs s) then vclose (view j s) else view j s))"
    by (rule fold_views [where Q = "\<lambda>t. ctl t = ctl s"]) (fact close_body klp_each_props(1) assms refl)+
  with False show ?thesis
    by (auto simp: klp_complete_transition_def klp_each_props matched_def ctl_def view_def)
qed

lemma prepare_view:
  assumes "klp_prepare objs is s = (ret, s')" "distinct is" "matched s"
    and "\<forall>i\<in>set is. i < 3 \<and> klp_loaded objs s i \<and> view i s = (False, False, Idle)"
  shows "matched s' \<and> ctl s' = ctl s \<and> ret = (if is = [] then 0 else pre_patch_ret s) \<and>
    (\<forall>j. view j s' = (if j \<in> set is \<and> pre_patch_ret s = 0 then (True, True, Prepared) else view j s))"
  using assms
proof (induction "is" arbitrary: s)
  case (Cons i "is")
  obtain r t where p: "klp_pre_patch objs i s = (r, t)" by fastforce
  have i: "i < 3" "klp_loaded objs s i" "view i s = (False, False, Idle)" using Cons.prems(4) by auto
  have t: "r = pre_patch_ret s" "matched t" "ctl t = ctl s"
    "\<And>j. view j t = (if j = i then (r = 0, False, if r = 0 then Prepared else Idle) else view j s)"
    using klp_pre_patch_view [OF p i(1,2) Cons.prems(3)] i(3) by (auto simp: view_def)
  show ?case
  proof (cases "r = 0")
    case False
    with Cons.prems(1) p t i(3) show ?thesis by auto
  next
    case True
    let ?u = "klp_patch_object i True t"
    have u: "matched ?u" "ctl ?u = ctl s" "\<And>j. view j ?u = (if j = i then (True, True, Prepared) else view j s)"
      using t True klp_patch_object_view [of i True t] view_sel [of i t] by auto
    have ret: "pre_patch_ret ?u = 0" "pre_patch_ret s = 0" using u(2) t(1) True by (auto simp: ctl_def)
    have "klp_loaded objs ?u = klp_loaded objs s" using u(2) by (rule klp_loaded_ctl)
    with Cons.prems(2,4) u(3) have "\<forall>k\<in>set is. k < 3 \<and> klp_loaded objs ?u k \<and> view k ?u = (False, False, Idle)"
      by auto
    moreover have "klp_prepare objs is ?u = (ret, s')" using Cons.prems(1) p True by simp
    ultimately have "matched s' \<and> ctl s' = ctl ?u \<and> ret = 0 \<and>
        (\<forall>j. view j s' = (if j \<in> set is then (True, True, Prepared) else view j ?u))"
      using Cons.IH [of ?u] Cons.prems(2) u(1) ret(1) by auto
    with u(2,3) ret(2) show ?thesis by simp
  qed
qed simp

lemma disable_view:
  assumes "matched s" "\<forall>i<3. lp_patched s i \<longrightarrow> klp_loaded objs s i"
  shows "matched (klp_disable_patch objs s) \<and>
    ctl (klp_disable_patch objs s) = (lp_mods s, lp_work s, Unpatching, pre_patch_ret s) \<and>
    (\<forall>j<3. view j (klp_disable_patch objs s) =
       (if lp_patched s j then vstep Pre_unpatch (view j s) else view j s))"
proof -
  let ?f = "\<lambda>i s. if lp_patched s i then klp_pre_unpatch objs i s else s"
  let ?Q = "\<lambda>t. ctl t = ctl s \<and> lp_patched t = lp_patched s"
  let ?g = "\<lambda>v :: bool \<times> bool \<times> sess. if fst (snd v) then vstep Pre_unpatch v else v"
  have "matched (?f i t) \<and> ?Q (?f i t) \<and> (\<forall>j. view j (?f i t) = (if j = i then ?g (view j t) else view j t))"
    if "i \<in> set [0..<3]" "matched t" "?Q t" for i t
  proof (cases "lp_patched t i")
    case True
    from that have i: "i < 3" "klp_loaded objs t i"
      using True assms(2) klp_loaded_ctl [of t s objs] by auto
    note v = klp_pre_unpatch_view [OF i that(2)]
    have "lp_patched (klp_pre_unpatch objs i t) = lp_patched t"
    proof
      fix j
      from v [of j] show "lp_patched (klp_pre_unpatch objs i t) j = lp_patched t j"
        by (auto simp: view_def split: if_splits)
    qed
    with v that(3) True show ?thesis by (auto simp: vstep_def view_def [of i t])
  qed (use that in \<open>auto simp: view_sel\<close>)
  then have "matched (fold ?f [0..<3] s) \<and> ?Q (fold ?f [0..<3] s) \<and>
      (\<forall>j. view j (fold ?f [0..<3] s) = (if j \<in> set [0..<3] then ?g (view j s) else view j s))"
    by (intro fold_views) (auto simp: assms(1))
  then show ?thesis
    by (auto simp: klp_disable_patch_def view_sel ctl_def)
qed

section \<open>The invariant\<close>

definition obj_ok :: "nat \<Rightarrow> lp \<Rightarrow> bool" where
  "obj_ok i s \<longleftrightarrow>
     (\<exists>\<sigma>\<in>expected (lp_phase s) (klp_loaded objs s i). view i s = (\<sigma> \<noteq> Idle, \<sigma> \<noteq> Idle, \<sigma>))"

definition busy_ok :: "lp \<Rightarrow> bool" where
  "busy_ok s \<longleftrightarrow>
     (lp_phase s = Patched \<longrightarrow> lp_work s \<noteq> Work_sleeping) \<and>
     (lp_work s \<noteq> Work_idle \<longrightarrow> klp_loaded objs s 2)"

definition lp_inv :: "lp \<Rightarrow> bool" where
  "lp_inv s \<longleftrightarrow> matched s \<and> (\<forall>i<3. obj_ok i s) \<and> busy_ok s"

lemma lp_invI: "matched s \<Longrightarrow> (\<And>i. i < 3 \<Longrightarrow> obj_ok i s) \<Longrightarrow> busy_ok s \<Longrightarrow> lp_inv s"
  by (simp add: lp_inv_def)

text \<open>Steps that touch neither the objects nor what they depend on.\<close>

lemma lp_inv_frame:
  assumes "lp_inv s" "matched t" "\<And>i. i < 3 \<Longrightarrow> view i t = view i s"
    and "\<And>i. i < 3 \<Longrightarrow> klp_loaded objs t i = klp_loaded objs s i" "lp_phase t = lp_phase s" "busy_ok t"
  shows "lp_inv t"
  using assms by (auto simp: lp_inv_def obj_ok_def)

lemma obj_ok_closed:
  "obj_ok i s \<Longrightarrow> lp_phase s = Absent \<or> \<not> klp_loaded objs s i \<Longrightarrow> view i s = (False, False, Idle)"
  by (auto simp: obj_ok_def expected_def split: if_splits)

lemma obj_ok_patched: "obj_ok i s \<Longrightarrow> lp_patched s i \<Longrightarrow> klp_loaded objs s i"
  by (auto simp: obj_ok_def expected_def view_def split: if_splits)

lemma enable_inv:
  assumes "lp_inv s" "lp_phase s = Absent" "livepatch_callbacks_demo_init s = (ret, s')"
  shows "lp_inv s' \<and> ret = pre_patch_ret s \<and> lp_phase s' = (if ret = 0 then Patching else Absent)"
proof -
  from assms(1) have inv: "matched s" "\<And>i. i < 3 \<Longrightarrow> obj_ok i s" "busy_ok s" by (auto simp: lp_inv_def)
  have closed: "view i s = (False, False, Idle)" if "i < 3" for i
    using inv(2) [OF that] assms(2) obj_ok_closed by blast
  obtain r t where p: "klp_prepare objs (klp_each objs s) s = (r, t)" by fastforce
  have "0 \<in> set (klp_each objs s)" by (simp add: klp_each_props klp_loaded_def)
  then have ne: "klp_each objs s \<noteq> []" by auto
  have t: "matched t" "ctl t = ctl s" "r = pre_patch_ret s"
    "\<And>j. view j t = (if j \<in> set (klp_each objs s) \<and> r = 0 then (True, True, Prepared) else view j s)"
    using prepare_view [OF p klp_each_props(1) inv(1)] closed ne by (auto simp: klp_each_props)
  have load: "klp_loaded objs t = klp_loaded objs s" using t(2) by (rule klp_loaded_ctl)
  show ?thesis
  proof (cases "r = 0")
    case True
    with assms(3) p have s': "ret = 0" "s' = t\<lparr>lp_phase := Patching\<rparr>"
      by (simp_all add: livepatch_callbacks_demo_init_def klp_enable_patch_def)
    have l: "klp_loaded objs s' i = klp_loaded objs s i" for i using load by (simp add: s' klp_loaded_def)
    have v: "view i s' = view i t" for i by (simp add: s' view_def)
    have "obj_ok i s'" if "i < 3" for i
      using t(4) [of i] True closed [OF that] that
      by (auto simp: obj_ok_def l v klp_each_props expected_def) (simp add: s')+
    moreover have "matched s'" "busy_ok s'"
      using t(1,2) inv(3) load by (auto simp: s' matched_def busy_ok_def ctl_def klp_loaded_def)
    ultimately show ?thesis using t(3) True s' by (auto intro: lp_invI)
  next
    case False
    let ?u = "t\<lparr>lp_phase := Unpatching\<rparr>"
    from False assms(3) p have s': "ret = r" "s' = klp_complete_transition objs ?u"
      by (simp_all add: livepatch_callbacks_demo_init_def klp_enable_patch_def)
    have u: "matched ?u" "\<And>j. view j ?u = view j s" "klp_loaded objs ?u = klp_loaded objs s"
      using t(1,4) False load by simp_all
    note c = complete_view [OF u(1)]
    have ctl: "ctl s' = ctl s" using c t(2) assms(2) by (simp add: s' ctl_def)
    have "view i s' = view i s" if "i < 3" for i
      using c that closed [OF that] t(4) False by (simp add: s' vclose_def)
    moreover have "busy_ok s'"
      using inv(3) ctl klp_loaded_ctl [OF ctl, of objs] by (simp add: busy_ok_def ctl_def)
    moreover have "matched s'" using c by (simp add: s')
    moreover have "lp_phase s' = lp_phase s" using ctl by (simp add: ctl_def)
    ultimately have "lp_inv s'"
      using klp_loaded_ctl [OF ctl] by (intro lp_inv_frame [OF assms(1)]) simp_all
    with s' t(3) False \<open>lp_phase s' = lp_phase s\<close> assms(2) show ?thesis by simp
  qed
qed

lemma obj_okE:
  assumes "obj_ok i s"
  obtains \<sigma> where "\<sigma> \<in> expected (lp_phase s) (klp_loaded objs s i)" "view i s = (\<sigma> \<noteq> Idle, \<sigma> \<noteq> Idle, \<sigma>)"
  using assms by (auto simp: obj_ok_def)

lemma complete_inv:
  assumes "lp_inv s" "lp_phase s = Unpatching \<or> lp_phase s = Patching \<and> lp_work s \<noteq> Work_sleeping"
  shows "lp_inv (klp_complete_transition objs s)"
proof -
  let ?t = "klp_complete_transition objs s"
  from assms(1) have inv: "matched s" "\<And>i. i < 3 \<Longrightarrow> obj_ok i s" "busy_ok s" by (auto simp: lp_inv_def)
  note c = complete_view [OF inv(1)]
  then have l: "klp_loaded objs ?t = klp_loaded objs s"
    by (auto simp: ctl_def klp_loaded_def fun_eq_iff split: option.split)
  have "obj_ok i ?t" if i: "i < 3" for i
    using inv(2) [OF i]
  proof (cases rule: obj_okE)
    case (1 \<sigma>)
    with c assms(2) i show ?thesis
      by (auto simp: obj_ok_def l expected_def ctl_def vstep_def vclose_def split: if_splits)
  qed
  moreover have "busy_ok ?t"
    using inv(3) c assms(2) by (auto simp: busy_ok_def l ctl_def split: if_splits)
  ultimately show ?thesis using c by (blast intro: lp_invI)
qed

lemma disable_inv:
  assumes "lp_inv s" "lp_phase s = Patched"
  shows "lp_inv (klp_disable_patch objs s)"
proof -
  let ?t = "klp_disable_patch objs s"
  from assms(1) have inv: "matched s" "\<And>i. i < 3 \<Longrightarrow> obj_ok i s" "busy_ok s" by (auto simp: lp_inv_def)
  have "\<forall>i<3. lp_patched s i \<longrightarrow> klp_loaded objs s i" using inv(2) obj_ok_patched by blast
  note d = disable_view [OF inv(1) this]
  then have l: "klp_loaded objs ?t = klp_loaded objs s"
    by (auto simp: ctl_def klp_loaded_def fun_eq_iff split: option.split)
  have "obj_ok i ?t" if i: "i < 3" for i
    using inv(2) [OF i]
  proof (cases rule: obj_okE)
    case (1 \<sigma>)
    with d assms(2) i show ?thesis
      by (auto simp: obj_ok_def l expected_def ctl_def vstep_def view_sel [symmetric] split: if_splits)
  qed
  moreover have "busy_ok ?t" using inv(3) d by (auto simp: busy_ok_def l ctl_def)
  ultimately show ?thesis using d by (blast intro: lp_invI)
qed

lemma reverse_inv:
  assumes "lp_inv s" "lp_phase s = Unpatching \<or> lp_phase s = Patching"
  shows "lp_inv (klp_reverse_transition s)"
  using assms by (auto simp: lp_inv_def klp_reverse_transition_def obj_ok_def expected_def busy_ok_def
      split: if_splits)

text \<open>The target modules.\<close>

lemma set_mod_effect [simp]:
  "view j (set_mod i st s) = view j s" "matched (set_mod i st s) = matched s"
  "lp_phase (set_mod i st s) = lp_phase s" "lp_work (set_mod i st s) = lp_work s"
  "pre_patch_ret (set_mod i st s) = pre_patch_ret s"
  by (simp_all add: set_mod_def lp_view)

lemma set_mod_loaded:
  assumes "i = 1 \<or> i = 2" "j < 3"
  shows "klp_loaded objs (set_mod i st s) j = (if j = i then st \<noteq> None else klp_loaded objs s j)"
  using assms(1) less3_cases [OF assms(2)] by (elim disjE) (simp_all add: set_mod_def klp_loaded_def)

lemma mod_is_loaded: "mod_is i st s \<Longrightarrow> klp_loaded objs s i = (st \<noteq> None)"
  by (auto simp: mod_is_def klp_loaded_def)

lemma target_init_effect:
  "view j (snd (target_init i s)) = view j s" "matched (snd (target_init i s)) = matched s"
  "lp_phase (snd (target_init i s)) = lp_phase s" "lp_mods (snd (target_init i s)) = lp_mods s"
  "lp_work (snd (target_init i s)) =
     (if i \<noteq> 1 \<and> lp_work s = Work_idle then Work_queued else lp_work s)" "fst (target_init i s) = 0"
  by (auto simp: target_init_def livepatch_callbacks_mod_init_def busymod_init_def pr_info_def lp_view Let_def)

lemma target_exit_effect:
  "view j (target_exit i s) = view j s" "matched (target_exit i s) = matched s"
  "lp_phase (target_exit i s) = lp_phase s" "lp_mods (target_exit i s) = lp_mods s"
  "lp_work (target_exit i s) = (if i = 1 then lp_work s else Work_idle)"
  by (auto simp: target_exit_def livepatch_callbacks_mod_exit_def busymod_exit_def pr_info_def lp_view)

lemma klp_loaded_mods: "lp_mods s = lp_mods t \<Longrightarrow> klp_loaded obs s = klp_loaded obs t"
  by (rule ext) (simp add: klp_loaded_def split: option.split)

lemma start_inv:
  assumes "lp_inv s" "mod_is i (Some COMING) s"
  shows "lp_inv (start_module i s)"
proof -
  let ?t = "snd (target_init i s)"
  from assms(2) have i: "i = 1 \<or> i = 2" by (simp add: mod_is_def)
  have l: "klp_loaded objs (start_module i s) j = klp_loaded objs s j" if "j < 3" for j
    using set_mod_loaded [OF i that] mod_is_loaded [OF assms(2)] klp_loaded_mods [OF target_init_effect(4)]
    by (auto simp: start_module_def)
  from assms(1) have "busy_ok s" by (simp add: lp_inv_def)
  moreover have "i \<noteq> 1 \<longrightarrow> klp_loaded objs s 2" using mod_is_loaded [OF assms(2)] i by auto
  ultimately have "busy_ok (start_module i s)"
    using l by (auto simp: busy_ok_def start_module_def target_init_effect)
  moreover have "matched (start_module i s)" using assms(1)
    by (simp add: start_module_def target_init_effect lp_inv_def)
  ultimately show ?thesis using l
    by (intro lp_inv_frame [OF assms(1)]) (simp_all add: start_module_def target_init_effect)
qed

lemma coming_view:
  assumes "klp_module_coming objs i s = (r, t)" "i < 3" "klp_loaded objs s i" "matched s"
    and "view i s = (False, False, Idle)"
  shows "r = (if lp_phase s = Absent then 0 else pre_patch_ret s) \<and> matched t \<and> ctl t = ctl s \<and>
    (\<forall>j. view j t = (if j = i \<and> r = 0 \<and> lp_phase s \<noteq> Absent
       then (True, True, if lp_phase s = Patched then Active else Prepared) else view j s))"
proof (cases "lp_phase s = Absent")
  case False
  obtain q u where p: "klp_pre_patch objs i s = (q, u)" by fastforce
  note v = klp_pre_patch_view [OF p assms(2-4)]
  show ?thesis
  proof (cases "q = 0")
    case True
    let ?w = "klp_patch_object i True u"
    have w: "matched ?w" "ctl ?w = ctl s" "lp_phase ?w = lp_phase s" "klp_loaded objs ?w i"
      "\<And>j. view j ?w = (if j = i then (True, True, Prepared) else view j s)"
      using v True assms(3,5) klp_patch_object_view [of i True u] view_sel [of i u] klp_loaded_ctl [of ?w s objs]
      by (auto simp: ctl_def view_def [of i s])
    have "(if lp_phase ?w = Patched then klp_post_patch objs i ?w else ?w) = t" "r = 0"
      using assms(1) False p True by (auto simp: klp_module_coming_def Let_def)
    with klp_post_patch_view [OF assms(2) w(4,1)] w v True False view_sel [of i ?w] show ?thesis
      by (auto split: if_splits)
  next
    case q: False
    then have "r = q" "t = u" using assms(1) False p by (auto simp: klp_module_coming_def)
    with v assms(5) False q view_sel [of i s] show ?thesis by auto
  qed
qed (use assms in \<open>simp add: klp_module_coming_def\<close>)

lemma load_inv:
  assumes "lp_inv s" "mod_is i None s" "load_module i s = (ret, s')"
  shows "lp_inv s' \<and> ret = (if lp_phase s = Absent then 0 else pre_patch_ret s) \<and>
    klp_loaded objs s' i = (ret = 0)"
proof -
  let ?u = "set_mod i (Some COMING) s"
  from assms(1) have inv: "matched s" "\<And>i. i < 3 \<Longrightarrow> obj_ok i s" "busy_ok s" by (auto simp: lp_inv_def)
  from assms(2) have i: "i = 1 \<or> i = 2" "i < 3" by (auto simp: mod_is_def)
  have v: "view i s = (False, False, Idle)"
    using obj_ok_closed [OF inv(2) [OF i(2)]] mod_is_loaded [OF assms(2)] by simp
  obtain r t where m: "klp_module_coming objs i ?u = (r, t)" by fastforce
  have lu: "klp_loaded objs ?u i" using set_mod_loaded [OF i, of "Some COMING" s] by simp
  have "matched ?u" "view i ?u = (False, False, Idle)" using inv(1) v by simp_all
  note cv = coming_view [OF m i(2) lu this, unfolded set_mod_effect]
  have c: "r = (if lp_phase s = Absent then 0 else pre_patch_ret s)" "matched t" "ctl t = ctl ?u"
    "\<And>j. view j t = (if j = i \<and> r = 0 \<and> lp_phase s \<noteq> Absent
       then (True, True, if lp_phase s = Patched then Active else Prepared) else view j s)"
    using cv by blast+
  have s': "ret = r" "s' = (if r \<noteq> 0 then set_mod i None t else t)"
    using assms(3) m by (auto simp: load_module_def)
  have ph: "lp_phase s' = lp_phase s" "lp_work s' = lp_work s"
    using c(3) by (auto simp: s' ctl_def)
  have lt: "klp_loaded objs t j = klp_loaded objs ?u j" for j using klp_loaded_ctl [OF c(3)] by simp
  have l: "klp_loaded objs s' j = (if j = i then r = 0 else klp_loaded objs s j)" if "j < 3" for j
    using set_mod_loaded [OF i(1) that, of None t] set_mod_loaded [OF i(1) that, of "Some COMING" s]
    by (auto simp: s' lt)
  have vs: "view j s' = view j t" for j by (simp add: s')
  have "obj_ok j s'" if "j < 3" for j
  proof (cases "j = i")
    case True
    have "view i s' = (if r = 0 \<and> lp_phase s \<noteq> Absent
        then (True, True, if lp_phase s = Patched then Active else Prepared) else (False, False, Idle))"
      using c(4) [of i] v by (simp add: vs)
    with True show ?thesis
      by (cases "lp_phase s") (auto simp: obj_ok_def ph l [OF i(2)] expected_def)
  next
    case False
    with c(4) [of j] inv(2) [OF that] l [OF that] ph(1) show ?thesis by (simp add: obj_ok_def vs)
  qed
  moreover have "busy_ok s'"
    using inv(3) ph l [of 2] mod_is_loaded [OF assms(2)] by (auto simp: busy_ok_def split: if_splits)
  moreover have "matched s'" using c(2) by (simp add: s')
  ultimately show ?thesis using c(1) s'(1) l [OF i(2)] by (auto intro: lp_invI)
qed

lemma going_view:
  assumes "i < 3" "klp_loaded objs s i" "matched s" "obj_ok i s"
  shows "matched (klp_module_going objs i s) \<and> ctl (klp_module_going objs i s) = ctl s \<and>
    (\<forall>j. view j (klp_module_going objs i s) = (if j = i then (False, False, Idle) else view j s))"
proof (cases "lp_phase s = Absent")
  case True
  with obj_ok_closed [OF assms(4)] assms(3) show ?thesis by (simp add: klp_module_going_def)
next
  case False
  obtain t where td: "t = (if lp_phase s = Patched then klp_pre_unpatch objs i s else s)" by simp
  from assms(4) obtain \<sigma> where
    \<sigma>: "\<sigma> \<in> expected (lp_phase s) True" "view i s = (\<sigma> \<noteq> Idle, \<sigma> \<noteq> Idle, \<sigma>)"
    by (auto simp: assms(2) elim: obj_okE)
  then have tr: "track i (lp_calls s) = \<sigma>" "lp_post_unpatch s i" "\<sigma> \<in> {Prepared, Active, Leaving}"
    using False view_sel [of i s] by (auto simp: expected_def split: phase.splits)
  note v = klp_pre_unpatch_view [OF assms(1-3)]
  have t: "matched t" "ctl t = ctl s" "\<And>j. j \<noteq> i \<Longrightarrow> view j t = view j s"
    using v assms(3) by (auto simp: td)
  have vi: "view i t = (True, lp_patched s i, if lp_phase s = Patched then Leaving else \<sigma>)"
    using v [of i] tr \<sigma> by (auto simp: td expected_def view_def)
  have ti: "vclose (view i t) = (False, False, Idle)"
    unfolding vi using \<sigma>(1) False by (cases "lp_phase s") (auto simp: vclose_def expected_def)
  have "klp_loaded objs t i" using assms(2) klp_loaded_ctl [OF t(2), of objs] by simp
  from close_view [OF assms(1) this t(1)] t(2,3) ti
  have "matched (klp_post_unpatch objs i (klp_patch_object i False t)) \<and>
      ctl (klp_post_unpatch objs i (klp_patch_object i False t)) = ctl s \<and>
      (\<forall>j. view j (klp_post_unpatch objs i (klp_patch_object i False t)) =
        (if j = i then (False, False, Idle) else view j s))" by simp
  moreover have "klp_module_going objs i s = klp_post_unpatch objs i (klp_patch_object i False t)"
    using False by (simp add: klp_module_going_def Let_def td)
  ultimately show ?thesis by simp
qed

lemma unload_inv:
  assumes "lp_inv s" "mod_is i (Some LIVE) s" "i = 1 \<or> lp_work s \<noteq> Work_sleeping"
  shows "lp_inv (unload_module i s)"
proof -
  let ?u = "target_exit i (set_mod i (Some GOING) s)"
  let ?s' = "unload_module i s"
  from assms(1) have inv: "matched s" "\<And>i. i < 3 \<Longrightarrow> obj_ok i s" "busy_ok s" by (auto simp: lp_inv_def)
  from assms(2) have i: "i = 1 \<or> i = 2" "i < 3" by (auto simp: mod_is_def)
  have lu: "klp_loaded objs ?u j = klp_loaded objs s j" if "j < 3" for j
    using set_mod_loaded [OF i(1) that, of "Some GOING" s] mod_is_loaded [OF assms(2)]
      klp_loaded_mods [OF target_exit_effect(4)] by auto
  have u: "matched ?u" "obj_ok i ?u" "klp_loaded objs ?u i"
    using inv(1) inv(2) [OF i(2)] lu [OF i(2)] mod_is_loaded [OF assms(2)]
    by (simp_all add: target_exit_effect obj_ok_def)
  note g = going_view [OF i(2) u(3,1,2)]
  have l: "klp_loaded objs ?s' j = (j \<noteq> i \<and> klp_loaded objs s j)" if "j < 3" for j
    using set_mod_loaded [OF i(1) that, of None "klp_module_going objs i ?u"] lu [OF that]
      klp_loaded_ctl [of "klp_module_going objs i ?u" ?u objs] g by (simp add: unload_module_def)
  have ph: "lp_phase ?s' = lp_phase s" "lp_work ?s' = (if i = 1 then lp_work s else Work_idle)"
    using g by (auto simp: unload_module_def ctl_def target_exit_effect)
  have v: "view j ?s' = (if j = i then (False, False, Idle) else view j s)" for j
    using g by (simp add: unload_module_def target_exit_effect)
  have "obj_ok j ?s'" if "j < 3" for j
    using inv(2) [OF that] l [OF that] v [of j] ph(1) by (auto simp: obj_ok_def expected_def)
  moreover have "busy_ok ?s'" using inv(3) ph l [of 2] i(1) by (auto simp: busy_ok_def)
  moreover have "matched ?s'" using g by (simp add: unload_module_def)
  ultimately show ?thesis by (intro lp_invI) auto
qed

lemma run_inv:
  assumes "lp_inv s" "lp_work s = Work_queued" "lp_phase s = Patched \<longrightarrow> switched"
  shows "lp_inv (klp_call objs 2 ''busymod_work_func'' busymod_work_func switched (s\<lparr>lp_work := Work_idle\<rparr>))"
    (is "lp_inv ?t")
proof -
  from assms(1) have inv: "matched s" "obj_ok 2 s" "busy_ok s" by (auto simp: lp_inv_def)
  have f: "map_of (ob_funcs (objs ! 2)) ''busymod_work_func'' = Some patched_work_func"
    by (simp add: objs_def busymod_funcs_def)
  have "lp_phase s = Patched \<Longrightarrow> lp_patched s 2"
    using inv(2,3) assms(2) by (auto simp: obj_ok_def busy_ok_def expected_def view_def)
  then have "lp_work ?t = Work_idle \<or> lp_work ?t = Work_sleeping \<and> lp_phase s \<noteq> Patched"
    using assms(3) by (auto simp: klp_call_def f patched_work_func_def busymod_work_func_def pr_info_def)
  moreover have "matched ?t" "\<And>j. view j ?t = view j s" "lp_phase ?t = lp_phase s" "lp_mods ?t = lp_mods s"
    using inv(1) by (auto simp: klp_call_def f patched_work_func_def busymod_work_func_def pr_info_def lp_view)
  moreover from this have "klp_loaded objs ?t = klp_loaded objs s" by (intro klp_loaded_mods)
  moreover have "klp_loaded objs s 2" using inv(3) assms(2) by (simp add: busy_ok_def)
  ultimately show ?thesis by (intro lp_inv_frame [OF assms(1)]) (auto simp: busy_ok_def)
qed

lemma wake_inv:
  assumes "lp_inv s"
  shows "lp_inv (busymod_work_end s)"
proof -
  have "klp_loaded objs (busymod_work_end s) = klp_loaded objs s"
    by (rule klp_loaded_mods) (simp add: busymod_work_end_def pr_info_def)
  with assms show ?thesis
    by (intro lp_inv_frame [OF assms])
       (auto simp: lp_inv_def busymod_work_end_def pr_info_def lp_view busy_ok_def)
qed

lemma lp_step_inv: "lp_step s s' \<Longrightarrow> lp_inv s \<Longrightarrow> lp_inv s'"
proof (induction rule: lp_step.induct)
  case (enable s ret s')
  then show ?case using enable_inv by blast
next
  case (leave s)
  then show ?case by (simp add: livepatch_callbacks_demo_exit_def)
next
  case (parameter s r n)
  have "klp_loaded objs (s\<lparr>pre_patch_ret := r, sleep_secs := n\<rparr>) = klp_loaded objs s" for r n
    by (rule klp_loaded_mods) simp
  with parameter show ?case
    by (intro lp_inv_frame [OF parameter]) (auto simp: lp_inv_def lp_view busy_ok_def)
next
  case (load i s ret s')
  then show ?case using load_inv by blast
qed (auto intro: complete_inv disable_inv reverse_inv start_inv unload_inv run_inv wake_inv)

lemma lp_start_inv: "lp_inv lp_start"
  by (auto simp: lp_inv_def lp_start_def matched_def obj_ok_def expected_def view_def track_def busy_ok_def)

lemma lp_reach_inv: "lp_reach s t \<Longrightarrow> lp_inv s \<Longrightarrow> lp_inv t"
  by (induction rule: lp_reach.induct) (blast intro: lp_step_inv)+

section \<open>Properties\<close>

text \<open>A cancelled transition calls no callback of an object that was not prepared.\<close>

lemma close_unprepared:
  assumes "\<forall>i\<in>set is. \<not> lp_post_unpatch s i"
  shows "lp_calls (fold (\<lambda>i s. klp_post_unpatch obs i (klp_patch_object i False s)) is s) = lp_calls s \<and>
    lp_log (fold (\<lambda>i s. klp_post_unpatch obs i (klp_patch_object i False s)) is s) = lp_log s"
  using assms
proof (induction "is" arbitrary: s)
  case (Cons i "is")
  let ?t = "klp_post_unpatch obs i (klp_patch_object i False s)"
  from Cons.prems have "lp_calls ?t = lp_calls s" "lp_log ?t = lp_log s" "\<forall>i\<in>set is. \<not> lp_post_unpatch ?t i"
    by (auto simp: klp_post_unpatch_def klp_patch_object_def Let_def)
  with Cons.IH [of ?t] show ?case by simp
qed simp

text \<open>
  C24. In every order of loads, unloads, enabling, disabling, reversals and parameter writes, the
  callbacks of each object follow the documented protocol: a \<open>pre_patch\<close> that returns 0 opens a
  session that exactly one \<open>post_unpatch\<close> closes, with \<open>post_patch\<close> and \<open>pre_unpatch\<close> in turn between
  them, and an error opens none. A session is open just while the object is loaded and the patch
  is not disabled, and its function is replaced just then. Every call printed its one message.
  Once the patch is fully applied, the original function of the busy module does not run.
\<close>

theorem livepatch_callbacks_paired:
  assumes "lp_reach lp_start s" "i < 3"
  shows "track i (lp_calls s) \<in> expected (lp_phase s) (klp_loaded objs s i) \<and>
    (lp_patched s i \<longleftrightarrow> lp_phase s \<noteq> Absent \<and> klp_loaded objs s i) \<and>
    printed (lp_log s) = map (\<lambda>(i, c). (call_name c, ob_name (objs ! i))) (lp_calls s) \<and>
    (lp_phase s = Patched \<longrightarrow> lp_work s \<noteq> Work_sleeping)"
proof -
  have inv: "lp_inv s" using assms(1) lp_start_inv by (rule lp_reach_inv)
  with assms(2) obtain \<sigma> where
    \<sigma>: "\<sigma> \<in> expected (lp_phase s) (klp_loaded objs s i)" "view i s = (\<sigma> \<noteq> Idle, \<sigma> \<noteq> Idle, \<sigma>)"
    by (auto simp: lp_inv_def elim: obj_okE)
  then have "track i (lp_calls s) = \<sigma>" "lp_patched s i \<longleftrightarrow> \<sigma> \<noteq> Idle" by (auto simp: view_def)
  with \<sigma>(1) inv show ?thesis
    by (auto simp: lp_inv_def busy_ok_def matched_def expected_def split: if_splits phase.splits)
qed

text \<open>
  C25. When \<open>pre_patch\<close> returns an error, enabling the patch fails with it: only the callback of
  vmlinux ran, and nothing is patched. A module that is loaded while the patch is enabled or in a
  transition is refused with it: only its own callback ran, and nothing else changed.
\<close>

theorem livepatch_refused:
  assumes "lp_reach lp_start s" "pre_patch_ret s \<noteq> 0"
  shows "(lp_phase s = Absent \<longrightarrow> (\<exists>t. livepatch_callbacks_demo_init s = (pre_patch_ret s, t) \<and>
      lp_phase t = Absent \<and> lp_calls t = lp_calls s @ [(0, Pre_patch (pre_patch_ret s))] \<and>
      lp_log t = lp_log s @ [Callback_msg ''pre_patch_callback'' None] \<and> (\<forall>i<3. \<not> lp_patched t i))) \<and>
    (lp_phase s \<noteq> Absent \<and> mod_is i None s \<longrightarrow> (\<exists>t. load_module i s = (pre_patch_ret s, t) \<and>
      lp_mods t = lp_mods s \<and> lp_phase t = lp_phase s \<and> lp_patched t = lp_patched s \<and>
      lp_calls t = lp_calls s @ [(i, Pre_patch (pre_patch_ret s))]))"
proof (intro conjI impI; (elim conjE)?)
  assume ab: "lp_phase s = Absent"
  have inv: "lp_inv s" using assms(1) lp_start_inv by (rule lp_reach_inv)
  obtain t where t: "livepatch_callbacks_demo_init s = (pre_patch_ret s, t)" "lp_inv t" "lp_phase t = Absent"
    using enable_inv [OF inv ab] assms(2) by (cases "livepatch_callbacks_demo_init s") auto
  have each: "klp_each objs s = 0 # filter (klp_loaded objs s) [1..<3]"
    by (simp add: klp_each_def upt_conv_Cons klp_loaded_def)
  have off: "\<not> lp_post_unpatch s i" if "i < 3" for i
    using inv obj_ok_closed [of i s] ab that by (auto simp: lp_inv_def view_def)
  obtain u where u: "klp_pre_patch objs 0 s = (pre_patch_ret s, u)"
      "lp_calls u = lp_calls s @ [(0, Pre_patch (pre_patch_ret s))]"
      "lp_log u = lp_log s @ [Callback_msg ''pre_patch_callback'' None]" "\<forall>i<3. \<not> lp_post_unpatch u i"
    using off assms(2)
    by (auto simp: klp_pre_patch_def objs_callbacks callback_defs callback_info_def ob_mod_def Let_def)
  have "t = klp_complete_transition objs (u\<lparr>lp_phase := Unpatching\<rparr>)"
    using t(1) assms(2) by (simp add: livepatch_callbacks_demo_init_def klp_enable_patch_def each u(1))
  moreover have "\<forall>i\<in>set (klp_each objs u). \<not> lp_post_unpatch (u\<lparr>lp_phase := Unpatching\<rparr>) i"
    using u(4) by (simp add: klp_each_def)
  moreover have "klp_each objs (u\<lparr>lp_phase := Unpatching\<rparr>) = klp_each objs u"
    by (simp add: klp_each_def)
  ultimately have "lp_calls t = lp_calls u" "lp_log t = lp_log u"
    using close_unprepared [of "klp_each objs u" "u\<lparr>lp_phase := Unpatching\<rparr>" objs]
    by (simp_all add: klp_complete_transition_def)
  moreover have "\<forall>i<3. \<not> lp_patched t i"
    using t(2,3) obj_ok_closed [of _ t] by (auto simp: lp_inv_def view_def)
  ultimately show "\<exists>t. livepatch_callbacks_demo_init s = (pre_patch_ret s, t) \<and>
      lp_phase t = Absent \<and> lp_calls t = lp_calls s @ [(0, Pre_patch (pre_patch_ret s))] \<and>
      lp_log t = lp_log s @ [Callback_msg ''pre_patch_callback'' None] \<and> (\<forall>i<3. \<not> lp_patched t i)"
    using t(1,3) u(2,3) by auto
next
  assume "lp_phase s \<noteq> Absent" "mod_is i None s"
  then show "\<exists>t. load_module i s = (pre_patch_ret s, t) \<and>
      lp_mods t = lp_mods s \<and> lp_phase t = lp_phase s \<and> lp_patched t = lp_patched s \<and>
      lp_calls t = lp_calls s @ [(i, Pre_patch (pre_patch_ret s))]"
    using assms(2)
    by (auto simp: load_module_def klp_module_coming_def klp_pre_patch_def objs_callbacks callback_defs
        mod_is_def callback_info_def set_mod_def ob_mod_def Let_def fun_upd_idem split: option.splits)
qed

text \<open>A run: the target module is loaded and started, the patch is enabled, applied and disabled.\<close>

definition lp_demo :: lp where
  "lp_demo = klp_disable_patch objs (klp_complete_transition objs
     (snd (livepatch_callbacks_demo_init (start_module 1 (snd (load_module 1 lp_start))))))"

lemma lp_demo_reach: "lp_reach lp_start lp_demo"
proof -
  let ?a = "snd (load_module 1 lp_start)" and ?b = "start_module 1 (snd (load_module 1 lp_start))"
  let ?c = "snd (livepatch_callbacks_demo_init ?b)"
  have "lp_step lp_start ?a"
    by (rule load [where i = 1 and ret = "fst (load_module 1 lp_start)"]) (simp_all add: mod_is_def lp_start_def)
  moreover have "mod_is 1 (Some COMING) ?a" "lp_phase ?a = Absent" "pre_patch_ret ?a = 0" "lp_work ?a = Work_idle"
    by (simp_all add: load_module_def klp_module_coming_def mod_is_def set_mod_def lp_start_def)
  then have "lp_step ?a ?b" by (intro lp_step.start)
  moreover have "lp_phase ?b = Absent" "pre_patch_ret ?b = 0" "lp_work ?b = Work_idle"
    using \<open>lp_phase ?a = Absent\<close> \<open>pre_patch_ret ?a = 0\<close> \<open>lp_work ?a = Work_idle\<close>
    by (simp_all add: start_module_def target_init_def livepatch_callbacks_mod_init_def pr_info_def)
  moreover from this have "lp_step ?b ?c" 
    by (intro enable [where ret = "fst (livepatch_callbacks_demo_init ?b)"]) simp_all
  ultimately have r: "lp_reach lp_start ?b" "lp_step ?b ?c" by (meson lp_reach.intros)+
  have c: "lp_phase ?c = Patching" "lp_work ?c = Work_idle"
  proof -
    have "lp_inv ?b" using lp_reach_inv [OF r(1) lp_start_inv] .
    from enable_inv [OF this \<open>lp_phase ?b = Absent\<close>, of "fst (livepatch_callbacks_demo_init ?b)" ?c]
      \<open>pre_patch_ret ?b = 0\<close> show "lp_phase ?c = Patching" by simp
    show "lp_work ?c = Work_idle" by code_simp
  qed
  then have "lp_step ?c (klp_complete_transition objs ?c)" by (intro complete) simp
  moreover have "lp_phase (klp_complete_transition objs ?c) = Patched"
    using c by (simp add: klp_complete_transition_def)
  ultimately show ?thesis using r unfolding lp_demo_def by (meson disable lp_reach.there)
qed

lemma livepatch_callbacks_paired_witness:
  "printed (lp_log lp_demo) =
     [(''pre_patch_callback'', None), (''pre_patch_callback'', Some ''livepatch_callbacks_mod''),
      (''post_patch_callback'', None), (''post_patch_callback'', Some ''livepatch_callbacks_mod''),
      (''pre_unpatch_callback'', None), (''pre_unpatch_callback'', Some ''livepatch_callbacks_mod'')] \<and>
   track 1 (lp_calls lp_demo) = Leaving"
proof -
  have "lp_calls lp_demo = [(0, Pre_patch 0), (1, Pre_patch 0), (0, Post_patch), (1, Post_patch),
      (0, Pre_unpatch), (1, Pre_unpatch)]" by code_simp
  with livepatch_callbacks_paired [OF lp_demo_reach, of 1] show ?thesis by (simp add: track_def)
qed

lemma livepatch_refused_witness:
  "\<exists>t. livepatch_callbacks_demo_init (lp_start\<lparr>pre_patch_ret := - 19, sleep_secs := 0\<rparr>) = (- 19, t) \<and>
     lp_log t = [Callback_msg ''pre_patch_callback'' None] \<and> \<not> lp_patched t 2"
proof -
  let ?s = "lp_start\<lparr>pre_patch_ret := - 19, sleep_secs := 0\<rparr>"
  have "lp_reach lp_start ?s" by (blast intro: lp_reach.intros parameter)
  moreover have "pre_patch_ret ?s \<noteq> 0" "lp_phase ?s = Absent" "pre_patch_ret ?s = - 19" "lp_log ?s = []"
    by (simp_all add: lp_start_def)
  ultimately show ?thesis using livepatch_refused [of ?s 1] by auto
qed

section \<open>A patch without callbacks\<close>

text \<open>\<open>livepatch-sample.c\<close> replaces the function that shows the command line of the kernel.\<close>

definition livepatch_cmdline_proc_show :: "lp \<Rightarrow> lp" where
  "livepatch_cmdline_proc_show s = pr_info (Text_msg ''this has been live patched'') s"

definition sample_objs :: "klp_object list" where
  "sample_objs =
     [\<lparr>ob_name = None, ob_funcs = [(''cmdline_proc_show'', livepatch_cmdline_proc_show)],
       ob_pre_patch = (\<lambda>_ s. (0, s)), ob_post_patch = (\<lambda>_ s. s),
       ob_pre_unpatch = (\<lambda>_ s. s), ob_post_unpatch = (\<lambda>_ s. s)\<rparr>]"

definition livepatch_init :: "lp \<Rightarrow> int \<times> lp" where
  "livepatch_init s = klp_enable_patch sample_objs s"

definition show_cmdline :: "string \<Rightarrow> bool \<Rightarrow> lp \<Rightarrow> lp" where
  "show_cmdline cmdline switched s =
     klp_call sample_objs 0 ''cmdline_proc_show'' (\<lambda>s. pr_info (Text_msg cmdline) s) switched s"

lemma sample_each: "klp_each sample_objs s = [0]" "length sample_objs = 1"
  by (simp_all add: klp_each_def sample_objs_def klp_loaded_def)

lemma sample_callbacks:
  "ob_pre_patch (sample_objs ! 0) = (\<lambda>_ s. (0, s))" "ob_post_patch (sample_objs ! 0) = (\<lambda>_ s. s)"
  "ob_pre_unpatch (sample_objs ! 0) = (\<lambda>_ s. s)" "ob_post_unpatch (sample_objs ! 0) = (\<lambda>_ s. s)"
  by (simp_all add: sample_objs_def)

text \<open>
  The patch always loads; applied, the file shows the text of the patch; disabled again, it shows
  the command line; and the patch itself printed nothing.
\<close>

lemma livepatch_sample_switches:
  assumes "lp_phase s = Absent"
  shows "\<exists>t. livepatch_init s = (0, t) \<and>
    (let u = klp_complete_transition sample_objs t;
         v = klp_complete_transition sample_objs (klp_disable_patch sample_objs u)
     in lp_log u = lp_log s \<and> lp_log v = lp_log s \<and> lp_phase v = Absent \<and>
        lp_log (show_cmdline c True u) = lp_log s @ [Text_msg ''this has been live patched''] \<and>
        lp_log (show_cmdline c b v) = lp_log s @ [Text_msg c])"
proof -
  have f: "map_of (ob_funcs (sample_objs ! 0)) ''cmdline_proc_show'' = Some livepatch_cmdline_proc_show"
    by (simp add: sample_objs_def)
  show ?thesis
    by (simp add: livepatch_init_def klp_enable_patch_def klp_complete_transition_def klp_disable_patch_def
        sample_each sample_callbacks klp_pre_patch_def klp_post_patch_def klp_pre_unpatch_def
        klp_post_unpatch_def klp_patch_object_def klp_called_def show_cmdline_def klp_call_def f
        livepatch_cmdline_proc_show_def pr_info_def Let_def)
qed

end
