(* ===== verification/SysfsAttr.thy ===== *)
theory SysfsAttr
  imports CText
begin

text \<open>
  The sysfs demos: \<open>kobject-example.c\<close>, three integers behind three files of one directory, and
  \<open>kset-example.c\<close>, three objects of a kset with the same three files each. What the kernel does
  below them is a parameter: \<open>kstrtoint\<close> (an error number or the integer of a text), whether a
  directory can be added, and which allocations are granted. \<open>sysfs_emit\<close> prints like \<open>printf\<close>.
  Reference counts work as the kobject documentation says: the last \<open>kobject_put\<close> calls the
  \<open>release\<close> function of the type.
\<close>

type_synonym parse = "string \<Rightarrow> int + int"

definition EIO :: int where "EIO = 5"
definition ENOMEM :: int where "ENOMEM = 12"
definition EINVAL :: int where "EINVAL = 22"

definition emit_int :: "int \<Rightarrow> string" where
  "emit_int i = show_int i @ [NL]"

section \<open>The files of kobject-example\<close>

record kobj_vars =
  ko_foo :: int
  ko_baz :: int
  ko_bar :: int

definition kobj_foo_show :: "kobj_vars \<Rightarrow> string" where
  "kobj_foo_show v = emit_int (ko_foo v)"

definition kobj_foo_store :: "parse \<Rightarrow> string \<Rightarrow> nat \<Rightarrow> kobj_vars \<Rightarrow> int \<times> kobj_vars" where
  "kobj_foo_store kstrtoint buf n v =
     (case kstrtoint buf of Inl ret \<Rightarrow> (ret, v) | Inr i \<Rightarrow> (int n, v\<lparr>ko_foo := i\<rparr>))"

definition kobj_b_show :: "string \<Rightarrow> kobj_vars \<Rightarrow> string" where
  "kobj_b_show name v = emit_int (if name = ''baz'' then ko_baz v else ko_bar v)"

definition kobj_b_store :: "parse \<Rightarrow> string \<Rightarrow> string \<Rightarrow> nat \<Rightarrow> kobj_vars \<Rightarrow> int \<times> kobj_vars" where
  "kobj_b_store kstrtoint name buf n v =
     (case kstrtoint buf of
        Inl ret \<Rightarrow> (ret, v)
      | Inr var \<Rightarrow> (int n, if name = ''baz'' then v\<lparr>ko_baz := var\<rparr> else v\<lparr>ko_bar := var\<rparr>))"

section \<open>The files of kset-example\<close>

record foo_vals =
  foo :: int
  baz :: int
  bar :: int

text \<open>An attribute has a name and may lack either function.\<close>

record struct_foo_attribute =
  attr_name :: string
  attr_show :: "(string \<Rightarrow> foo_vals \<Rightarrow> string) option"
  attr_store :: "(parse \<Rightarrow> string \<Rightarrow> string \<Rightarrow> nat \<Rightarrow> foo_vals \<Rightarrow> int \<times> foo_vals) option"

definition foo_attr_show :: "struct_foo_attribute \<Rightarrow> foo_vals \<Rightarrow> int + string" where
  "foo_attr_show a v = (case attr_show a of None \<Rightarrow> Inl (- EIO) | Some f \<Rightarrow> Inr (f (attr_name a) v))"

definition foo_attr_store ::
    "parse \<Rightarrow> struct_foo_attribute \<Rightarrow> string \<Rightarrow> nat \<Rightarrow> foo_vals \<Rightarrow> int \<times> foo_vals" where
  "foo_attr_store kstrtoint a buf len v =
     (case attr_store a of None \<Rightarrow> (- EIO, v) | Some f \<Rightarrow> f kstrtoint (attr_name a) buf len v)"

definition foo_show :: "string \<Rightarrow> foo_vals \<Rightarrow> string" where
  "foo_show name v = emit_int (foo v)"

definition foo_store :: "parse \<Rightarrow> string \<Rightarrow> string \<Rightarrow> nat \<Rightarrow> foo_vals \<Rightarrow> int \<times> foo_vals" where
  "foo_store kstrtoint name buf n v =
     (case kstrtoint buf of Inl ret \<Rightarrow> (ret, v) | Inr i \<Rightarrow> (int n, v\<lparr>foo := i\<rparr>))"

definition b_show :: "string \<Rightarrow> foo_vals \<Rightarrow> string" where
  "b_show name v = emit_int (if name = ''baz'' then baz v else bar v)"

definition b_store :: "parse \<Rightarrow> string \<Rightarrow> string \<Rightarrow> nat \<Rightarrow> foo_vals \<Rightarrow> int \<times> foo_vals" where
  "b_store kstrtoint name buf n v =
     (case kstrtoint buf of
        Inl ret \<Rightarrow> (ret, v)
      | Inr var \<Rightarrow> (int n, if name = ''baz'' then v\<lparr>baz := var\<rparr> else v\<lparr>bar := var\<rparr>))"

definition foo_attribute :: struct_foo_attribute where
  "foo_attribute = \<lparr>attr_name = ''foo'', attr_show = Some foo_show, attr_store = Some foo_store\<rparr>"

definition baz_attribute :: struct_foo_attribute where
  "baz_attribute = \<lparr>attr_name = ''baz'', attr_show = Some b_show, attr_store = Some b_store\<rparr>"

definition bar_attribute :: struct_foo_attribute where
  "bar_attribute = \<lparr>attr_name = ''bar'', attr_show = Some b_show, attr_store = Some b_store\<rparr>"

definition foo_default_attrs :: "struct_foo_attribute list" where
  "foo_default_attrs = [foo_attribute, baz_attribute, bar_attribute]"

section \<open>The contract of a file that holds an integer\<close>

locale int_file =
  fixes get :: "'v \<Rightarrow> int" and rest :: "'v \<Rightarrow> 'r"
    and show_file :: "'v \<Rightarrow> string"
    and store_file :: "parse \<Rightarrow> string \<Rightarrow> nat \<Rightarrow> 'v \<Rightarrow> int \<times> 'v"
  assumes show_get: "show_file v = emit_int (get v)"
    and store_refused: "kstrtoint buf = Inl e \<Longrightarrow> store_file kstrtoint buf n v = (e, v)"
    and store_accepted:
      "kstrtoint buf = Inr i \<Longrightarrow>
         \<exists>v'. store_file kstrtoint buf n v = (int n, v') \<and> get v' = i \<and> rest v' = rest v"
    and same: "get v = get v' \<Longrightarrow> rest v = rest v' \<Longrightarrow> v = v'"
begin

text \<open>What is read after an accepted write, and that writing back what was read changes nothing.\<close>

lemma read_back:
  assumes "kstrtoint buf = Inr i"
  shows "fst (store_file kstrtoint buf n v) = int n \<and>
         show_file (snd (store_file kstrtoint buf n v)) = emit_int i \<and>
         rest (snd (store_file kstrtoint buf n v)) = rest v"
  using store_accepted [where kstrtoint = kstrtoint, OF assms, of n v] by (auto simp: show_get)

lemma write_back:
  assumes "kstrtoint (show_file v) = Inr (get v)"
  shows "store_file kstrtoint (show_file v) n v = (int n, v)"
  using store_accepted [where kstrtoint = kstrtoint, OF assms, of n v] same by auto

end

interpretation ko_foo: int_file ko_foo "\<lambda>v. (ko_baz v, ko_bar v)" kobj_foo_show kobj_foo_store
  by unfold_locales (auto simp: kobj_foo_show_def kobj_foo_store_def)

interpretation ko_baz: int_file ko_baz "\<lambda>v. (ko_foo v, ko_bar v)" "kobj_b_show ''baz''"
    "\<lambda>k. kobj_b_store k ''baz''"
  by unfold_locales (auto simp: kobj_b_show_def kobj_b_store_def)

interpretation ko_bar: int_file ko_bar "\<lambda>v. (ko_foo v, ko_baz v)" "kobj_b_show ''bar''"
    "\<lambda>k. kobj_b_store k ''bar''"
  by unfold_locales (auto simp: kobj_b_show_def kobj_b_store_def)

interpretation ks_foo: int_file foo "\<lambda>v. (baz v, bar v)" "foo_show name" "\<lambda>k. foo_store k name"
  by unfold_locales (auto simp: foo_show_def foo_store_def)

interpretation ks_baz: int_file baz "\<lambda>v. (foo v, bar v)" "b_show ''baz''" "\<lambda>k. b_store k ''baz''"
  by unfold_locales (auto simp: b_show_def b_store_def)

interpretation ks_bar: int_file bar "\<lambda>v. (foo v, baz v)" "b_show ''bar''" "\<lambda>k. b_store k ''bar''"
  by unfold_locales (auto simp: b_show_def b_store_def)

section \<open>The objects of kset-example\<close>

text \<open>
  An object is a kobject, its name and reference count, with the three integers. The module keeps
  the kset and the addresses of its three objects.
\<close>

record struct_foo_obj =
  kobj_name :: string
  kobj_refs :: nat
  obj_vals :: foo_vals

record kset_mod =
  foo_objs :: "struct_foo_obj kmem"
  example_kset :: bool
  foo_obj :: "nat option"
  bar_obj :: "nat option"
  baz_obj :: "nat option"
  uevents :: "string list"

definition foo_release :: "nat \<Rightarrow> kset_mod \<Rightarrow> kset_mod outcome" where
  "foo_release a s = bnd (kfree a (foo_objs s)) (\<lambda>m. Inr (s\<lparr>foo_objs := m\<rparr>))"

definition kobject_put :: "nat \<Rightarrow> kset_mod \<Rightarrow> kset_mod outcome" where
  "kobject_put a s =
     bnd (kread a (foo_objs s)) (\<lambda>ob.
       if kobj_refs ob \<le> 1 then foo_release a s
       else bnd (kwrite a (ob\<lparr>kobj_refs := kobj_refs ob - 1\<rparr>) (foo_objs s)) (\<lambda>m. Inr (s\<lparr>foo_objs := m\<rparr>)))"

text \<open>
  \<open>add name\<close> is what \<open>kobject_init_and_add\<close> returns. It leaves a reference also when it fails.
\<close>

definition create_foo_obj ::
    "(nat \<Rightarrow> bool) \<Rightarrow> (string \<Rightarrow> int) \<Rightarrow> string \<Rightarrow> kset_mod \<Rightarrow> (nat option \<times> kset_mod) outcome" where
  "create_foo_obj ok add name s =
     (let (a, m) = kmalloc ok \<lparr>kobj_name = name, kobj_refs = 1, obj_vals = \<lparr>foo = 0, baz = 0, bar = 0\<rparr>\<rparr> (foo_objs s);
          s = s\<lparr>foo_objs := m\<rparr>
      in case a of
           None \<Rightarrow> Inr (None, s)
         | Some a \<Rightarrow>
             let retval = add name
             in if retval \<noteq> 0 then bnd (kobject_put a s) (\<lambda>s. Inr (None, s))
                else Inr (Some a, s\<lparr>uevents := uevents s @ [name]\<rparr>))"

text \<open>A pointer that is null where an object is expected is a fault.\<close>

definition destroy_foo_obj :: "nat option \<Rightarrow> kset_mod \<Rightarrow> kset_mod outcome" where
  "destroy_foo_obj p s = (case p of None \<Rightarrow> Inl Null_deref | Some a \<Rightarrow> kobject_put a s)"

definition kset_unregister :: "kset_mod \<Rightarrow> kset_mod outcome" where
  "kset_unregister s = (if example_kset s then Inr (s\<lparr>example_kset := False\<rparr>) else Inl Null_deref)"

definition foo_error :: "kset_mod \<Rightarrow> (int \<times> kset_mod) outcome" where
  "foo_error s = bnd (kset_unregister s) (\<lambda>s. Inr (- EINVAL, s))"

definition bar_error :: "kset_mod \<Rightarrow> (int \<times> kset_mod) outcome" where
  "bar_error s = bnd (destroy_foo_obj (foo_obj s) s) foo_error"

definition baz_error :: "kset_mod \<Rightarrow> (int \<times> kset_mod) outcome" where
  "baz_error s = bnd (destroy_foo_obj (bar_obj s) s) bar_error"

text \<open>The module data before the load.\<close>

definition kset_zero :: kset_mod where
  "kset_zero = \<lparr>foo_objs = kmem_empty, example_kset = False, foo_obj = None, bar_obj = None,
     baz_obj = None, uevents = []\<rparr>"

definition kset_example_init ::
    "bool \<Rightarrow> (nat \<Rightarrow> bool) \<Rightarrow> (string \<Rightarrow> int) \<Rightarrow> kset_mod \<Rightarrow> (int \<times> kset_mod) outcome" where
  "kset_example_init created ok add s =
     (let s = s\<lparr>example_kset := created\<rparr>
      in if \<not> example_kset s then Inr (- ENOMEM, s)
         else bnd (create_foo_obj ok add ''foo'' s) (\<lambda>(p, s). let s = s\<lparr>foo_obj := p\<rparr> in
              if p = None then foo_error s
              else bnd (create_foo_obj ok add ''bar'' s) (\<lambda>(p, s). let s = s\<lparr>bar_obj := p\<rparr> in
              if p = None then bar_error s
              else bnd (create_foo_obj ok add ''baz'' s) (\<lambda>(p, s). let s = s\<lparr>baz_obj := p\<rparr> in
              if p = None then baz_error s
              else Inr (0, s)))))"

definition kset_example_exit :: "kset_mod \<Rightarrow> kset_mod outcome" where
  "kset_example_exit s =
     bnd (destroy_foo_obj (baz_obj s) s) (\<lambda>s.
     bnd (destroy_foo_obj (bar_obj s) s) (\<lambda>s.
     bnd (destroy_foo_obj (foo_obj s) s) kset_unregister))"

text \<open>Reading and writing a file of an object, and the references others take and drop.\<close>

definition kset_read :: "nat \<Rightarrow> struct_foo_attribute \<Rightarrow> kset_mod \<Rightarrow> (int + string) outcome" where
  "kset_read a at s = bnd (kread a (foo_objs s)) (\<lambda>ob. Inr (foo_attr_show at (obj_vals ob)))"

definition kset_write ::
    "parse \<Rightarrow> nat \<Rightarrow> struct_foo_attribute \<Rightarrow> string \<Rightarrow> kset_mod \<Rightarrow> (int \<times> kset_mod) outcome" where
  "kset_write kstrtoint a at buf s =
     bnd (kread a (foo_objs s)) (\<lambda>ob.
       let (ret, v) = foo_attr_store kstrtoint at buf (length buf) (obj_vals ob)
       in bnd (kwrite a (ob\<lparr>obj_vals := v\<rparr>) (foo_objs s)) (\<lambda>m. Inr (ret, s\<lparr>foo_objs := m\<rparr>)))"

section \<open>kobject-example: load and unload\<close>

text \<open>
  The state is whether the directory is live; the module holds its only reference. \<open>grp\<close> is
  what \<open>sysfs_create_group\<close> returns.
\<close>

definition kobj_put_dir :: "bool \<Rightarrow> bool outcome" where
  "kobj_put_dir dir = (if dir then Inr False else Inl Use_after_free)"

definition kobj_example_init :: "bool \<Rightarrow> int \<Rightarrow> (int \<times> bool) outcome" where
  "kobj_example_init created grp =
     (if \<not> created then Inr (- ENOMEM, False)
      else let retval = grp
           in bnd (if retval \<noteq> 0 then kobj_put_dir True else Inr True) (\<lambda>dir. Inr (retval, dir)))"

definition kobj_example_exit :: "bool \<Rightarrow> bool outcome" where
  "kobj_example_exit dir = kobj_put_dir dir"

section \<open>Load and unload of kset-example\<close>

text \<open>The loaded module: the kset is registered and its three objects are live, held once each.\<close>

definition kset_loaded :: "kset_mod \<Rightarrow> bool" where
  "kset_loaded s \<longleftrightarrow> example_kset s \<and>
     (\<exists>v w x. cells (foo_objs s) = [0 \<mapsto> \<lparr>kobj_name = ''foo'', kobj_refs = 1, obj_vals = v\<rparr>,
        1 \<mapsto> \<lparr>kobj_name = ''bar'', kobj_refs = 1, obj_vals = w\<rparr>,
        2 \<mapsto> \<lparr>kobj_name = ''baz'', kobj_refs = 1, obj_vals = x\<rparr>]) \<and>
     foo_obj s = Some 0 \<and> bar_obj s = Some 1 \<and> baz_obj s = Some 2"

definition kset_gone :: "kset_mod \<Rightarrow> bool" where
  "kset_gone s \<longleftrightarrow> \<not> example_kset s \<and> cells (foo_objs s) = Map.empty"

lemmas kset_simps = kobject_put_def foo_release_def kread_def kfree_def kwrite_def destroy_foo_obj_def
  kset_unregister_def foo_error_def bar_error_def baz_error_def

lemma create_foo_obj_eq:
  "create_foo_obj ok add name s =
     (if ok (brk (foo_objs s)) \<and> add name = 0
      then Inr (Some (brk (foo_objs s)), s\<lparr>foo_objs := snd (kmalloc ok
        \<lparr>kobj_name = name, kobj_refs = 1, obj_vals = \<lparr>foo = 0, baz = 0, bar = 0\<rparr>\<rparr> (foo_objs s)),
        uevents := uevents s @ [name]\<rparr>)
      else Inr (None, s\<lparr>foo_objs := (foo_objs s)\<lparr>brk := Suc (brk (foo_objs s)),
        cells := if ok (brk (foo_objs s)) then (cells (foo_objs s))(brk (foo_objs s) := None)
                 else cells (foo_objs s)\<rparr>\<rparr>))"
  by (simp add: create_foo_obj_def kmalloc_def kset_simps Let_def)

lemmas kset_init_simps = kset_example_init_def kset_zero_def kmem_empty_def create_foo_obj_eq
  kmalloc_def kset_simps kset_loaded_def kset_gone_def Let_def

lemma kset_init_granted:
  assumes "ok 0" "ok 1" "ok 2" "add ''foo'' = 0" "add ''bar'' = 0" "add ''baz'' = 0"
  shows "\<exists>s. kset_example_init True ok add kset_zero = Inr (0, s) \<and> kset_loaded s \<and>
     uevents s = [''foo'', ''bar'', ''baz'']"
  using assms by (simp add: kset_init_simps numeral_2_eq_2) (intro exI, rule refl)

lemma kset_init_refused:
  assumes "\<not> (created \<and> ok 0 \<and> ok 1 \<and> ok 2 \<and> add ''foo'' = 0 \<and> add ''bar'' = 0 \<and> add ''baz'' = 0)"
  shows "\<exists>s. kset_example_init created ok add kset_zero = Inr (if created then - EINVAL else - ENOMEM, s) \<and>
     kset_gone s"
proof -
  consider "\<not> created" | "created" "\<not> (ok 0 \<and> add ''foo'' = 0)"
    | "created" "ok 0 \<and> add ''foo'' = 0" "\<not> (ok 1 \<and> add ''bar'' = 0)"
    | "created" "ok 0 \<and> add ''foo'' = 0" "ok 1 \<and> add ''bar'' = 0" "\<not> (ok 2 \<and> add ''baz'' = 0)"
    using assms by blast
  then show ?thesis
    by cases (simp_all add: kset_init_simps numeral_2_eq_2 fun_eq_iff)
qed

lemma kset_write_loaded:
  assumes "kset_loaded s" "a < 3"
  shows "\<exists>ret s'. kset_write kstrtoint a at buf s = Inr (ret, s') \<and> kset_loaded s'"
proof -
  from assms(1) obtain v w x where c: "cells (foo_objs s) =
       [0 \<mapsto> \<lparr>kobj_name = ''foo'', kobj_refs = 1, obj_vals = v\<rparr>,
        1 \<mapsto> \<lparr>kobj_name = ''bar'', kobj_refs = 1, obj_vals = w\<rparr>,
        2 \<mapsto> \<lparr>kobj_name = ''baz'', kobj_refs = 1, obj_vals = x\<rparr>]" by (auto simp: kset_loaded_def)
  from assms(2) consider "a = 0" | "a = 1" | "a = 2" by linarith
  then show ?thesis
    by cases (use assms(1) c in \<open>auto simp: kset_write_def kread_def kwrite_def kset_loaded_def
        fun_upd_twist split: prod.split\<close>)
qed

lemma kset_exit_loaded:
  "kset_loaded s \<Longrightarrow> \<exists>s'. kset_example_exit s = Inr s' \<and> kset_gone s'"
  by (auto simp: kset_example_exit_def kset_loaded_def kset_gone_def kset_simps fun_eq_iff)

section \<open>Reading and writing the files\<close>

text \<open>The integer behind a file of an object.\<close>

definition file_value :: "string \<Rightarrow> foo_vals \<Rightarrow> int" where
  "file_value name v = (if name = ''foo'' then foo v else if name = ''baz'' then baz v else bar v)"

lemma attrs_cases:
  "at \<in> set foo_default_attrs \<longleftrightarrow> at = foo_attribute \<or> at = baz_attribute \<or> at = bar_attribute"
  by (auto simp: foo_default_attrs_def)

lemmas attr_defs = foo_attribute_def baz_attribute_def bar_attribute_def

lemma foo_attr_show_value:
  "at \<in> set foo_default_attrs \<Longrightarrow> foo_attr_show at v = Inr (emit_int (file_value (attr_name at) v))"
  by (auto simp: attrs_cases attr_defs foo_attr_show_def file_value_def foo_show_def b_show_def)

lemma foo_attr_store_value:
  assumes "at \<in> set foo_default_attrs"
  shows "\<exists>v'. foo_attr_store k at buf n v = (case k buf of Inl e \<Rightarrow> (e, v) | Inr i \<Rightarrow> (int n, v')) \<and>
     (\<forall>i. k buf = Inr i \<longrightarrow> file_value (attr_name at) v' = i) \<and>
     (\<forall>at'\<in>set foo_default_attrs. attr_name at' \<noteq> attr_name at \<longrightarrow>
        file_value (attr_name at') v' = file_value (attr_name at') v)"
  using assms
  by (cases "k buf") (auto simp: attrs_cases attr_defs foo_attr_store_def file_value_def foo_store_def b_store_def)

lemma kset_loaded_live: "kset_loaded s \<Longrightarrow> a < 3 \<Longrightarrow> \<exists>ob. cells (foo_objs s) a = Some ob"
  by (auto simp: kset_loaded_def less_Suc_eq numeral_3_eq_3 numeral_2_eq_2)

lemma cells_same: "cells m a = Some x \<Longrightarrow> m\<lparr>cells := (cells m)(a \<mapsto> x)\<rparr> = m"
  by (cases m) (simp add: fun_upd_idem)

text \<open>
  C27. In the loaded module a write to a file of an object either is refused with the error of
  the number parser and changes nothing, or is accepted whole: then the file reads back as the
  parsed number in decimal and every other file of every object reads as before.
\<close>

theorem kset_write_read:
  assumes "kset_loaded s" "a < 3" "at \<in> set foo_default_attrs"
  shows "case kstrtoint buf of
           Inl e \<Rightarrow> kset_write kstrtoint a at buf s = Inr (e, s)
         | Inr i \<Rightarrow> \<exists>s'. kset_write kstrtoint a at buf s = Inr (int (length buf), s') \<and> kset_loaded s' \<and>
             kset_read a at s' = Inr (Inr (emit_int i)) \<and>
             (\<forall>b<3. \<forall>at'\<in>set foo_default_attrs. (b, attr_name at') \<noteq> (a, attr_name at) \<longrightarrow>
                kset_read b at' s' = kset_read b at' s)"
proof -
  obtain ob where ob: "cells (foo_objs s) a = Some ob" using kset_loaded_live assms by blast
  obtain v' where v': "foo_attr_store kstrtoint at buf (length buf) (obj_vals ob) =
      (case kstrtoint buf of Inl e \<Rightarrow> (e, obj_vals ob) | Inr i \<Rightarrow> (int (length buf), v'))"
    "\<forall>i. kstrtoint buf = Inr i \<longrightarrow> file_value (attr_name at) v' = i"
    "\<forall>at'\<in>set foo_default_attrs. attr_name at' \<noteq> attr_name at \<longrightarrow>
       file_value (attr_name at') v' = file_value (attr_name at') (obj_vals ob)"
    using foo_attr_store_value [OF assms(3)] by blast
  show ?thesis
  proof (cases "kstrtoint buf")
    case (Inl e)
    with v'(1) ob show ?thesis by (simp add: kset_write_def kread_def kwrite_def cells_same)
  next
    case (Inr i)
    let ?s = "s\<lparr>foo_objs := (foo_objs s)\<lparr>cells := (cells (foo_objs s))(a \<mapsto> ob\<lparr>obj_vals := v'\<rparr>)\<rparr>\<rparr>"
    have w: "kset_write kstrtoint a at buf s = Inr (int (length buf), ?s)"
      using v'(1) ob Inr by (simp add: kset_write_def kread_def kwrite_def)
    moreover from kset_write_loaded [OF assms(1,2), of kstrtoint at buf] w have "kset_loaded ?s" by auto
    moreover have "kset_read a at ?s = Inr (Inr (emit_int i))"
      using v'(2) Inr assms(3) by (simp add: kset_read_def kread_def foo_attr_show_value)
    moreover have "kset_read b at' ?s = kset_read b at' s"
      if "at' \<in> set foo_default_attrs" "(b, attr_name at') \<noteq> (a, attr_name at)" for b at'
      using v'(3) that ob by (auto simp: kset_read_def kread_def foo_attr_show_value)
    ultimately show ?thesis using Inr by auto
  qed
qed

text \<open>A user's write whose result is not looked at.\<close>

definition user_write :: "parse \<Rightarrow> nat \<times> struct_foo_attribute \<times> string \<Rightarrow> kset_mod \<Rightarrow> kset_mod outcome" where
  "user_write kstrtoint w s =
     (case w of (a, at, buf) \<Rightarrow> bnd (kset_write kstrtoint a at buf s) (\<lambda>(_, s). Inr s))"

lemma user_writes_loaded:
  "kset_loaded s \<Longrightarrow> \<forall>w\<in>set ws. fst w < 3 \<Longrightarrow>
     \<exists>t. foldM (user_write kstrtoint) ws s = Inr t \<and> kset_loaded t"
proof (induction ws arbitrary: s)
  case (Cons w ws)
  obtain a at buf where w: "w = (a, at, buf)" by (cases w)
  with Cons.prems kset_write_loaded [of s a kstrtoint at buf] obtain t where
    "user_write kstrtoint w s = Inr t" "kset_loaded t" by (auto simp: user_write_def)
  with Cons.IH [of t] Cons.prems(2) show ?case by simp
qed simp

text \<open>
  C26. The load succeeds exactly when the kset, all three objects and their directories are
  granted, and then announces them; otherwise it returns an error and leaves no object and no
  kset. After a load and any writes to the files, the unload releases everything without a fault.
\<close>

theorem kset_load_unload:
  assumes "\<forall>w\<in>set ws. fst w < 3"
  shows "if created \<and> ok 0 \<and> ok 1 \<and> ok 2 \<and> add ''foo'' = 0 \<and> add ''bar'' = 0 \<and> add ''baz'' = 0
         then \<exists>s t s'. kset_example_init created ok add kset_zero = Inr (0, s) \<and>
             uevents s = [''foo'', ''bar'', ''baz''] \<and> kset_loaded s \<and>
             foldM (user_write kstrtoint) ws s = Inr t \<and> kset_example_exit t = Inr s' \<and> kset_gone s'
         else \<exists>ret s. kset_example_init created ok add kset_zero = Inr (ret, s) \<and> ret < 0 \<and> kset_gone s"
proof (cases "created \<and> ok 0 \<and> ok 1 \<and> ok 2 \<and> add ''foo'' = 0 \<and> add ''bar'' = 0 \<and> add ''baz'' = 0")
  case True
  with kset_init_granted [of ok add] obtain s where
    s: "kset_example_init created ok add kset_zero = Inr (0, s)" "kset_loaded s"
      "uevents s = [''foo'', ''bar'', ''baz'']" by auto
  from user_writes_loaded [OF s(2) assms] obtain t where
    t: "foldM (user_write kstrtoint) ws s = Inr t" "kset_loaded t" by blast
  from kset_exit_loaded [OF t(2)] s t(1) True show ?thesis by auto
next
  case False
  from kset_init_refused [OF False] have
    "\<exists>ret s. kset_example_init created ok add kset_zero = Inr (ret, s) \<and> ret < 0 \<and> kset_gone s"
    by (auto simp: EINVAL_def ENOMEM_def)
  with False show ?thesis by (simp only: if_False)
qed

text \<open>The documented behaviour of the parser on a plain decimal number with an optional newline.\<close>

definition plain_parse :: parse where
  "plain_parse buf =
     (case scan_num buf of
        None \<Rightarrow> Inl (- EINVAL)
      | Some (neg, n, rest) \<Rightarrow>
          if rest = [] \<or> rest = [NL]
          then if - (2 ^ 31) \<le> signed_val neg n \<and> signed_val neg n < 2 ^ 31 then Inr (signed_val neg n)
               else Inl (- 34)
          else Inl (- EINVAL))"

definition kset_start :: kset_mod where
  "kset_start =
     (let ob = (\<lambda>name. \<lparr>kobj_name = name, kobj_refs = 1, obj_vals = \<lparr>foo = 0, baz = 0, bar = 0\<rparr>\<rparr>)
      in \<lparr>foo_objs = \<lparr>cells = [0 \<mapsto> ob ''foo'', 1 \<mapsto> ob ''bar'', 2 \<mapsto> ob ''baz''], brk = 3\<rparr>,
          example_kset = True, foo_obj = Some 0, bar_obj = Some 1, baz_obj = Some 2, uevents = []\<rparr>)"

lemma kset_start_loaded: "kset_loaded kset_start"
  by (simp add: kset_loaded_def kset_start_def Let_def) (intro exI, rule refl)

lemma kset_write_read_witness:
  "\<exists>s'. kset_write plain_parse 1 baz_attribute ''-42'' kset_start = Inr (3, s') \<and>
     kset_read 1 baz_attribute s' = Inr (Inr (emit_int (- 42)))"
proof -
  have "plain_parse ''-42'' = Inr (- 42)" by code_simp
  with kset_write_read [of kset_start 1 baz_attribute plain_parse "''-42''"] show ?thesis
    by (auto simp: kset_start_loaded foo_default_attrs_def)
qed

lemma kset_load_unload_witness:
  "\<exists>s t s'. kset_example_init True (\<lambda>_. True) (\<lambda>_. 0) kset_zero = Inr (0, s) \<and>
     foldM (user_write plain_parse) [(0, foo_attribute, ''7''), (2, bar_attribute, ''x'')] s = Inr t \<and>
     kset_example_exit t = Inr s' \<and> kset_gone s'"
  using kset_load_unload [of "[(0, foo_attribute, ''7''), (2, bar_attribute, ''x'')]" True "\<lambda>_. True" "\<lambda>_. 0" plain_parse]
  by auto

section \<open>The same files in kobject-example\<close>

text \<open>The files of \<open>kobject-example\<close> by name, and its three variables as the values of an object.\<close>

definition kobj_show :: "string \<Rightarrow> kobj_vars \<Rightarrow> string" where
  "kobj_show name v = (if name = ''foo'' then kobj_foo_show v else kobj_b_show name v)"

definition kobj_store :: "parse \<Rightarrow> string \<Rightarrow> string \<Rightarrow> nat \<Rightarrow> kobj_vars \<Rightarrow> int \<times> kobj_vars" where
  "kobj_store kstrtoint name buf n v =
     (if name = ''foo'' then kobj_foo_store kstrtoint buf n v else kobj_b_store kstrtoint name buf n v)"

definition as_object :: "kobj_vars \<Rightarrow> foo_vals" where
  "as_object v = \<lparr>foo = ko_foo v, baz = ko_baz v, bar = ko_bar v\<rparr>"

fun kobj_stores :: "parse \<Rightarrow> (string \<times> string) list \<Rightarrow> kobj_vars \<Rightarrow> int list \<times> kobj_vars" where
  "kobj_stores k [] v = ([], v)"
| "kobj_stores k ((name, buf) # ws) v =
     (let (ret, v') = kobj_store k name buf (length buf) v; (rets, v'') = kobj_stores k ws v' in (ret # rets, v''))"

fun attr_stores :: "parse \<Rightarrow> (struct_foo_attribute \<times> string) list \<Rightarrow> foo_vals \<Rightarrow> int list \<times> foo_vals" where
  "attr_stores k [] v = ([], v)"
| "attr_stores k ((at, buf) # ws) v =
     (let (ret, v') = foo_attr_store k at buf (length buf) v; (rets, v'') = attr_stores k ws v' in (ret # rets, v''))"

lemma store_as_object:
  "at \<in> set foo_default_attrs \<Longrightarrow>
     foo_attr_store k at buf n (as_object v) = map_prod id as_object (kobj_store k (attr_name at) buf n v)"
  by (cases "k buf")
     (auto simp: attrs_cases attr_defs foo_attr_store_def foo_store_def b_store_def kobj_store_def
       kobj_foo_store_def kobj_b_store_def as_object_def)

text \<open>
  An object of \<open>kset-example\<close> refines the three variables of \<open>kobject-example\<close>: the same
  writes to the same files return the same results, leave the same numbers, and every file then
  reads the same.
\<close>

lemma kset_object_refines_kobject:
  assumes "\<forall>w\<in>set ws. fst w \<in> set foo_default_attrs"
  shows "attr_stores kstrtoint ws (as_object v) =
           map_prod id as_object (kobj_stores kstrtoint (map (\<lambda>(at, buf). (attr_name at, buf)) ws) v) \<and>
         (\<forall>at\<in>set foo_default_attrs. \<forall>u. foo_attr_show at (as_object u) = Inr (kobj_show (attr_name at) u))"
proof -
  have "attr_stores kstrtoint ws (as_object v) =
      map_prod id as_object (kobj_stores kstrtoint (map (\<lambda>(at, buf). (attr_name at, buf)) ws) v)"
    using assms
  proof (induction ws arbitrary: v)
    case (Cons w ws)
    obtain at buf where w: "w = (at, buf)" by fastforce
    with Cons.prems store_as_object [of at kstrtoint buf "length buf" v] Cons.IH show ?case
      by (auto split: prod.split)
  qed simp
  then show ?thesis
    by (auto simp: attrs_cases attr_defs foo_attr_show_def foo_show_def b_show_def kobj_show_def
        kobj_foo_show_def kobj_b_show_def as_object_def)
qed

section \<open>Values stay C integers\<close>

definition int32 :: "int \<Rightarrow> bool" where
  "int32 i \<longleftrightarrow> - (2 ^ 31) \<le> i \<and> i < 2 ^ 31"

definition vals_typed :: "foo_vals \<Rightarrow> bool" where
  "vals_typed v \<longleftrightarrow> int32 (foo v) \<and> int32 (baz v) \<and> int32 (bar v)"

definition kset_typed :: "kset_mod \<Rightarrow> bool" where
  "kset_typed s \<longleftrightarrow> kset_loaded s \<and> (\<forall>a ob. cells (foo_objs s) a = Some ob \<longrightarrow> vals_typed (obj_vals ob))"

lemma vals_typed_value: "vals_typed v \<Longrightarrow> int32 (file_value name v)"
  by (simp add: vals_typed_def file_value_def)

text \<open>Writing back what a file shows, through the contract of the file.\<close>

lemma attr_write_back:
  assumes "at \<in> set foo_default_attrs"
    and "kstrtoint (emit_int (file_value (attr_name at) v)) = Inr (file_value (attr_name at) v)"
  shows "foo_attr_store kstrtoint at (emit_int (file_value (attr_name at) v)) n v = (int n, v)"
  using assms ks_foo.write_back [of kstrtoint "attr_name at" v n] ks_baz.write_back [of kstrtoint v n]
    ks_bar.write_back [of kstrtoint v n]
  by (auto simp: attrs_cases attr_defs foo_attr_store_def file_value_def foo_show_def b_show_def)

lemma attr_store_typed:
  assumes "at \<in> set foo_default_attrs" "vals_typed v" "\<And>i. kstrtoint buf = Inr i \<Longrightarrow> int32 i"
  shows "vals_typed (snd (foo_attr_store kstrtoint at buf n v))"
  using assms
  by (auto simp: attrs_cases attr_defs foo_attr_store_def foo_store_def b_store_def vals_typed_def
      split: sum.split)

lemma user_write_typed:
  assumes "kset_typed s" "fst w < 3" "fst (snd w) \<in> set foo_default_attrs"
    and "\<forall>buf i. kstrtoint buf = Inr i \<longrightarrow> int32 i"
  shows "\<exists>t. user_write kstrtoint w s = Inr t \<and> kset_typed t"
proof -
  obtain a at buf where w: "w = (a, at, buf)" by (cases w)
  from assms(1,2) w kset_loaded_live [of s a] obtain ob where ob: "cells (foo_objs s) a = Some ob"
    by (auto simp: kset_typed_def)
  let ?v = "snd (foo_attr_store kstrtoint at buf (length buf) (obj_vals ob))"
  from ob assms w have v: "vals_typed ?v" by (intro attr_store_typed) (auto simp: kset_typed_def)
  from assms(1,2) w kset_write_loaded [of s a kstrtoint at buf] obtain ret t where
    t: "kset_write kstrtoint a at buf s = Inr (ret, t)" "kset_loaded t" by (auto simp: kset_typed_def)
  then have "cells (foo_objs t) = (cells (foo_objs s))(a \<mapsto> ob\<lparr>obj_vals := ?v\<rparr>)"
    using ob by (auto simp: kset_write_def kread_def kwrite_def split: prod.splits)
  with v t(2) assms(1) have "kset_typed t" by (auto simp: kset_typed_def)
  with t(1) w show ?thesis by (simp add: user_write_def)
qed

lemma user_writes_typed:
  assumes "\<forall>buf i. kstrtoint buf = Inr i \<longrightarrow> int32 i"
  shows "kset_typed s \<Longrightarrow> \<forall>w\<in>set ws. fst w < 3 \<and> fst (snd w) \<in> set foo_default_attrs \<Longrightarrow>
     \<exists>t. foldM (user_write kstrtoint) ws s = Inr t \<and> kset_typed t"
proof (induction ws arbitrary: s)
  case (Cons w ws)
  with user_write_typed [of s w kstrtoint] assms obtain t where
    "user_write kstrtoint w s = Inr t" "kset_typed t" by auto
  with Cons.IH [of t] Cons.prems(2) show ?case by simp
qed simp

text \<open>
  C28. The values behind the files stay 32-bit integers under any writes, when the parser only
  accepts such numbers; and when it also reads a decimal number with its newline, writing back
  what a file shows is accepted whole and changes nothing.
\<close>

theorem kset_values_typed:
  assumes "kset_typed s" "\<forall>w\<in>set ws. fst w < 3 \<and> fst (snd w) \<in> set foo_default_attrs"
    and "\<forall>buf i. kstrtoint buf = Inr i \<longrightarrow> int32 i"
    and "\<forall>i. int32 i \<longrightarrow> kstrtoint (show_int i @ [NL]) = Inr i"
  shows "\<exists>t. foldM (user_write kstrtoint) ws s = Inr t \<and> kset_typed t \<and>
     (\<forall>a<3. \<forall>at\<in>set foo_default_attrs. \<exists>txt. kset_read a at t = Inr (Inr txt) \<and>
        kset_write kstrtoint a at txt t = Inr (int (length txt), t))"
proof -
  from user_writes_typed [OF assms(3,1,2)] obtain t where
    t: "foldM (user_write kstrtoint) ws s = Inr t" "kset_typed t" by blast
  have "\<exists>txt. kset_read a at t = Inr (Inr txt) \<and> kset_write kstrtoint a at txt t = Inr (int (length txt), t)"
    if "a < 3" "at \<in> set foo_default_attrs" for a at
  proof -
    from t(2) that(1) kset_loaded_live [of t a] obtain ob where ob: "cells (foo_objs t) a = Some ob"
      by (auto simp: kset_typed_def)
    with t(2) have "int32 (file_value (attr_name at) (obj_vals ob))"
      by (auto simp: kset_typed_def vals_typed_value)
    with assms(4) have "kstrtoint (emit_int (file_value (attr_name at) (obj_vals ob))) =
        Inr (file_value (attr_name at) (obj_vals ob))" by (simp add: emit_int_def)
    from attr_write_back [where kstrtoint = kstrtoint and v = "obj_vals ob", OF that(2) this] ob that(2) show ?thesis
      by (simp add: kset_read_def kset_write_def kread_def kwrite_def cells_same foo_attr_show_value)
  qed
  with t show ?thesis by blast
qed

lemma plain_parse_int32: "plain_parse buf = Inr i \<Longrightarrow> int32 i"
  by (auto simp: plain_parse_def int32_def split: option.splits if_splits)

lemma plain_parse_show: "int32 i \<Longrightarrow> plain_parse (show_int i @ [NL]) = Inr i"
  by (auto simp: plain_parse_def int32_def scan_num_show is_digit_def NL_def signed_val_def)

lemma kset_values_typed_witness:
  "\<exists>t. foldM (user_write plain_parse) [(1, bar_attribute, ''99999999999''), (2, foo_attribute, ''-8'')] kset_start
     = Inr t \<and> kset_typed t"
proof -
  have "kset_typed kset_start"
    using kset_start_loaded
    by (auto simp: kset_typed_def kset_start_def Let_def vals_typed_def int32_def split: if_splits)
  moreover have "\<forall>w\<in>set [(1::nat, bar_attribute, ''99999999999''), (2, foo_attribute, ''-8'')].
      fst w < 3 \<and> fst (snd w) \<in> set foo_default_attrs" by (simp add: foo_default_attrs_def)
  ultimately show ?thesis
    using kset_values_typed plain_parse_int32 plain_parse_show by blast
qed

end
