(* ===== verification/StatWork.thy ===== *)
theory StatWork
  imports LoadWdt2 TopRead
begin

text \<open>
  The modules that read the text of \<open>/proc/stat\<close> in a work: the first load watchdog,
  \<open>load_softwdt.c\<close>, and \<open>per_cpu_usage.c\<close>. Both read up to 4096 bytes into a fresh buffer,
  step over the first line and scan one line per possible CPU. \<open>sscanf\<close> is the one of
  \<open>CText\<close>; it stops at the end of the buffer as at a null character. The loops that look for
  the end of a line fault when they leave the buffer.
\<close>

section \<open>Reading and scanning\<close>

definition CPU_INFO_BUFSIZE :: nat where
  "CPU_INFO_BUFSIZE = 4096"

text \<open>
  The buffer after \<open>kernel_read\<close>: the first bytes of the file over whatever \<open>kmalloc\<close> left there.
\<close>

definition read_buf :: "string \<Rightarrow> string \<Rightarrow> string" where
  "read_buf junk txt = take CPU_INFO_BUFSIZE txt @ drop (length txt) (take CPU_INFO_BUFSIZE junk)"

fun skip_line :: "string \<Rightarrow> string outcome" where
  "skip_line [] = Inl Out_of_bounds"
| "skip_line (c # cs) = (if c = NL then Inr cs else if c = NUL then Inr (c # cs) else skip_line cs)"

definition stat_cpu_format :: "directive list" where
  "stat_cpu_format = map Lit ''cpu'' @ Skip_d # concat (replicate 10 [Space, Get_lu])"

definition u64_of :: "scanned \<Rightarrow> u64" where
  "u64_of v = (case v of U_val u \<Rightarrow> u | _ \<Rightarrow> 0)"

text \<open>
  The ten counters of a line, when all ten were scanned.
\<close>

definition scan_cpu :: "string \<Rightarrow> kcpustat option" where
  "scan_cpu line =
     (let vs = map u64_of (sscanf stat_cpu_format (c_str line))
      in if length vs = 10
         then Some \<lparr>k_user = vs ! 0, k_nice = vs ! 1, k_system = vs ! 2, k_idle = vs ! 3,
                    k_iowait = vs ! 4, k_irq = vs ! 5, k_softirq = vs ! 6, k_steal = vs ! 7,
                    k_guest = vs ! 8, k_guest_nice = vs ! 9\<rparr>
         else None)"

text \<open>
  The loop over the possible CPUs, for a body that uses the counters. A line that does not scan
  is not stepped over.
\<close>

definition stat_cpu :: "(nat \<Rightarrow> kcpustat \<Rightarrow> 's \<Rightarrow> 's outcome) \<Rightarrow> nat \<Rightarrow> string \<times> 's \<Rightarrow> (string \<times> 's) outcome" where
  "stat_cpu body cpu ls =
     (case ls of (line, s) \<Rightarrow>
        (case scan_cpu line of
           None \<Rightarrow> Inr (line, s)
         | Some k \<Rightarrow> bnd (body cpu k s) (\<lambda>s. bnd (skip_line line) (\<lambda>line. Inr (line, s)))))"

definition scan_stat ::
    "(nat \<Rightarrow> kcpustat \<Rightarrow> 's \<Rightarrow> 's outcome) \<Rightarrow> nat \<Rightarrow> string \<Rightarrow> 's \<Rightarrow> 's outcome" where
  "scan_stat body num_cpus buf s =
     bnd (skip_line buf) (\<lambda>line.
     bnd (foldM (stat_cpu body) [0..<num_cpus] (line, s)) (\<lambda>(line, s). Inr s))"

section \<open>The first load watchdog\<close>

record stat_watchdog = wd +
  stat_wq :: bool
  stat_prev_idle :: "u64 buf"
  stat_prev_total :: "u64 buf"
  stat_prev_interrupt :: "u64 buf"
  stat_bufs :: "unit kmem"

definition stat_usage :: "nat \<Rightarrow> kcpustat \<Rightarrow> stat_watchdog \<Rightarrow> stat_watchdog outcome" where
  "stat_usage cpu k s =
     bnd (buf_get (stat_prev_idle s) cpu) (\<lambda>pi.
     bnd (buf_get (stat_prev_total s) cpu) (\<lambda>pt.
     bnd (buf_get (stat_prev_interrupt s) cpu) (\<lambda>pq.
       let s = (if pt \<noteq> 0
                then printk (usage_msg cpu (cpu_total k - pt) (k_idle k - pi) (cpu_interrupt k - pq)) s
                else s)
       in bnd (buf_set (stat_prev_idle s) cpu (k_idle k)) (\<lambda>bi.
          bnd (buf_set (stat_prev_total s) cpu (cpu_total k)) (\<lambda>bt.
          bnd (buf_set (stat_prev_interrupt s) cpu (cpu_interrupt k)) (\<lambda>bq.
            Inr (s\<lparr>stat_prev_idle := bi, stat_prev_total := bt, stat_prev_interrupt := bq\<rparr>)))))))"

text \<open>
  The work. \<open>stat\<close> is the text of the file, if it can be opened. The buffer is not released on
  any path.
\<close>

definition stat_calculate_cpu_usage ::
    "(nat \<Rightarrow> bool) \<Rightarrow> nat \<Rightarrow> string \<Rightarrow> string option \<Rightarrow> stat_watchdog \<Rightarrow> stat_watchdog outcome" where
  "stat_calculate_cpu_usage ok num_cpus junk stat s =
     (let (buf, m) = kmalloc ok () (stat_bufs s); s = s\<lparr>stat_bufs := m\<rparr>
      in case buf of
           None \<Rightarrow> Inr (printk Failed_msg s)
         | Some b \<Rightarrow>
             (case stat of
                None \<Rightarrow> Inr (printk Failed_msg s)
              | Some txt \<Rightarrow>
                  if txt = [] then Inr (printk Failed_msg s)
                  else scan_stat stat_usage num_cpus (read_buf junk txt) s))"

definition stat_watchdog_kick :: "(nat \<Rightarrow> nat) \<Rightarrow> nat \<Rightarrow> stat_watchdog \<Rightarrow> stat_watchdog" where
  "stat_watchdog_kick m2j jiffies s = mod_timer (jiffies + m2j 12000) (printk Kick_msg s)"

definition stat_watchdog_timeout :: "(nat \<Rightarrow> nat) \<Rightarrow> nat \<Rightarrow> stat_watchdog \<Rightarrow> stat_watchdog" where
  "stat_watchdog_timeout m2j jiffies s =
     (let s = s\<lparr>wd_count := wd_count s + 1\<rparr>
      in if wd_count s < 10
         then stat_watchdog_kick m2j jiffies ((printk (Timeout_msg (wd_count s)) s)\<lparr>wd_aux := True\<rparr>)
         else if wd_count s mod 10 = 0
         then stat_watchdog_kick m2j jiffies
                ((printk Usage_header (printk (Timeout_msg (wd_count s)) s))\<lparr>wd_aux := True\<rparr>)
         else s)"

definition stat_watchdog_feed_task :: "(nat \<Rightarrow> nat) \<Rightarrow> nat \<Rightarrow> stat_watchdog \<Rightarrow> stat_watchdog" where
  "stat_watchdog_feed_task m2j jiffies s =
     (let s = stat_watchdog_kick m2j jiffies s in queue_delayed (jiffies + m2j (unat (kick_time s))) s)"

definition stat_watchdog_init ::
    "(nat \<Rightarrow> nat) \<Rightarrow> nat \<Rightarrow> bool \<Rightarrow> bool \<times> bool \<times> bool \<Rightarrow> nat \<Rightarrow> int \<times> stat_watchdog" where
  "stat_watchdog_init m2j jiffies wq arrs num_cpus =
     (let (ok_idle, ok_total, ok_interrupt) = arrs;
          s = \<lparr>kick_time = 10000, wd_work = None, wd_expires = jiffies + m2j 12000,
               wd_pending = False, wd_count = 0, wd_aux = False, dmesg = [Init_msg],
               stat_wq = wq, stat_prev_idle = NullP, stat_prev_total = NullP,
               stat_prev_interrupt = NullP, stat_bufs = kmem_empty\<rparr>
      in if \<not> wq then (-1, printk Failed_msg s)
         else let s = s\<lparr>stat_prev_idle := alloc_arr ok_idle num_cpus,
                       stat_prev_total := alloc_arr ok_total num_cpus,
                       stat_prev_interrupt := alloc_arr ok_interrupt num_cpus\<rparr>
              in if \<not> ok_idle \<or> \<not> ok_total \<or> \<not> ok_interrupt then (0, printk Failed_msg s)
                 else (0, queue_delayed jiffies s))"

text \<open>The unload; \<open>flush_work\<close> lets a queued work run to its end, here \<open>work\<close>.\<close>

definition stat_watchdog_exit ::
    "(stat_watchdog \<Rightarrow> stat_watchdog outcome) \<Rightarrow> stat_watchdog \<Rightarrow> stat_watchdog outcome" where
  "stat_watchdog_exit work s =
     (let s = (printk Exit_msg s)\<lparr>wd_pending := False, wd_work := None\<rparr>
      in if \<not> stat_wq s then Inl Null_deref
         else bnd (let s = s\<lparr>stat_wq := False\<rparr> in if wd_aux s then work (s\<lparr>wd_aux := False\<rparr>) else Inr s) (\<lambda>s.
           Inr (s\<lparr>stat_prev_idle := Freed, stat_prev_total := Freed, stat_prev_interrupt := Freed\<rparr>)))"

section \<open>per_cpu_usage\<close>

text \<open>The timer and the work are not counted or ordered beyond what the module asks for.\<close>

record per_cpu =
  pc_prev_idle :: "u64 buf"
  pc_prev_total :: "u64 buf"
  pc_expires :: "nat option"
  pc_work :: bool
  pc_bufs :: "unit kmem"
  pc_log :: "msg list"

definition cpu_timer_callback :: "(nat \<Rightarrow> nat) \<Rightarrow> nat \<Rightarrow> per_cpu \<Rightarrow> per_cpu" where
  "cpu_timer_callback m2j jiffies s = s\<lparr>pc_work := True, pc_expires := Some (jiffies + m2j 1000)\<rparr>"

text \<open>Only the first four counters enter the total; there is no interrupt share.\<close>

definition per_cpu_total :: "kcpustat \<Rightarrow> u64" where
  "per_cpu_total k = k_user k + k_nice k + k_system k + k_idle k"

definition per_cpu_line :: "nat \<Rightarrow> u64 \<Rightarrow> u64 \<Rightarrow> msg" where
  "per_cpu_line cpu diff_total diff_idle =
     (if diff_total \<noteq> 0 then Usage_msg cpu (sint (busy_pct diff_total diff_idle)) 0 else No_update_msg cpu)"

definition per_cpu_usage :: "nat \<Rightarrow> kcpustat \<Rightarrow> per_cpu \<Rightarrow> per_cpu outcome" where
  "per_cpu_usage cpu k s =
     bnd (buf_get (pc_prev_idle s) cpu) (\<lambda>pi.
     bnd (buf_get (pc_prev_total s) cpu) (\<lambda>pt.
     bnd (buf_set (pc_prev_idle s) cpu (k_idle k)) (\<lambda>bi.
     bnd (buf_set (pc_prev_total s) cpu (per_cpu_total k)) (\<lambda>bt.
       Inr (s\<lparr>pc_prev_idle := bi, pc_prev_total := bt,
              pc_log := pc_log s @ [per_cpu_line cpu (per_cpu_total k - pt) (k_idle k - pi)]\<rparr>)))))"

definition per_cpu_calculate ::
    "(nat \<Rightarrow> bool) \<Rightarrow> nat \<Rightarrow> string \<Rightarrow> string option \<Rightarrow> per_cpu \<Rightarrow> per_cpu outcome" where
  "per_cpu_calculate ok num_cpus junk stat s =
     (let (buf, m) = kmalloc ok () (pc_bufs s); s = s\<lparr>pc_bufs := m\<rparr>
      in case buf of
           None \<Rightarrow> Inr (s\<lparr>pc_log := pc_log s @ [Failed_msg]\<rparr>)
         | Some b \<Rightarrow>
             (case stat of
                None \<Rightarrow> Inr (s\<lparr>pc_log := pc_log s @ [Failed_msg]\<rparr>)
              | Some txt \<Rightarrow>
                  if txt = [] then Inr (s\<lparr>pc_log := pc_log s @ [Failed_msg]\<rparr>)
                  else scan_stat per_cpu_usage num_cpus (read_buf junk txt) s))"

definition per_cpu_init :: "(nat \<Rightarrow> nat) \<Rightarrow> nat \<Rightarrow> bool \<Rightarrow> bool \<Rightarrow> nat \<Rightarrow> int \<times> per_cpu" where
  "per_cpu_init m2j jiffies ok_idle ok_total num_cpus =
     (let s = \<lparr>pc_prev_idle = alloc_arr ok_idle num_cpus, pc_prev_total = alloc_arr ok_total num_cpus,
               pc_expires = None, pc_work = False, pc_bufs = kmem_empty, pc_log = []\<rparr>
      in if \<not> ok_idle \<or> \<not> ok_total then (0, s\<lparr>pc_log := [Failed_msg]\<rparr>)
         else (0, s\<lparr>pc_expires := Some (jiffies + m2j 1000), pc_log := [Init_msg]\<rparr>))"

text \<open>The unload: \<open>del_timer\<close>, then the rest with the flush of the work as above.\<close>

definition per_cpu_del_timer :: "per_cpu \<Rightarrow> per_cpu" where
  "per_cpu_del_timer s = s\<lparr>pc_expires := None\<rparr>"

definition per_cpu_exit_rest :: "(per_cpu \<Rightarrow> per_cpu outcome) \<Rightarrow> per_cpu \<Rightarrow> per_cpu outcome" where
  "per_cpu_exit_rest work s =
     bnd (if pc_work s then work (s\<lparr>pc_work := False\<rparr>) else Inr s) (\<lambda>s.
       Inr (s\<lparr>pc_prev_idle := Freed, pc_prev_total := Freed, pc_log := pc_log s @ [Exit_msg]\<rparr>))"

definition per_cpu_exit :: "(per_cpu \<Rightarrow> per_cpu outcome) \<Rightarrow> per_cpu \<Rightarrow> per_cpu outcome" where
  "per_cpu_exit work s = per_cpu_exit_rest work (per_cpu_del_timer s)"

lemmas per_cpu_exit_defs = per_cpu_exit_def per_cpu_exit_rest_def per_cpu_del_timer_def

section \<open>Scanning the text the kernel prints\<close>

text \<open>A line of the file: the number of the CPU and its ten counters.\<close>

definition counters :: "kcpustat \<Rightarrow> int list" where
  "counters k = map uint [k_user k, k_nice k, k_system k, k_idle k, k_iowait k, k_irq k, k_softirq k,
     k_steal k, k_guest k, k_guest_nice k]"

definition stat_line_of :: "int \<times> kcpustat \<Rightarrow> string" where
  "stat_line_of ck = ''cpu'' @ show_int (fst ck) @ put_fields (counters (snd ck))"

definition stat_lines :: "(int \<times> kcpustat) list \<Rightarrow> string" where
  "stat_lines cs = concat (map (\<lambda>ck. stat_line_of ck @ [NL]) cs)"

lemma stat_line_chars: "NL \<notin> set (stat_line_of ck)" "NUL \<notin> set (stat_line_of ck)"
  using fields_not [of "counters (snd ck)"] show_not [of "fst ck"]
  by (auto simp: stat_line_of_def NL_def NUL_def)

lemma skip_line_line: "NL \<notin> set l \<Longrightarrow> NUL \<notin> set l \<Longrightarrow> skip_line (l @ NL # r) = Inr r"
  by (induction l) auto

lemma c_str_append: "NUL \<notin> set l \<Longrightarrow> c_str (l @ r) = l @ c_str r"
  by (induction l) (auto simp: c_str_def)

lemma u64_counters: "map (u64_of \<circ> (\<lambda>x. U_val (of_int x))) (counters k) =
    [k_user k, k_nice k, k_system k, k_idle k, k_iowait k, k_irq k, k_softirq k, k_steal k, k_guest k,
     k_guest_nice k]"
  by (simp add: counters_def u64_of_def)

lemma counters_range: "\<forall>x\<in>set (counters k). 0 \<le> x \<and> x < 2 ^ 64"
  using uint_lt2p [where 'a = 64] by (auto simp: counters_def)

lemma length_counters [simp]: "length (counters k) = 10"
  by (simp add: counters_def)

lemma scan_cpu_line: "scan_cpu (stat_line_of ck @ NL # r) = Some (snd ck)"
proof -
  let ?fs = "put_fields (counters (snd ck))" and ?r = "NL # c_str r"
  have c: "c_str (stat_line_of ck @ NL # r) = ''cpu'' @ show_int (fst ck) @ ?fs @ ?r"
    using c_str_append [of "stat_line_of ck @ [NL]" r] stat_line_chars [of ck]
    by (simp add: NL_def NUL_def) (simp add: stat_line_of_def)
  have e: "ends_number ?r" by (simp add: ends_number_def is_digit_def NL_def)
  have "sscanf stat_cpu_format (''cpu'' @ show_int (fst ck) @ ?fs @ ?r) =
      sscanf (concat (replicate 10 [Space, Get_lu])) (?fs @ ?r)"
    using scan_field_num [of "?fs @ ?r" "fst ck"] e by (simp add: stat_cpu_format_def)
  also have "\<dots> = map (\<lambda>x. U_val (of_int x)) (counters (snd ck))"
    using sscanf_lus [OF e counters_range, of "snd ck"] by simp
  finally show ?thesis
    by (simp add: scan_cpu_def c Let_def u64_counters [unfolded comp_def] map_map comp_def)
qed

lemma scan_cpu_other: "r \<noteq> [] \<Longrightarrow> hd r \<noteq> CHR ''c'' \<Longrightarrow> scan_cpu r = None"
  by (cases r) (auto simp: scan_cpu_def c_str_def stat_cpu_format_def Let_def)

lemma stat_cpu_line:
  "stat_cpu body cpu (stat_line_of ck @ NL # r, s) = bnd (body cpu (snd ck) s) (\<lambda>s. Inr (r, s))"
  using skip_line_line [OF stat_line_chars, of ck r] scan_cpu_line [of ck r]
  by (simp add: stat_cpu_def)

lemma stat_loop_lines:
  "foldM (stat_cpu body) [i..<i + length cs] (stat_lines cs @ r, s) =
     bnd (foldM (\<lambda>(cpu, k). body cpu k) (enumerate i (map snd cs)) s) (\<lambda>s. Inr (r, s))"
proof (induction cs arbitrary: i s)
  case (Cons ck cs)
  have "[i..<i + length (ck # cs)] = i # [Suc i..<Suc i + length cs]" by (simp add: upt_rec)
  then show ?case using Cons [of "Suc i"]
    by (cases "body i (snd ck) s") (simp_all add: stat_lines_def stat_cpu_line)
qed (simp add: stat_lines_def)

lemma stat_loop_rest:
  "scan_cpu r = None \<Longrightarrow> foldM (stat_cpu body) js (r, s) = Inr (r, s)"
  by (induction js) (simp_all add: stat_cpu_def)

lemma scan_stat_text:
  assumes "NL \<notin> set header" "NUL \<notin> set header" "length cs \<le> n" "r \<noteq> []" "hd r \<noteq> CHR ''c''"
  shows "scan_stat body n (header @ NL # stat_lines cs @ r) s =
     foldM (\<lambda>(cpu, k). body cpu k) (enumerate 0 (map snd cs)) s"
proof -
  have "[0..<n] = [0..<0 + length cs] @ [length cs..<n]"
    using upt_add_eq_append [of 0 "length cs" "n - length cs"] assms(3) by simp
  moreover have "foldM (stat_cpu body) js (r, s) = Inr (r, s)" for js s
    using scan_cpu_other [OF assms(4,5)] by (rule stat_loop_rest)
  ultimately show ?thesis
    using skip_line_line [OF assms(1,2), of "stat_lines cs @ r"] stat_loop_lines [of body 0 cs r s]
    by (cases "foldM (\<lambda>(cpu, k). body cpu k) (enumerate 0 (map snd cs)) s")
       (simp_all add: scan_stat_def foldM_append bnd_assoc)
qed

text \<open>A file the kernel prints: a first line, a line per listed CPU, other text.\<close>

definition stat_file :: "string \<Rightarrow> (int \<times> kcpustat) list \<Rightarrow> string \<Rightarrow> string" where
  "stat_file header cs tail = header @ NL # stat_lines cs @ tail"

definition stat_file_ok :: "nat \<Rightarrow> string \<Rightarrow> (int \<times> kcpustat) list \<Rightarrow> string \<Rightarrow> bool" where
  "stat_file_ok n header cs tail \<longleftrightarrow> NL \<notin> set header \<and> NUL \<notin> set header \<and> length cs \<le> n \<and>
     length (header @ NL # stat_lines cs) < CPU_INFO_BUFSIZE \<and> tail \<noteq> [] \<and> hd tail \<noteq> CHR ''c''"

text \<open>What a work can find: no file, an empty one, or one the kernel printed.\<close>

definition stat_readable :: "nat \<Rightarrow> string option \<Rightarrow> bool" where
  "stat_readable n st \<longleftrightarrow> st = None \<or> st = Some [] \<or>
     (\<exists>header cs tail. stat_file_ok n header cs tail \<and> st = Some (stat_file header cs tail))"

lemma read_buf_split:
  assumes "length t < CPU_INFO_BUFSIZE" "r \<noteq> []"
  shows "\<exists>r'. read_buf junk (t @ r) = t @ r' \<and> r' \<noteq> [] \<and> hd r' = hd r"
proof (intro exI conjI)
  let ?r = "take (CPU_INFO_BUFSIZE - length t) r @ drop (length (t @ r)) (take CPU_INFO_BUFSIZE junk)"
  show "read_buf junk (t @ r) = t @ ?r" using assms(1) by (simp add: read_buf_def)
  show "?r \<noteq> []" "hd ?r = hd r" using assms by (cases r; simp add: hd_append)+
qed

section \<open>What the watchdog reports\<close>

text \<open>
  The usage lines for the counters of the CPUs from number \<open>j\<close> on, against the recorded ones; a
  CPU whose recorded total is zero is not reported.
\<close>

fun stat_msgs :: "nat \<Rightarrow> u64 list \<Rightarrow> u64 list \<Rightarrow> u64 list \<Rightarrow> kcpustat list \<Rightarrow> msg list" where
  "stat_msgs j pi pt pq [] = []"
| "stat_msgs j pi pt pq (k # ks) =
     (if pt ! j \<noteq> 0 then [usage_msg j (cpu_total k - pt ! j) (k_idle k - pi ! j) (cpu_interrupt k - pq ! j)]
      else []) @ stat_msgs (Suc j) pi pt pq ks"

lemma stat_msgs_update:
  "i < j \<Longrightarrow> stat_msgs j (pi[i := a]) (pt[i := b]) (pq[i := c]) ks = stat_msgs j pi pt pq ks"
  by (induction ks arbitrary: j) auto

text \<open>An array whose entries from \<open>j\<close> on were overwritten.\<close>

definition overwrite :: "nat \<Rightarrow> 'a list \<Rightarrow> 'a list \<Rightarrow> 'a list" where
  "overwrite j vs xs = take j xs @ vs @ drop (j + length vs) xs"

lemma overwrite_Nil [simp]: "overwrite j [] xs = xs"
  by (simp add: overwrite_def)

lemma overwrite_Cons:
  "j < length xs \<Longrightarrow> overwrite (Suc j) vs (xs[j := v]) = overwrite j (v # vs) xs"
  by (simp add: overwrite_def take_Suc_conv_app_nth upd_conv_take_nth_drop drop_update_cancel add.commute)

definition stat_arrays :: "u64 list \<Rightarrow> u64 list \<Rightarrow> u64 list \<Rightarrow> stat_watchdog \<Rightarrow> bool" where
  "stat_arrays pi pt pq s \<longleftrightarrow>
     stat_prev_idle s = Arr pi \<and> stat_prev_total s = Arr pt \<and> stat_prev_interrupt s = Arr pq"

lemma stat_usage_effect:
  assumes "stat_arrays pi pt pq s" "j < length pi" "length pt = length pi" "length pq = length pi"
  shows "\<exists>t. stat_usage j k s = Inr t \<and>
     stat_arrays (pi[j := k_idle k]) (pt[j := cpu_total k]) (pq[j := cpu_interrupt k]) t \<and>
     dmesg t = dmesg s @ stat_msgs j pi pt pq [k] \<and> stat_bufs t = stat_bufs s"
  using assms by (auto simp: stat_usage_def stat_arrays_def printk_def Let_def)

lemma stat_usage_loop:
  assumes "stat_arrays pi pt pq s" "j + length ks \<le> length pi" "length pt = length pi" "length pq = length pi"
  shows "\<exists>t. foldM (\<lambda>(cpu, k). stat_usage cpu k) (enumerate j ks) s = Inr t \<and>
     stat_arrays (overwrite j (map k_idle ks) pi) (overwrite j (map cpu_total ks) pt)
       (overwrite j (map cpu_interrupt ks) pq) t \<and>
     dmesg t = dmesg s @ stat_msgs j pi pt pq ks \<and> stat_bufs t = stat_bufs s"
  using assms
proof (induction ks arbitrary: j s pi pt pq)
  case Nil
  then show ?case by simp
next
  case (Cons k ks)
  let ?pi = "pi[j := k_idle k]" and ?pt = "pt[j := cpu_total k]" and ?pq = "pq[j := cpu_interrupt k]"
  from Cons.prems have j: "j < length pi" by simp
  from stat_usage_effect [OF Cons.prems(1) j Cons.prems(3,4), of k] obtain t where
    t: "stat_usage j k s = Inr t" "stat_arrays ?pi ?pt ?pq t"
      "dmesg t = dmesg s @ stat_msgs j pi pt pq [k]" "stat_bufs t = stat_bufs s" by blast
  from Cons.IH [OF t(2), of "Suc j"] Cons.prems(2-4) obtain u where
    "foldM (\<lambda>(cpu, k). stat_usage cpu k) (enumerate (Suc j) ks) t = Inr u"
    "stat_arrays (overwrite (Suc j) (map k_idle ks) ?pi) (overwrite (Suc j) (map cpu_total ks) ?pt)
       (overwrite (Suc j) (map cpu_interrupt ks) ?pq) u"
    "dmesg u = dmesg t @ stat_msgs (Suc j) ?pi ?pt ?pq ks" "stat_bufs u = stat_bufs t" by auto
  with t j Cons.prems(3,4) show ?case
    by (simp add: overwrite_Cons stat_msgs_update)
qed

lemma stat_work_run:
  assumes "ok (brk (stat_bufs s))" "stat_arrays pi pt pq s"
    and "length pi = n" "length pt = n" "length pq = n" "stat_file_ok n header cs tail"
  shows "\<exists>s'. stat_calculate_cpu_usage ok n junk (Some (stat_file header cs tail)) s = Inr s' \<and>
     dmesg s' = dmesg s @ stat_msgs 0 pi pt pq (map snd cs) \<and>
     stat_arrays (map k_idle (map snd cs) @ drop (length cs) pi)
       (map cpu_total (map snd cs) @ drop (length cs) pt)
       (map cpu_interrupt (map snd cs) @ drop (length cs) pq) s'"
proof -
  let ?m = "snd (kmalloc ok () (stat_bufs s))"
  from assms(6) have f: "NL \<notin> set header" "NUL \<notin> set header" "length cs \<le> n"
    "length (header @ NL # stat_lines cs) < CPU_INFO_BUFSIZE" "tail \<noteq> []" "hd tail \<noteq> CHR ''c''"
    by (auto simp: stat_file_ok_def)
  from read_buf_split [OF f(4,5), of junk] f(6) obtain r' where
    r': "read_buf junk (stat_file header cs tail) = header @ NL # stat_lines cs @ r'"
      "r' \<noteq> []" "hd r' \<noteq> CHR ''c''" by (auto simp: stat_file_def)
  have "stat_arrays pi pt pq (s\<lparr>stat_bufs := ?m\<rparr>)" using assms(2) by (simp add: stat_arrays_def)
  from stat_usage_loop [OF this, of 0 "map snd cs"] assms(3-5) f(3) obtain t where
    t: "foldM (\<lambda>(cpu, k). stat_usage cpu k) (enumerate 0 (map snd cs)) (s\<lparr>stat_bufs := ?m\<rparr>) = Inr t"
      "stat_arrays (map k_idle (map snd cs) @ drop (length cs) pi)
         (map cpu_total (map snd cs) @ drop (length cs) pt)
         (map cpu_interrupt (map snd cs) @ drop (length cs) pq) t"
      "dmesg t = dmesg s @ stat_msgs 0 pi pt pq (map snd cs)"
    by (auto simp: overwrite_def)
  have "stat_file header cs tail \<noteq> []" by (simp add: stat_file_def)
  then have "stat_calculate_cpu_usage ok n junk (Some (stat_file header cs tail)) s = Inr t"
    using assms(1) t(1) scan_stat_text [OF f(1,2,3) r'(2,3), of stat_usage]
    by (simp add: stat_calculate_cpu_usage_def kmalloc_def Let_def r'(1))
  with t(2,3) show ?thesis by blast
qed

definition stat_sized :: "nat \<Rightarrow> stat_watchdog \<Rightarrow> bool" where
  "stat_sized n s \<longleftrightarrow>
     (\<exists>pi pt pq. stat_arrays pi pt pq s \<and> length pi = n \<and> length pt = n \<and> length pq = n)"

lemma stat_work_total:
  assumes "stat_readable n st" "stat_sized n s"
  shows "\<exists>s'. stat_calculate_cpu_usage ok n junk st s = Inr s' \<and> stat_sized n s'"
proof (cases "ok (brk (stat_bufs s)) \<and> (\<exists>header cs tail. stat_file_ok n header cs tail \<and> st = Some (stat_file header cs tail))")
  case True
  then obtain header cs tail where f: "ok (brk (stat_bufs s))" "stat_file_ok n header cs tail"
    "st = Some (stat_file header cs tail)" by blast
  from assms(2) obtain pi pt pq where a: "stat_arrays pi pt pq s" "length pi = n" "length pt = n" "length pq = n"
    by (auto simp: stat_sized_def)
  from stat_work_run [where ok = ok, OF f(1) a f(2), of junk] a(2-4) f(2,3) show ?thesis
    by (force simp: stat_sized_def stat_file_ok_def)
next
  case False
  with assms show ?thesis
    by (auto simp: stat_calculate_cpu_usage_def stat_readable_def stat_sized_def stat_arrays_def
        kmalloc_def printk_def Let_def)
qed

text \<open>The scan changes nothing that its body does not change.\<close>

lemma scan_stat_inv:
  assumes "scan_stat body n buf s = Inr s'" "P s"
    and "\<And>cpu k t t'. body cpu k t = Inr t' \<Longrightarrow> P t \<Longrightarrow> P t'"
  shows "P s'"
proof -
  from assms(1) obtain line line' where
    "foldM (stat_cpu body) [0..<n] (line, s) = Inr (line', s')" by (auto simp: scan_stat_def bnd_eq_Inr)
  then have "P (snd (line', s'))"
    by (rule foldM_inv [where P = "\<lambda>ls. P (snd ls)"])
       (use assms(2,3) in \<open>auto simp: stat_cpu_def bnd_eq_Inr split: option.splits\<close>)
  then show ?thesis by simp
qed

definition took_request :: "(nat \<Rightarrow> bool) \<Rightarrow> unit kmem \<Rightarrow> unit kmem \<Rightarrow> bool" where
  "took_request ok m m' \<longleftrightarrow> brk m' = Suc (brk m) \<and>
     live m' = live m \<union> (if ok (brk m) then {brk m} else {})"

lemma took_kmalloc: "kmalloc ok () m = (r, m') \<Longrightarrow> took_request ok m m'"
  by (auto simp: kmalloc_def took_request_def live_def split: if_splits)

lemma stat_calculate_bufs:
  assumes "stat_calculate_cpu_usage ok n junk st s = Inr s'"
  shows "took_request ok (stat_bufs s) (stat_bufs s')"
proof -
  obtain r m where k: "kmalloc ok () (stat_bufs s) = (r, m)" by fastforce
  have "stat_bufs t' = m" if "scan_stat stat_usage n b (s\<lparr>stat_bufs := m\<rparr>) = Inr t'" for b t'
    using that by (rule scan_stat_inv) (auto simp: stat_usage_def bnd_eq_Inr printk_def Let_def split: if_splits)
  with assms k have "stat_bufs s' = m"
    by (auto simp: stat_calculate_cpu_usage_def printk_def Let_def split: option.splits if_splits)
  with took_kmalloc [OF k] show ?thesis by simp
qed

lemma per_cpu_calculate_bufs:
  assumes "per_cpu_calculate ok n junk st s = Inr s'"
  shows "took_request ok (pc_bufs s) (pc_bufs s')"
proof -
  obtain r m where k: "kmalloc ok () (pc_bufs s) = (r, m)" by fastforce
  have "pc_bufs t' = m" if "scan_stat per_cpu_usage n b (s\<lparr>pc_bufs := m\<rparr>) = Inr t'" for b t'
    using that by (rule scan_stat_inv) (auto simp: per_cpu_usage_def bnd_eq_Inr)
  with assms k have "pc_bufs s' = m"
    by (auto simp: per_cpu_calculate_def Let_def split: option.splits if_splits)
  with took_kmalloc [OF k] show ?thesis by simp
qed

text \<open>
  The usage lines of increments: the share that was not idle and the share in interrupts, exactly.
  A CPU whose counters were all zero at the first sample is left out.
\<close>

definition share_msg :: "nat \<Rightarrow> kcpustat \<Rightarrow> msg" where
  "share_msg cpu d =
     Usage_msg cpu (int (100 * (cpu_time d - unat (k_idle d)) div cpu_time d))
       (int (100 * (unat (k_irq d) + unat (k_softirq d)) div cpu_time d))"

fun share_msgs :: "nat \<Rightarrow> kcpustat list \<Rightarrow> kcpustat list \<Rightarrow> msg list" where
  "share_msgs j (k # ks) (d # ds) =
     (if cpu_total k \<noteq> 0 then [share_msg j d] else []) @ share_msgs (Suc j) ks ds"
| "share_msgs j _ _ = []"

lemma stat_msgs_advance:
  assumes "length ks = length ds" "\<forall>d\<in>set ds. 0 < cpu_time d \<and> 100 * cpu_time d < 2 ^ 64"
    and "\<forall>i<length ks. pi ! (j + i) = k_idle (ks ! i) \<and> pt ! (j + i) = cpu_total (ks ! i)
       \<and> pq ! (j + i) = cpu_interrupt (ks ! i)"
  shows "stat_msgs j pi pt pq (map2 advance ks ds) = share_msgs j ks ds"
  using assms
proof (induction ks ds arbitrary: j rule: list_induct2)
  case (Cons k ks d ds)
  have "pi ! j = k_idle k" "pt ! j = cpu_total k" "pq ! j = cpu_interrupt k"
    using Cons.prems(2) [rule_format, of 0] by simp_all
  moreover have "usage_msg j (cpu_total d) (k_idle d) (cpu_interrupt d) = share_msg j d"
    using Cons.prems(1) by (simp add: usage_msg_exact share_msg_def)
  moreover have "k_idle (advance k d) - k_idle k = k_idle d" by (simp add: advance_def)
  moreover have "\<forall>i<length ks. pi ! (Suc j + i) = k_idle (ks ! i) \<and> pt ! (Suc j + i) = cpu_total (ks ! i)
       \<and> pq ! (Suc j + i) = cpu_interrupt (ks ! i)"
    using Cons.prems(2) by (metis Suc_less_eq add_Suc add_Suc_right length_Cons nth_Cons_Suc)
  ultimately show ?case using Cons.IH [of "Suc j"] Cons.prems(1)
    by (simp add: cpu_total_advance cpu_interrupt_advance)
qed simp

text \<open>
  C29. Two runs of the work against files the kernel prints, a line per listed CPU that ends within
  the buffer: the second reports the \<open>j\<close>-th line as CPU number \<open>j\<close>, whatever number the line
  carries, with the exact share of the increments that was not idle and the exact share in
  interrupts, in percent rounded down, whatever was recorded before and even when counters wrap;
  a CPU whose first total was zero is not reported. Neither run faults.
\<close>

theorem stat_work_reports:
  assumes "stat_sized n s" "ok (brk (stat_bufs s))" "ok (Suc (brk (stat_bufs s)))"
    and "stat_file_ok n header cs tail" "stat_file_ok n header' cs' tail'"
    and "length ds = length cs" "map snd cs' = map2 advance (map snd cs) ds"
    and "\<forall>d\<in>set ds. 0 < cpu_time d \<and> 100 * cpu_time d < 2 ^ 64"
  shows "\<exists>t u. stat_calculate_cpu_usage ok n junk (Some (stat_file header cs tail)) s = Inr t \<and>
     stat_calculate_cpu_usage ok n junk' (Some (stat_file header' cs' tail')) t = Inr u \<and>
     dmesg u = dmesg t @ share_msgs 0 (map snd cs) ds"
proof -
  let ?ks = "map snd cs"
  from assms(1) obtain pi pt pq where a: "stat_arrays pi pt pq s" "length pi = n" "length pt = n" "length pq = n"
    by (auto simp: stat_sized_def)
  have n: "length cs \<le> n" using assms(4) by (simp add: stat_file_ok_def)
  let ?pi = "map k_idle ?ks @ drop (length cs) pi" and ?pt = "map cpu_total ?ks @ drop (length cs) pt"
    and ?pq = "map cpu_interrupt ?ks @ drop (length cs) pq"
  from stat_work_run [where ok = ok, OF assms(2) a assms(4), of junk] obtain t where
    t: "stat_calculate_cpu_usage ok n junk (Some (stat_file header cs tail)) s = Inr t" "stat_arrays ?pi ?pt ?pq t"
    by blast
  from stat_calculate_bufs [OF t(1)] assms(3) have "ok (brk (stat_bufs t))" by (simp add: took_request_def)
  from stat_work_run [where ok = ok, OF this t(2) _ _ _ assms(5), of junk'] a(2-4) n obtain u where
    u: "stat_calculate_cpu_usage ok n junk' (Some (stat_file header' cs' tail')) t = Inr u"
      "dmesg u = dmesg t @ stat_msgs 0 ?pi ?pt ?pq (map2 advance ?ks ds)"
    by (auto simp: assms(7))
  have "stat_msgs 0 ?pi ?pt ?pq (map2 advance ?ks ds) = share_msgs 0 ?ks ds"
    using assms(6,8) by (intro stat_msgs_advance) (simp_all add: nth_append)
  with t(1) u show ?thesis by auto
qed

definition sample_stat :: stat_watchdog where
  "sample_stat = \<lparr>kick_time = 10000, wd_work = None, wd_expires = 0, wd_pending = True, wd_count = 1,
     wd_aux = False, dmesg = [], stat_wq = True, stat_prev_idle = Arr [10, 0], stat_prev_total = Arr [30, 0],
     stat_prev_interrupt = Arr [0, 0], stat_bufs = kmem_empty\<rparr>"

definition sample_cpu :: kcpustat where
  "sample_cpu = \<lparr>k_user = 3, k_nice = 0, k_system = 4, k_idle = 5, k_iowait = 0, k_irq = 1, k_softirq = 0,
     k_steal = 0, k_guest = 0, k_guest_nice = 0\<rparr>"

lemma sample_cpu_line: "stat_line_of (7, sample_cpu) = ''cpu7 3 0 4 5 0 1 0 0 0 0''"
proof -
  have "show_int 0 = ''0''" "show_int 1 = ''1''" "show_int 3 = ''3''" "show_int 4 = ''4''" "show_int 5 = ''5''"
    "show_int 7 = ''7''" by code_simp+
  then show ?thesis by (simp add: stat_line_of_def sample_cpu_def counters_def put_fields_def)
qed

definition sample_busy :: kcpustat where
  "sample_busy = \<lparr>k_user = 6, k_nice = 0, k_system = 0, k_idle = 2, k_iowait = 0, k_irq = 1,
     k_softirq = 1, k_steal = 0, k_guest = 0, k_guest_nice = 0\<rparr>"

lemma sample_later_line: "stat_line_of (7, advance sample_cpu sample_busy) = ''cpu7 9 0 4 7 0 2 1 0 0 0''"
proof -
  have "show_int 0 = ''0''" "show_int 1 = ''1''" "show_int 2 = ''2''" "show_int 9 = ''9''" "show_int 4 = ''4''"
    "show_int 7 = ''7''" by code_simp+
  then show ?thesis
    by (simp add: stat_line_of_def sample_cpu_def sample_busy_def advance_def counters_def put_fields_def)
qed

lemma stat_work_reports_witness:
  "\<exists>t u. stat_calculate_cpu_usage (\<lambda>_. True) 2 [] (Some (stat_file ''cpu 1 2'' [(7, sample_cpu)] ''intr 0''))
      sample_stat = Inr t \<and>
     stat_calculate_cpu_usage (\<lambda>_. True) 2 []
       (Some (stat_file ''cpu 3 4'' [(7, advance sample_cpu sample_busy)] ''intr 1'')) t = Inr u \<and>
     dmesg u = dmesg t @ [Usage_msg 0 80 20]"
proof -
  have s: "stat_sized 2 sample_stat" by (simp add: stat_sized_def stat_arrays_def sample_stat_def)
  have f: "stat_file_ok 2 ''cpu 1 2'' [(7, sample_cpu)] ''intr 0''"
    "stat_file_ok 2 ''cpu 3 4'' [(7, advance sample_cpu sample_busy)] ''intr 1''"
    by (simp_all add: stat_file_ok_def stat_lines_def sample_cpu_line sample_later_line CPU_INFO_BUFSIZE_def
        NL_def NUL_def)
  have d: "\<forall>d\<in>set [sample_busy]. 0 < cpu_time d \<and> 100 * cpu_time d < 2 ^ 64"
    by (simp add: sample_busy_def cpu_time_def cpu_entries_def)
  have "share_msgs 0 [sample_cpu] [sample_busy] = [Usage_msg 0 80 20]"
    by (simp add: share_msg_def sample_busy_def sample_cpu_def cpu_total_def cpu_time_def cpu_entries_def)
  with stat_work_reports [where ok = "\<lambda>_. True" and ds = "[sample_busy]" and junk = "[]" and junk' = "[]",
      OF s _ _ f _ _ d] show ?thesis by simp
qed

section \<open>Leaked buffers\<close>

text \<open>Runs of either work, one after the other.\<close>

lemma took_requests:
  assumes "foldM work sts s = Inr s'"
    and "\<And>st t t'. work st t = Inr t' \<Longrightarrow> took_request ok (bufs t) (bufs t')"
  shows "brk (bufs s') = brk (bufs s) + length sts \<and>
     live (bufs s') = live (bufs s) \<union> {a. brk (bufs s) \<le> a \<and> a < brk (bufs s) + length sts \<and> ok a}"
  using assms(1)
proof (induction sts arbitrary: s)
  case (Cons st sts)
  then obtain t where t: "work st s = Inr t" "foldM work sts t = Inr s'" by (auto simp: bnd_eq_Inr)
  let ?b = "brk (bufs s)"
  have "{a. ?b \<le> a \<and> a < ?b + length (st # sts) \<and> ok a} =
      (if ok ?b then {?b} else {}) \<union> {a. Suc ?b \<le> a \<and> a < Suc ?b + length sts \<and> ok a}"
    by (auto simp: Suc_le_eq le_less)
  with Cons.IH [OF t(2)] assms(2) [OF t(1)] show ?case
    by (simp add: took_request_def Un_assoc)
qed auto

lemma stat_exit_bufs: "stat_watchdog_exit Inr s = Inr t \<Longrightarrow> stat_bufs t = stat_bufs s"
  by (auto simp: stat_watchdog_exit_def Let_def printk_def split: if_splits)

lemma per_cpu_exit_bufs: "per_cpu_exit Inr s = Inr t \<Longrightarrow> pc_bufs t = pc_bufs s"
  by (auto simp: per_cpu_exit_defs split: if_splits)

section \<open>The watchdog contract\<close>

lemma stat_feed_effect:
  "wd_pending (stat_watchdog_feed_task m2j now s)
    \<and> wd_expires (stat_watchdog_feed_task m2j now s) = now + m2j 12000
    \<and> wd_work (stat_watchdog_feed_task m2j now s) =
        (case wd_work s of None \<Rightarrow> Some (now + m2j (unat (kick_time s))) | Some d \<Rightarrow> Some d)
    \<and> wd_count (stat_watchdog_feed_task m2j now s) = wd_count s
    \<and> kick_time (stat_watchdog_feed_task m2j now s) = kick_time s"
  by (auto simp: stat_watchdog_feed_task_def stat_watchdog_kick_def wd_simps Let_def split: option.split)

lemma stat_timeout_effect:
  "wd_count (stat_watchdog_timeout m2j now s) = wd_count s + 1
    \<and> wd_work (stat_watchdog_timeout m2j now s) = wd_work s
    \<and> kick_time (stat_watchdog_timeout m2j now s) = kick_time s
    \<and> (wd_pending (stat_watchdog_timeout m2j now s) \<longleftrightarrow>
         wd_pending s \<or> wd_count s + 1 < 10 \<or> (wd_count s + 1) mod 10 = 0)"
  by (auto simp: stat_watchdog_timeout_def stat_watchdog_kick_def wd_simps Let_def)

interpretation lwd1: giving_up_watchdog
  "\<lambda>now (_ :: unit) s. Inr (stat_watchdog_feed_task m2j now s)"
  "\<lambda>now (_ :: unit) s. Inr (stat_watchdog_timeout m2j now s)" m2j 12000
  by unfold_locales (auto simp: stat_feed_effect stat_timeout_effect)

text \<open>The first watchdog, served promptly, never counts a timeout either.\<close>

lemma stat_watchdog_fed:
  assumes "wd_reach (\<lambda>now (_ :: unit) s. Inr (stat_watchdog_feed_task m2j now s))
      (\<lambda>now (_ :: unit) s. Inr (stat_watchdog_timeout m2j now s)) lat (j, s0) (now, s)"
    and "stat_watchdog_init m2j j True (True, True, True) n = (0, s0)" "m2j 10000 + lat < m2j 12000"
  shows "wd_count s = 0"
proof -
  have "wd_ahead lat 10000 (0 :: u32) (j, s0)"
    using assms(2) by (auto simp: stat_watchdog_init_def wd_ahead_def wd_simps Let_def)
  moreover have "m2j (unat (10000 :: u32)) + lat < m2j 12000" using assms(3) by simp
  ultimately show ?thesis using lwd1.reach_never_expires [OF assms(1)] by blast
qed



section \<open>cpu_usage\<close>

text \<open>
  The module \<open>cpu_usage.c\<close> scans the first line of the file from a buffer of 256 characters and uses
  four counters. Counters that are not scanned keep what the stack held, \<open>junk4\<close>.
\<close>

definition cpu4_format :: "directive list" where
  "cpu4_format = map Lit ''cpu'' @ [Space] @ concat (replicate 4 [Space, Get_lu])"

definition cpu4_calculate :: "u64 list \<Rightarrow> string option \<Rightarrow> usage2_state \<Rightarrow> msg \<times> usage2_state" where
  "cpu4_calculate junk4 stat s =
     (case stat of
        None \<Rightarrow> (Failed_msg, s)
      | Some txt \<Rightarrow>
          if txt = [] then (Failed_msg, s)
          else let vs = map u64_of (sscanf cpu4_format (c_str (take 256 txt)));
                   v = (\<lambda>i. if i < length vs then vs ! i else junk4 ! i);
                   idle = v 3; tot = v 0 + v 1 + v 2 + v 3;
                   diff_idle = idle - u2_prev_idle s; diff_total = tot - u2_prev_total s
               in (per_cpu_line 0 diff_total diff_idle, \<lparr>u2_prev_idle = idle, u2_prev_total = tot\<rparr>))"

text \<open>The first four counters of the first line are the ones it uses.\<close>

lemma cpu4_scan:
  assumes "length xs = 4" "\<forall>x\<in>set xs. 0 \<le> x \<and> x < 2 ^ 64" "ends_number r"
  shows "sscanf cpu4_format (''cpu'' @ put_fields xs @ r) = map (\<lambda>x. U_val (of_int x)) xs"
proof -
  have f: "concat (replicate 4 [Space, Get_lu]) = Space # Get_lu # concat (replicate 3 [Space, Get_lu])"
    by (simp add: eval_nat_numeral)
  have "sscanf cpu4_format (''cpu'' @ put_fields xs @ r) =
      sscanf (concat (replicate 4 [Space, Get_lu])) (put_fields xs @ r)"
    by (simp add: cpu4_format_def f skip_ws_twice)
  with sscanf_lus [OF assms(3,2)] show ?thesis by (simp add: assms(1))
qed

end
