(* ===== verification/TimerMods.thy ===== *)
theory TimerMods
  imports StatWork
begin

text \<open>
  The modules that sample once per second from a timer: \<open>cpu_usage2.c\<close>, \<open>per_cpu_usage.c\<close> and
  \<open>cpu_usage.c\<close>, with their loads and unloads, and the kernel thread of \<open>cpu.c\<close>. Their common contract
  is a handler that always arms its timer again and an unload that only calls \<open>del_timer\<close>.
\<close>

section \<open>A timer that arms itself\<close>

text \<open>
  The timer fires each time it is due; each element of the list is what the handler finds.
\<close>

fun timer_run :: "('s \<Rightarrow> nat option) \<Rightarrow> (nat \<Rightarrow> 'e \<Rightarrow> 's \<Rightarrow> 's) \<Rightarrow> 'e list \<Rightarrow> 's \<Rightarrow> 's" where
  "timer_run armed handler [] s = s"
| "timer_run armed handler (e # es) s =
     (case armed s of None \<Rightarrow> s | Some t \<Rightarrow> timer_run armed handler es (handler t e s))"

locale self_timer =
  fixes handler :: "nat \<Rightarrow> 'e \<Rightarrow> 's \<Rightarrow> 's"
    and armed :: "'s \<Rightarrow> nat option"
    and stop :: "'s \<Rightarrow> 's"
    and rest :: "'s \<Rightarrow> 's outcome"
    and m2j :: "nat \<Rightarrow> nat"
  assumes handler_arms: "armed (handler now e s) = Some (now + m2j 1000)"
    and stop_disarms: "armed (stop s) = None"
    and rest_keeps: "rest s = Inr s' \<Longrightarrow> armed s' = armed s"
begin

text \<open>The sampling never stops and does not drift.\<close>

lemma run_armed:
  "armed s = Some t \<Longrightarrow> armed (timer_run armed handler es s) = Some (t + length es * m2j 1000)"
  by (induction es arbitrary: s t) (auto simp: handler_arms)

lemma unload_disarms: "rest (stop s) = Inr s' \<Longrightarrow> armed s' = None"
  by (simp add: rest_keeps stop_disarms)

text \<open>
  \<open>del_timer\<close> does not wait: a handler that was running meanwhile arms the timer again, and the rest
  of the unload leaves it armed.
\<close>

lemma unload_race: "rest (handler now e (stop s)) = Inr s' \<Longrightarrow> armed s' = Some (now + m2j 1000)"
  by (simp add: rest_keeps handler_arms)

end

section \<open>cpu_usage2\<close>

datatype usage2_msg = U2_init | U2_usage int | U2_exit

record usage2_mod =
  u2_state :: usage2_state
  u2_expires :: "nat option"
  u2_log :: "usage2_msg list"

definition usage2_line :: "int option \<Rightarrow> usage2_msg list" where
  "usage2_line u = (case u of None \<Rightarrow> [] | Some v \<Rightarrow> [U2_usage v])"

definition usage2_timer :: "(nat \<Rightarrow> nat) \<Rightarrow> nat \<Rightarrow> kcpustat list \<Rightarrow> usage2_mod \<Rightarrow> usage2_mod" where
  "usage2_timer m2j now possible s =
     (let (usage, st, expires) = timer_callback m2j now possible (u2_state s)
      in \<lparr>u2_state = st, u2_expires = Some expires, u2_log = u2_log s @ usage2_line usage\<rparr>)"

definition usage2_init :: "(nat \<Rightarrow> nat) \<Rightarrow> nat \<Rightarrow> int \<times> usage2_mod" where
  "usage2_init m2j jiffies =
     (0, \<lparr>u2_state = \<lparr>u2_prev_idle = 0, u2_prev_total = 0\<rparr>,
          u2_expires = Some (jiffies + m2j 1000), u2_log = [U2_init]\<rparr>)"

definition usage2_del_timer :: "usage2_mod \<Rightarrow> usage2_mod" where
  "usage2_del_timer s = s\<lparr>u2_expires := None\<rparr>"

definition usage2_exit_rest :: "usage2_mod \<Rightarrow> usage2_mod outcome" where
  "usage2_exit_rest s = Inr (s\<lparr>u2_log := u2_log s @ [U2_exit]\<rparr>)"

definition usage2_exit :: "usage2_mod \<Rightarrow> usage2_mod outcome" where
  "usage2_exit s = usage2_exit_rest (usage2_del_timer s)"

interpretation u2t: self_timer "usage2_timer m2j" u2_expires usage2_del_timer usage2_exit_rest m2j
  by unfold_locales
     (auto simp: usage2_timer_def timer_callback_def usage2_del_timer_def usage2_exit_rest_def split: prod.split)

text \<open>Successive counters, from the first ones and the increments of each CPU in each second.\<close>

fun samples :: "kcpustat list \<Rightarrow> kcpustat list list \<Rightarrow> kcpustat list list" where
  "samples ks [] = [ks]"
| "samples ks (ds # dss) = ks # samples (map2 advance ks ds) dss"

text \<open>The exact busy share of the increments, in percent rounded down.\<close>

definition busy_share :: "kcpustat list \<Rightarrow> nat" where
  "busy_share ds =
     (let t = fold add_cpu ds zero_cpu_time
      in 100 * (exact_total t - unat (a_idle t)) div exact_total t)"

lemma usage2_timer_effect:
  "u2_state (usage2_timer m2j now ks s) = snd (get_cpu_usage ks (u2_state s))"
  "u2_log (usage2_timer m2j now ks s) = u2_log s @ usage2_line (fst (get_cpu_usage ks (u2_state s)))"
  by (simp_all add: usage2_timer_def timer_callback_def split: prod.split)

lemma get_cpu_usage_share:
  assumes "length ks = length ds" "fits (fold add_cpu ds zero_cpu_time)"
  shows "fst (get_cpu_usage (map2 advance ks ds) (snd (get_cpu_usage ks s))) = Some (int (busy_share ds))"
    and "busy_share ds \<le> 100"
  using get_cpu_usage_percent [OF assms, of s] by (auto simp: busy_share_def Let_def)

lemma usage2_samples:
  assumes "\<forall>ds\<in>set dss. length ds = length ks \<and> fits (fold add_cpu ds zero_cpu_time)"
    and "u2_expires s = Some t" "u2_state s = snd (get_cpu_usage ks st)"
  shows "u2_log (timer_run u2_expires (usage2_timer m2j) (tl (samples ks dss)) s) =
      u2_log s @ map (\<lambda>ds. U2_usage (int (busy_share ds))) dss"
  using assms
proof (induction dss arbitrary: ks s t st)
  case (Cons ds dss)
  let ?ks = "map2 advance ks ds" and ?s = "usage2_timer m2j t (map2 advance ks ds) s"
  have ds: "length ks = length ds" "fits (fold add_cpu ds zero_cpu_time)" using Cons.prems(1) by auto
  have l: "u2_log ?s = u2_log s @ [U2_usage (int (busy_share ds))]"
    by (simp add: usage2_timer_effect Cons.prems(3) get_cpu_usage_share [OF ds] usage2_line_def)
  have fit: "\<forall>es\<in>set dss. length es = length ?ks \<and> fits (fold add_cpu es zero_cpu_time)"
    using Cons.prems(1) by auto
  have ex: "u2_expires ?s = Some (t + m2j 1000)" by (rule u2t.handler_arms)
  have st: "u2_state ?s = snd (get_cpu_usage ?ks (u2_state s))" by (rule usage2_timer_effect)
  from Cons.IH [OF fit ex st] have "u2_log (timer_run u2_expires (usage2_timer m2j) (tl (samples ?ks dss)) ?s) =
      u2_log ?s @ map (\<lambda>ds. U2_usage (int (busy_share ds))) dss"
    .
  moreover have "tl (samples ks (ds # dss)) = ?ks # tl (samples ?ks dss)" by (cases dss) auto
  ultimately show ?case
    by (simp only: timer_run.simps Cons.prems(2) option.case l append_assoc append_Cons append_Nil list.map)
qed simp


definition busy_d :: kcpustat where
  "busy_d = \<lparr>k_user = 1, k_nice = 0, k_system = 0, k_idle = 3, k_iowait = 0, k_irq = 0, k_softirq = 0,
     k_steal = 0, k_guest = 0, k_guest_nice = 0\<rparr>"


section \<open>per_cpu_usage\<close>

definition pc_arrays :: "u64 list \<Rightarrow> u64 list \<Rightarrow> per_cpu \<Rightarrow> bool" where
  "pc_arrays pi pt s \<longleftrightarrow> pc_prev_idle s = Arr pi \<and> pc_prev_total s = Arr pt"

text \<open>The lines for the counters of the CPUs from number \<open>j\<close> on.\<close>

fun pc_lines :: "nat \<Rightarrow> u64 list \<Rightarrow> u64 list \<Rightarrow> kcpustat list \<Rightarrow> msg list" where
  "pc_lines j pi pt [] = []"
| "pc_lines j pi pt (k # ks) =
     per_cpu_line j (per_cpu_total k - pt ! j) (k_idle k - pi ! j) # pc_lines (Suc j) pi pt ks"

lemma pc_lines_update: "i < j \<Longrightarrow> pc_lines j (pi[i := a]) (pt[i := b]) ks = pc_lines j pi pt ks"
  by (induction ks arbitrary: j) auto

lemma per_cpu_usage_loop:
  assumes "pc_arrays pi pt s" "j + length ks \<le> length pi" "length pt = length pi"
  shows "\<exists>t. foldM (\<lambda>(cpu, k). per_cpu_usage cpu k) (enumerate j ks) s = Inr t \<and>
     pc_arrays (overwrite j (map k_idle ks) pi) (overwrite j (map per_cpu_total ks) pt) t \<and>
     pc_log t = pc_log s @ pc_lines j pi pt ks"
  using assms
proof (induction ks arbitrary: j s pi pt)
  case (Cons k ks)
  let ?pi = "pi[j := k_idle k]" and ?pt = "pt[j := per_cpu_total k]"
  from Cons.prems have j: "j < length pi" by simp
  obtain t where t: "per_cpu_usage j k s = Inr t" "pc_arrays ?pi ?pt t"
    "pc_log t = pc_log s @ pc_lines j pi pt [k]"
    using Cons.prems j by (auto simp: per_cpu_usage_def pc_arrays_def)
  from Cons.IH [OF t(2), of "Suc j"] Cons.prems(2,3) obtain u where
    "foldM (\<lambda>(cpu, k). per_cpu_usage cpu k) (enumerate (Suc j) ks) t = Inr u"
    "pc_arrays (overwrite (Suc j) (map k_idle ks) ?pi) (overwrite (Suc j) (map per_cpu_total ks) ?pt) u"
    "pc_log u = pc_log t @ pc_lines (Suc j) ?pi ?pt ks" by auto
  with t j Cons.prems(3) show ?case by (simp add: overwrite_Cons pc_lines_update)
qed simp

lemma per_cpu_run:
  assumes "ok (brk (pc_bufs s))" "pc_arrays pi pt s" "length pi = n" "length pt = n"
    and "stat_file_ok n header cs tail"
  shows "\<exists>t. per_cpu_calculate ok n junk (Some (stat_file header cs tail)) s = Inr t \<and>
     pc_arrays (overwrite 0 (map k_idle (map snd cs)) pi) (overwrite 0 (map per_cpu_total (map snd cs)) pt) t \<and>
     pc_log t = pc_log s @ pc_lines 0 pi pt (map snd cs)"
proof -
  let ?m = "snd (kmalloc ok () (pc_bufs s))"
  from assms(5) have f: "NL \<notin> set header" "NUL \<notin> set header" "length cs \<le> n"
    "length (header @ NL # stat_lines cs) < CPU_INFO_BUFSIZE" "tail \<noteq> []" "hd tail \<noteq> CHR ''c''"
    by (auto simp: stat_file_ok_def)
  from read_buf_split [OF f(4,5), of junk] f(6) obtain r' where
    r': "read_buf junk (stat_file header cs tail) = header @ NL # stat_lines cs @ r'"
      "r' \<noteq> []" "hd r' \<noteq> CHR ''c''" by (auto simp: stat_file_def)
  have "pc_arrays pi pt (s\<lparr>pc_bufs := ?m\<rparr>)" using assms(2) by (simp add: pc_arrays_def)
  from per_cpu_usage_loop [OF this, of 0 "map snd cs"] assms(3,4) f(3) obtain t where
    t: "foldM (\<lambda>(cpu, k). per_cpu_usage cpu k) (enumerate 0 (map snd cs)) (s\<lparr>pc_bufs := ?m\<rparr>) = Inr t"
      "pc_arrays (overwrite 0 (map k_idle (map snd cs)) pi) (overwrite 0 (map per_cpu_total (map snd cs)) pt) t"
      "pc_log t = pc_log s @ pc_lines 0 pi pt (map snd cs)" by auto
  have "stat_file header cs tail \<noteq> []" by (simp add: stat_file_def)
  then have "per_cpu_calculate ok n junk (Some (stat_file header cs tail)) s = Inr t"
    using assms(1) t(1) scan_stat_text [OF f(1,2,3) r'(2,3), of per_cpu_usage]
    by (simp add: per_cpu_calculate_def kmalloc_def Let_def r'(1))
  with t(2,3) show ?thesis by blast
qed

text \<open>The line for the increments of one CPU: the time of four counters, exactly.\<close>

definition four_time :: "kcpustat \<Rightarrow> nat" where
  "four_time d = unat (k_user d) + unat (k_nice d) + unat (k_system d) + unat (k_idle d)"

definition four_line :: "nat \<Rightarrow> kcpustat \<Rightarrow> msg" where
  "four_line cpu d =
     (if four_time d = 0 then No_update_msg cpu
      else Usage_msg cpu (int (100 * (four_time d - unat (k_idle d)) div four_time d)) 0)"

lemma per_cpu_total_advance: "per_cpu_total (advance k d) - per_cpu_total k = per_cpu_total d"
  by (simp add: per_cpu_total_def advance_def)

lemma unat_four:
  assumes "100 * four_time d < 2 ^ 64"
  shows "unat (per_cpu_total d) = four_time d"
proof -
  have "unat (k_user d + k_nice d) = unat (k_user d) + unat (k_nice d)"
    using assms by (intro unat_add_small) (simp add: four_time_def)
  moreover from this have "unat (k_user d + k_nice d + k_system d) = unat (k_user d) + unat (k_nice d) + unat (k_system d)"
    using assms by (subst unat_add_small) (simp_all add: four_time_def)
  ultimately show ?thesis using assms
    unfolding per_cpu_total_def by (subst unat_add_small) (simp_all add: four_time_def)
qed

lemma per_cpu_line_exact:
  assumes "100 * four_time d < 2 ^ 64"
  shows "per_cpu_line cpu (per_cpu_total d) (k_idle d) = four_line cpu d"
proof -
  have "unat (k_idle d) \<le> unat (per_cpu_total d)" by (simp add: unat_four [OF assms] four_time_def)
  with assms have "sint (busy_pct (per_cpu_total d) (k_idle d)) =
      int (100 * (four_time d - unat (k_idle d)) div four_time d)"
    using sint_busy_pct [of "k_idle d" "per_cpu_total d"] by (simp add: unat_four)
  moreover have "per_cpu_total d \<noteq> 0 \<longleftrightarrow> four_time d \<noteq> 0"
    using unat_four [OF assms] by (metis unat_eq_0)
  ultimately show ?thesis by (simp add: per_cpu_line_def four_line_def)
qed

lemma pc_lines_nth:
  "length (pc_lines j pi pt ks) = length ks \<and>
   (\<forall>i<length ks. pc_lines j pi pt ks ! i =
      per_cpu_line (j + i) (per_cpu_total (ks ! i) - pt ! (j + i)) (k_idle (ks ! i) - pi ! (j + i)))"
  by (induction ks arbitrary: j) (auto simp: nth_Cons split: nat.split)

lemma pc_lines_advance:
  assumes "length ds = length ks" "length ks \<le> length pi" "length pt = length pi"
    and "\<forall>d\<in>set ds. 100 * four_time d < 2 ^ 64"
  shows "pc_lines 0 (overwrite 0 (map k_idle ks) pi) (overwrite 0 (map per_cpu_total ks) pt) (map2 advance ks ds) =
     map2 four_line [0..<length ds] ds"
proof (rule nth_equalityI)
  fix i
  assume "i < length (pc_lines 0 (overwrite 0 (map k_idle ks) pi) (overwrite 0 (map per_cpu_total ks) pt) (map2 advance ks ds))"
  then have i: "i < length ds" using assms(1) pc_lines_nth by simp
  with assms(4) have "100 * four_time (ds ! i) < 2 ^ 64" by auto
  from per_cpu_line_exact [OF this, of i] i assms(1)
  show "pc_lines 0 (overwrite 0 (map k_idle ks) pi) (overwrite 0 (map per_cpu_total ks) pt) (map2 advance ks ds) ! i =
      map2 four_line [0..<length ds] ds ! i"
    by (simp add: pc_lines_nth overwrite_def nth_append per_cpu_total_advance) (simp add: advance_def)
qed (simp add: pc_lines_nth assms(1))

text \<open>
  C30. Between two runs of the work of \<open>per_cpu_usage.c\<close> over \<open>/proc/stat\<close>, whatever it recorded before
  and whatever numbers the lines carry, the second run prints for the \<open>j\<close>-th listed CPU the exact
  busy share of the increments of its four counters, in percent rounded down, or that there was
  none when they are zero. Counters that wrap in between do not matter.
\<close>

theorem per_cpu_reports:
  assumes "pc_arrays pi pt s" "length pi = n" "length pt = n" "ok (brk (pc_bufs s))" "ok (Suc (brk (pc_bufs s)))"
    and "stat_file_ok n header cs tail" "stat_file_ok n header' cs' tail'"
    and "length ds = length cs" "map snd cs' = map2 advance (map snd cs) ds"
    and "\<forall>d\<in>set ds. 100 * four_time d < 2 ^ 64"
  shows "\<exists>t u. per_cpu_calculate ok n junk (Some (stat_file header cs tail)) s = Inr t \<and>
    per_cpu_calculate ok n junk' (Some (stat_file header' cs' tail')) t = Inr u \<and>
    pc_log u = pc_log t @ map2 four_line [0..<length ds] ds"
proof -
  have cs: "length cs \<le> n" using assms(6) by (simp add: stat_file_ok_def)
  from per_cpu_run [where ok = ok, OF assms(4,1,2,3,6)] obtain t where
    t: "per_cpu_calculate ok n junk (Some (stat_file header cs tail)) s = Inr t"
      "pc_arrays (overwrite 0 (map k_idle (map snd cs)) pi) (overwrite 0 (map per_cpu_total (map snd cs)) pt) t" by blast
  from per_cpu_calculate_bufs [OF t(1)] assms(5) have "ok (brk (pc_bufs t))" by (simp add: took_request_def)
  moreover have "length (overwrite 0 (map k_idle (map snd cs)) pi) = n"
    "length (overwrite 0 (map per_cpu_total (map snd cs)) pt) = n"
    using cs assms(2,3) by (simp_all add: overwrite_def)
  ultimately obtain u where "per_cpu_calculate ok n junk' (Some (stat_file header' cs' tail')) t = Inr u"
      "pc_log u = pc_log t @ pc_lines 0 (overwrite 0 (map k_idle (map snd cs)) pi)
         (overwrite 0 (map per_cpu_total (map snd cs)) pt) (map snd cs')"
    using per_cpu_run [where ok = ok, OF _ t(2) _ _ assms(7)] by blast
  with t(1) pc_lines_advance [of ds "map snd cs" pi pt] assms(2,3,8,9,10) cs show ?thesis by auto
qed

lemma busy_d_lines: "stat_line_of (3, busy_d) = ''cpu3 1 0 0 3 0 0 0 0 0 0''"
  "stat_line_of (9, advance busy_d busy_d) = ''cpu9 2 0 0 6 0 0 0 0 0 0''"
proof -
  have "show_int 0 = ''0''" "show_int 1 = ''1''" "show_int 2 = ''2''" "show_int 3 = ''3''" "show_int 6 = ''6''"
    "show_int 9 = ''9''" by code_simp+
  then show "stat_line_of (3, busy_d) = ''cpu3 1 0 0 3 0 0 0 0 0 0''"
    "stat_line_of (9, advance busy_d busy_d) = ''cpu9 2 0 0 6 0 0 0 0 0 0''"
    by (simp_all add: stat_line_of_def busy_d_def counters_def put_fields_def advance_def)
qed

lemma per_cpu_reports_witness:
  "\<exists>s t u. per_cpu_calculate (\<lambda>_. True) 1 [] (Some (stat_file ''cpu 1'' [(3, busy_d)] ''intr'')) s = Inr t \<and>
     per_cpu_calculate (\<lambda>_. True) 1 [] (Some (stat_file ''cpu 2'' [(9, advance busy_d busy_d)] ''intr'')) t = Inr u \<and>
     pc_log u = pc_log t @ [Usage_msg 0 25 0]"
proof -
  obtain s where s: "pc_arrays [0] [0] s" "s = snd (per_cpu_init id 7 True True 1)"
    by (simp add: pc_arrays_def per_cpu_init_def alloc_arr_def)
  have f: "stat_file_ok 1 ''cpu 1'' [(3, busy_d)] ''intr''"
    "stat_file_ok 1 ''cpu 2'' [(9, advance busy_d busy_d)] ''intr''"
    by (simp_all add: stat_file_ok_def stat_lines_def busy_d_lines CPU_INFO_BUFSIZE_def NL_def NUL_def)
  have d: "four_time busy_d = 4" by (simp add: four_time_def busy_d_def)
  have "four_line 0 busy_d = Usage_msg 0 25 0" by (simp add: four_line_def d) (simp add: busy_d_def)
  with per_cpu_reports [where ok = "\<lambda>_. True" and n = 1 and ds = "[busy_d]" and junk = "[]" and junk' = "[]",
      OF s(1) _ _ _ _ f] d show ?thesis by auto
qed

section \<open>The module cpu_usage\<close>

record cpu4_mod =
  c4_state :: usage2_state
  c4_expires :: "nat option"
  c4_work :: bool
  c4_log :: "msg list"

definition cpu4_timer_callback :: "(nat \<Rightarrow> nat) \<Rightarrow> nat \<Rightarrow> cpu4_mod \<Rightarrow> cpu4_mod" where
  "cpu4_timer_callback m2j jiffies s =
     (let s = s\<lparr>c4_work := True\<rparr> in s\<lparr>c4_expires := Some (jiffies + m2j 1000)\<rparr>)"

text \<open>The work runs when it was queued.\<close>

definition cpu4_work :: "u64 list \<Rightarrow> string option \<Rightarrow> cpu4_mod \<Rightarrow> cpu4_mod" where
  "cpu4_work junk4 stat s =
     (if c4_work s
      then let (m, st) = cpu4_calculate junk4 stat (c4_state s)
           in s\<lparr>c4_work := False, c4_state := st, c4_log := c4_log s @ [m]\<rparr>
      else s)"

definition cpu4_init :: "(nat \<Rightarrow> nat) \<Rightarrow> nat \<Rightarrow> int \<times> cpu4_mod" where
  "cpu4_init m2j jiffies =
     (0, \<lparr>c4_state = \<lparr>u2_prev_idle = 0, u2_prev_total = 0\<rparr>, c4_expires = Some (jiffies + m2j 1000),
          c4_work = False, c4_log = [Init_msg]\<rparr>)"

definition cpu4_del_timer :: "cpu4_mod \<Rightarrow> cpu4_mod" where
  "cpu4_del_timer s = s\<lparr>c4_expires := None\<rparr>"

definition cpu4_exit_rest :: "u64 list \<Rightarrow> string option \<Rightarrow> cpu4_mod \<Rightarrow> cpu4_mod outcome" where
  "cpu4_exit_rest junk4 stat s =
     (let s = cpu4_work junk4 stat s in Inr (s\<lparr>c4_log := c4_log s @ [Exit_msg]\<rparr>))"

definition cpu4_exit :: "u64 list \<Rightarrow> string option \<Rightarrow> cpu4_mod \<Rightarrow> cpu4_mod outcome" where
  "cpu4_exit junk4 stat s = cpu4_exit_rest junk4 stat (cpu4_del_timer s)"

interpretation c4t: self_timer "\<lambda>now (_ :: unit). cpu4_timer_callback m2j now" c4_expires cpu4_del_timer
  "cpu4_exit_rest junk4 stat" m2j
  by unfold_locales
     (auto simp: cpu4_timer_callback_def cpu4_del_timer_def cpu4_exit_rest_def cpu4_work_def Let_def split: prod.split)

text \<open>What the work prints for the first line of the file, against what it recorded.\<close>

lemma cpu4_calculate_line:
  assumes "length xs = 4" "\<forall>x\<in>set xs. 0 \<le> x \<and> x < 2 ^ 64" "ends_number r"
    and "NUL \<notin> set (''cpu'' @ put_fields xs @ r)" "length (''cpu'' @ put_fields xs @ r) \<le> 256"
  shows "cpu4_calculate junk4 (Some (''cpu'' @ put_fields xs @ r)) s =
    (per_cpu_line 0 (sum_list (map of_int xs) - u2_prev_total s) (of_int (xs ! 3) - u2_prev_idle s),
     \<lparr>u2_prev_idle = of_int (xs ! 3), u2_prev_total = sum_list (map of_int xs)\<rparr>)"
proof -
  obtain a b c d where xs: "xs = [a, b, c, d]"
    using assms(1) by (auto simp: numeral_eq_Suc length_Suc_conv)
  have "c_str (''cpu'' @ put_fields xs @ r) = ''cpu'' @ put_fields xs @ r"
    using c_str_append [OF assms(4), of "[]"] by (simp add: c_str_def)
  with assms(5) have "c_str (take 256 (''cpu'' @ put_fields xs @ r)) = ''cpu'' @ put_fields xs @ r" by simp
  with cpu4_scan [OF assms(1-3)] show ?thesis
    by (simp add: cpu4_calculate_def Let_def u64_of_def xs add.assoc)
qed

section \<open>The unload race\<close>

lemma per_cpu_calculate_expires:
  assumes "per_cpu_calculate ok n junk st s = Inr s'"
  shows "pc_expires s' = pc_expires s"
proof -
  obtain r m where k: "kmalloc ok () (pc_bufs s) = (r, m)" by fastforce
  have "pc_expires t' = pc_expires s" if "scan_stat per_cpu_usage n b (s\<lparr>pc_bufs := m\<rparr>) = Inr t'" for b t'
    using that by (rule scan_stat_inv) (auto simp: per_cpu_usage_def bnd_eq_Inr)
  with assms k show ?thesis
    by (auto simp: per_cpu_calculate_def Let_def split: option.splits if_splits)
qed

interpretation pct: self_timer "\<lambda>now (_ :: unit). cpu_timer_callback m2j now" pc_expires per_cpu_del_timer
  "per_cpu_exit_rest (per_cpu_calculate ok n junk st)" m2j
  by unfold_locales
     (auto simp: cpu_timer_callback_def per_cpu_del_timer_def per_cpu_exit_rest_def bnd_eq_Inr
         dest!: per_cpu_calculate_expires split: if_splits)

text \<open>The work of \<open>per_cpu_usage.c\<close> does not fault on a file the kernel printed.\<close>

definition pc_sized :: "nat \<Rightarrow> per_cpu \<Rightarrow> bool" where
  "pc_sized n s \<longleftrightarrow> (\<exists>pi pt. pc_arrays pi pt s \<and> length pi = n \<and> length pt = n)"

lemma pc_work_total:
  assumes "stat_readable n st" "pc_sized n s"
  shows "\<exists>s'. per_cpu_calculate ok n junk st s = Inr s' \<and> pc_sized n s'"
proof (cases "ok (brk (pc_bufs s)) \<and> (\<exists>header cs tail. stat_file_ok n header cs tail \<and> st = Some (stat_file header cs tail))")
  case True
  then obtain header cs tail where f: "ok (brk (pc_bufs s))" "stat_file_ok n header cs tail"
    "st = Some (stat_file header cs tail)" by blast
  from assms(2) obtain pi pt where a: "pc_arrays pi pt s" "length pi = n" "length pt = n"
    by (auto simp: pc_sized_def)
  from per_cpu_run [where ok = ok, OF f(1) a f(2), of junk] a(2,3) f(2,3) show ?thesis
    by (force simp: pc_sized_def stat_file_ok_def overwrite_def)
next
  case False
  with assms show ?thesis
    by (auto simp: per_cpu_calculate_def stat_readable_def pc_sized_def pc_arrays_def kmalloc_def Let_def)
qed

lemma pc_sized_flags [simp]:
  "pc_sized n (s\<lparr>pc_expires := e\<rparr>) = pc_sized n s" "pc_sized n (s\<lparr>pc_work := w\<rparr>) = pc_sized n s"
  by (simp_all add: pc_sized_def pc_arrays_def)

lemma per_cpu_exit_total:
  assumes "stat_readable n st" "pc_sized n s"
  shows "\<exists>s'. per_cpu_exit_rest (per_cpu_calculate ok n junk st) s = Inr s' \<and>
     pc_prev_idle s' = Freed \<and> pc_prev_total s' = Freed"
proof -
  obtain t where "per_cpu_calculate ok n junk st (s\<lparr>pc_work := False\<rparr>) = Inr t"
    using pc_work_total [OF assms(1), of "s\<lparr>pc_work := False\<rparr>" ok junk] assms(2) by auto
  then have "(if pc_work s then per_cpu_calculate ok n junk st (s\<lparr>pc_work := False\<rparr>) else Inr s) =
      Inr (if pc_work s then t else s)" by simp
  then show ?thesis by (simp add: per_cpu_exit_rest_def)
qed


definition pc_sample :: per_cpu where
  "pc_sample = \<lparr>pc_prev_idle = Arr [0], pc_prev_total = Arr [0], pc_expires = Some 7, pc_work = True,
     pc_bufs = kmem_empty, pc_log = []\<rparr>"

lemma pc_sample_sized: "pc_sized 1 pc_sample"
  by (simp add: pc_sized_def pc_arrays_def pc_sample_def)


section \<open>Read buffers\<close>

lemma stat_usage_rest:
  "stat_usage cpu k t = Inr t' \<Longrightarrow> (wd_aux t', stat_wq t') = (wd_aux t, stat_wq t)"
  by (auto simp: stat_usage_def bnd_eq_Inr printk_def Let_def split: if_splits)

lemma stat_calculate_rest:
  assumes "stat_calculate_cpu_usage ok n junk st s = Inr s'"
  shows "(wd_aux s', stat_wq s') = (wd_aux s, stat_wq s)"
proof -
  obtain r m where k: "kmalloc ok () (stat_bufs s) = (r, m)" by fastforce
  have "(wd_aux t', stat_wq t') = (wd_aux s, stat_wq s)"
    if "scan_stat stat_usage n b (s\<lparr>stat_bufs := m\<rparr>) = Inr t'" for b t'
    using that by (rule scan_stat_inv [where P = "\<lambda>t. (wd_aux t, stat_wq t) = (wd_aux s, stat_wq s)"])
      (simp, metis stat_usage_rest)
  with assms k show ?thesis
    by (auto simp: stat_calculate_cpu_usage_def printk_def Let_def split: option.splits if_splits)
qed

lemma per_cpu_calculate_work:
  assumes "per_cpu_calculate ok n junk st s = Inr s'"
  shows "pc_work s' = pc_work s"
proof -
  obtain r m where k: "kmalloc ok () (pc_bufs s) = (r, m)" by fastforce
  have "pc_work t' = pc_work s" if "scan_stat per_cpu_usage n b (s\<lparr>pc_bufs := m\<rparr>) = Inr t'" for b t'
    using that by (rule scan_stat_inv) (auto simp: per_cpu_usage_def bnd_eq_Inr)
  with assms k show ?thesis
    by (auto simp: per_cpu_calculate_def Let_def split: option.splits if_splits)
qed

text \<open>
  C31. Neither work ever gives its read buffer back: after any runs over whatever the file holds, and
  after the unload too, which does not fault and runs a queued work to its end, every buffer that was
  granted is still allocated. This holds for the load watchdog and for \<open>per_cpu_usage\<close>.
\<close>

theorem read_buffers_leak:
  assumes "stat_sized n s" "stat_bufs s = kmem_empty" "stat_wq s" "pc_sized n p" "pc_bufs p = kmem_empty"
    and "\<forall>st\<in>set (sts @ [st]). stat_readable n st"
  shows "(\<exists>s' s''. foldM (stat_calculate_cpu_usage ok n junk) sts s = Inr s' \<and>
      stat_watchdog_exit (stat_calculate_cpu_usage ok n junk st) s' = Inr s'' \<and>
      live (stat_bufs s'') = {a. a < length sts + of_bool (wd_aux s) \<and> ok a}) \<and>
   (\<exists>p' p''. foldM (per_cpu_calculate ok n junk) sts p = Inr p' \<and>
      per_cpu_exit (per_cpu_calculate ok n junk st) p' = Inr p'' \<and>
      live (pc_bufs p'') = {a. a < length sts + of_bool (pc_work p) \<and> ok a})"
proof
  have st: "stat_readable n st" using assms(6) by simp
  let ?I = "\<lambda>xs t. stat_sized n t \<and> stat_wq t \<and> wd_aux t = wd_aux s \<and> (\<forall>st\<in>set xs. stat_readable n st)"
  have "\<exists>s'. foldM (stat_calculate_cpu_usage ok n junk) sts s = Inr s' \<and> ?I [] s'"
  proof (rule foldM_total [where I = ?I])
    show "?I sts s" using assms by simp
    fix x xs t assume I: "?I (x # xs) t"
    then obtain t' where "stat_calculate_cpu_usage ok n junk x t = Inr t'" "stat_sized n t'"
      using stat_work_total [of n x t ok junk] by auto
    with I stat_calculate_rest [OF this(1)]
    show "\<exists>t'. stat_calculate_cpu_usage ok n junk x t = Inr t' \<and> ?I xs t'" by auto
  qed
  then obtain s' where s': "foldM (stat_calculate_cpu_usage ok n junk) sts s = Inr s'"
    "stat_sized n s'" "stat_wq s'" "wd_aux s' = wd_aux s" by blast
  let ?t = "(printk Exit_msg s')\<lparr>wd_pending := False, wd_work := None, stat_wq := False, wd_aux := False\<rparr>"
  have "stat_sized n ?t" using s'(2) by (simp add: stat_sized_def stat_arrays_def printk_def)
  from stat_work_total [OF st this, of ok junk] obtain u where
    u: "stat_calculate_cpu_usage ok n junk st ?t = Inr u" by blast
  note took = took_requests [where bufs = stat_bufs and ok = ok and work = "stat_calculate_cpu_usage ok n junk",
      OF _ stat_calculate_bufs]
  have l: "brk (stat_bufs s') = length sts" "live (stat_bufs s') = {a. a < length sts \<and> ok a}"
    using took [OF s'(1)] by (simp_all add: assms(2) kmem_empty_def live_def)
  from stat_calculate_bufs [OF u] l have lu: "live (stat_bufs u) = {a. a < Suc (length sts) \<and> ok a}"
    by (auto simp: took_request_def printk_def less_Suc_eq split: if_splits)
  show "\<exists>s' s''. foldM (stat_calculate_cpu_usage ok n junk) sts s = Inr s' \<and>
      stat_watchdog_exit (stat_calculate_cpu_usage ok n junk st) s' = Inr s'' \<and>
      live (stat_bufs s'') = {a. a < length sts + of_bool (wd_aux s) \<and> ok a}"
  proof (cases "wd_aux s")
    case True
    with s'(3,4) u have "stat_watchdog_exit (stat_calculate_cpu_usage ok n junk st) s' =
        Inr (u\<lparr>stat_prev_idle := Freed, stat_prev_total := Freed, stat_prev_interrupt := Freed\<rparr>)"
      by (simp add: stat_watchdog_exit_def Let_def printk_def)
    with s'(1) lu True show ?thesis by simp
  next
    case False
    with s'(3,4) l(2) show ?thesis
      using s'(1) by (simp add: stat_watchdog_exit_def Let_def printk_def)
  qed
next
  show "\<exists>p' p''. foldM (per_cpu_calculate ok n junk) sts p = Inr p' \<and>
      per_cpu_exit (per_cpu_calculate ok n junk st) p' = Inr p'' \<and>
      live (pc_bufs p'') = {a. a < length sts + of_bool (pc_work p) \<and> ok a}"
  proof -
    let ?I = "\<lambda>xs t. pc_sized n t \<and> pc_work t = pc_work p \<and> (\<forall>st\<in>set xs. stat_readable n st)"
    have "\<exists>p'. foldM (per_cpu_calculate ok n junk) sts p = Inr p' \<and> ?I [] p'"
    proof (rule foldM_total [where I = ?I])
      show "?I sts p" using assms by simp
      fix x xs t assume I: "?I (x # xs) t"
      then obtain t' where "per_cpu_calculate ok n junk x t = Inr t'" "pc_sized n t'"
        using pc_work_total [of n x t ok junk] by auto
      with I per_cpu_calculate_work [OF this(1)]
      show "\<exists>t'. per_cpu_calculate ok n junk x t = Inr t' \<and> ?I xs t'" by auto
    qed
    then obtain p' where p': "foldM (per_cpu_calculate ok n junk) sts p = Inr p'" "pc_sized n p'"
      "pc_work p' = pc_work p" by blast
    let ?t = "p'\<lparr>pc_expires := None, pc_work := False\<rparr>"
    have "pc_sized n ?t" using p'(2) by simp
    moreover have "stat_readable n st" using assms(6) by simp
    ultimately obtain u where
      u: "per_cpu_calculate ok n junk st ?t = Inr u" using pc_work_total [of n st ?t ok junk] by blast
    have l: "brk (pc_bufs p') = length sts" "live (pc_bufs p') = {a. a < length sts \<and> ok a}"
      using took_requests [where bufs = pc_bufs and ok = ok, OF p'(1) per_cpu_calculate_bufs]
      by (simp_all add: assms(5) kmem_empty_def live_def)
    from per_cpu_calculate_bufs [OF u] l have lu: "live (pc_bufs u) = {a. a < Suc (length sts) \<and> ok a}"
      by (auto simp: took_request_def less_Suc_eq split: if_splits)
    show ?thesis
      by (cases "pc_work p") (use p' u lu l(2) in \<open>simp_all add: per_cpu_exit_defs\<close>)
  qed
qed

lemma read_buffers_leak_witness:
  "\<exists>s' s''. foldM (stat_calculate_cpu_usage (\<lambda>n. n \<noteq> 1) 2 [])
        [Some (stat_file ''cpu 1 2'' [(7, sample_cpu)] ''intr 0''), None, Some []] sample_stat = Inr s' \<and>
     stat_watchdog_exit (stat_calculate_cpu_usage (\<lambda>n. n \<noteq> 1) 2 [] None) s' = Inr s'' \<and>
     live (stat_bufs s'') = {0, 2}"
proof -
  let ?sts = "[Some (stat_file ''cpu 1 2'' [(7, sample_cpu)] ''intr 0''), None, Some []]"
  have s: "stat_sized 2 sample_stat" "stat_bufs sample_stat = kmem_empty" "stat_wq sample_stat"
    "\<not> wd_aux sample_stat"
    by (simp_all add: stat_sized_def stat_arrays_def sample_stat_def)
  have p: "pc_sized 2 (pc_sample\<lparr>pc_prev_idle := Arr [0, 0], pc_prev_total := Arr [0, 0]\<rparr>)"
    "pc_bufs (pc_sample\<lparr>pc_prev_idle := Arr [0, 0], pc_prev_total := Arr [0, 0]\<rparr>) = kmem_empty"
    by (simp_all add: pc_sized_def pc_arrays_def pc_sample_def)
  have "stat_file_ok 2 ''cpu 1 2'' [(7, sample_cpu)] ''intr 0''"
    by (simp add: stat_file_ok_def stat_lines_def sample_cpu_line CPU_INFO_BUFSIZE_def NL_def NUL_def)
  then have "\<forall>st\<in>set (?sts @ [None]). stat_readable 2 st" by (auto simp: stat_readable_def)
  note leak = conjunct1 [OF read_buffers_leak [OF s(1,2,3) p this, of "\<lambda>n. n \<noteq> 1" "[]"]]
  from leak obtain s' s'' where
    "foldM (stat_calculate_cpu_usage (\<lambda>n. n \<noteq> 1) 2 []) ?sts sample_stat = Inr s'"
    "stat_watchdog_exit (stat_calculate_cpu_usage (\<lambda>n. n \<noteq> 1) 2 [] None) s' = Inr s''"
    "live (stat_bufs s'') = {a. a < length ?sts + of_bool (wd_aux sample_stat) \<and> a \<noteq> 1}" by blast
  moreover have "{a. a < length ?sts + of_bool (wd_aux sample_stat) \<and> a \<noteq> (1 :: nat)} = {0, 2}"
    using s(4) by auto
  ultimately show ?thesis by metis
qed

section \<open>The thread of cpu.c\<close>

text \<open>
  The load keeps what \<open>kthread_run\<close> returned, an error pointer too; the thread makes one reading per
  second until it is stopped; stopping an error pointer dereferences it.
\<close>

datatype thread = Running "u64 list" | Error_pointer

datatype cpu_load_msg = Load_start | Load_usage u64 | Load_stop

definition cpu_load_init :: "bool \<Rightarrow> u64 list \<Rightarrow> int \<times> thread \<times> cpu_load_msg list" where
  "cpu_load_init granted readings =
     (0, if granted then Running readings else Error_pointer, [Load_start])"

definition cpu_load_exit :: "thread \<times> cpu_load_msg list \<Rightarrow> cpu_load_msg list outcome" where
  "cpu_load_exit s =
     (case fst s of
        Running readings \<Rightarrow> Inr (snd s @ map Load_usage (cpu_usage_thread readings 0) @ [Load_stop])
      | Error_pointer \<Rightarrow> Inl Null_deref)"

lemma thread_readings:
  "prev \<noteq> 0 \<Longrightarrow> 0 \<notin> set rs \<Longrightarrow>
     cpu_usage_thread rs prev = map2 (\<lambda>p c. the (fst (cpu_usage_round c p))) (butlast (prev # rs)) rs"
proof (induction rs arbitrary: prev)
  case (Cons r rs)
  then show ?case by (cases rs) (auto simp: cpu_usage_round_def)
qed simp

text \<open>
  C22. A session of \<open>cpu.c\<close>: after the first reading every reading prints one value. The thread
  assumes that no more than one second of idle time passes between two readings, although it sleeps
  for at least one second: its value is a percentage exactly while the idle time grew by less than
  1010000 microseconds; beyond that the unsigned subtraction wraps and the printed number is above
  \<open>2 ^ 63\<close>. When the thread could not be created the load succeeds all the same, and the unload
  faults.
\<close>

theorem cpu_load_session:
  assumes "0 \<notin> set (r # rs)"
    and "\<forall>i<length rs. 100 * unat ((r # rs) ! Suc i - (r # rs) ! i) < 2 ^ 64"
  shows "fst (cpu_load_init granted (r # rs)) = 0 \<and>
    (if granted
     then \<exists>us. cpu_load_exit (snd (cpu_load_init granted (r # rs))) = Inr ([Load_start] @ map Load_usage us @ [Load_stop]) \<and>
       length us = length rs \<and>
       (\<forall>i<length rs. let d = unat ((r # rs) ! Suc i - (r # rs) ! i) in
          if d < 1010000 then unat (us ! i) = 100 - 100 * d div 1000000 \<and> unat (us ! i) \<le> 100
          else unat (us ! i) > 2 ^ 63)
     else cpu_load_exit (snd (cpu_load_init granted (r # rs))) = Inl Null_deref)"
proof -
  let ?us = "map2 (\<lambda>p c. the (fst (cpu_usage_round c p))) (butlast (r # rs)) rs"
  have us: "cpu_usage_thread (r # rs) 0 = ?us"
    using thread_readings [of r rs] assms(1) by (simp add: cpu_usage_round_def)
  have len: "length (butlast (r # rs)) = length rs" by simp
  have "let d = unat ((r # rs) ! Suc i - (r # rs) ! i) in
      if d < 1010000 then unat (?us ! i) = 100 - 100 * d div 1000000 \<and> unat (?us ! i) \<le> 100
      else unat (?us ! i) > 2 ^ 63" if i: "i < length rs" for i
  proof -
    let ?p = "(r # rs) ! i" and ?d = "(r # rs) ! Suc i - (r # rs) ! i"
    have b: "butlast (r # rs) ! i = ?p" using i by (intro nth_butlast) (auto simp: length_butlast)
    have p: "?p \<noteq> 0" using assms(1) i by (metis length_Cons less_SucI nth_mem)
    then have "fst (cpu_usage_round (?p + ?d) ?p) = Some (?us ! i)"
      using i b len by (simp add: cpu_usage_round_def)
    from cpu_usage_round_wraps [OF p _ this] assms(2) i show ?thesis unfolding Let_def by blast
  qed
  moreover have "length ?us = length rs" by (simp add: length_butlast)
  moreover have "cpu_load_exit (snd (cpu_load_init True (r # rs))) =
      Inr ([Load_start] @ map Load_usage ?us @ [Load_stop])"
    unfolding cpu_load_init_def cpu_load_exit_def by (simp add: us del: cpu_usage_thread.simps)
  ultimately have "\<exists>us. cpu_load_exit (snd (cpu_load_init True (r # rs))) = Inr ([Load_start] @ map Load_usage us @ [Load_stop]) \<and>
       length us = length rs \<and>
       (\<forall>i<length rs. let d = unat ((r # rs) ! Suc i - (r # rs) ! i) in
          if d < 1010000 then unat (us ! i) = 100 - 100 * d div 1000000 \<and> unat (us ! i) \<le> 100
          else unat (us ! i) > 2 ^ 63)" by blast
  moreover have "fst (cpu_load_init granted (r # rs)) = 0"
    "cpu_load_exit (snd (cpu_load_init False (r # rs))) = Inl Null_deref"
    by (simp_all add: cpu_load_init_def cpu_load_exit_def)
  ultimately show ?thesis by (cases granted) (simp_all only: if_True if_False simp_thms)
qed

lemma cpu_load_session_witness:
  "\<exists>us. cpu_load_exit (snd (cpu_load_init True [5, 250005, 1270005])) =
     Inr ([Load_start] @ map Load_usage us @ [Load_stop]) \<and> length us = 2 \<and> unat (us ! 0) = 75 \<and> 2 ^ 63 < unat (us ! 1)"
proof -
  have "\<forall>i<length [250005, 1270005 :: u64].
      100 * unat ([5, 250005, 1270005 :: u64] ! Suc i - [5, 250005, 1270005] ! i) < 2 ^ 64"
    by (simp add: less_Suc_eq all_conj_distrib)
  from cpu_load_session [OF _ this, of True] obtain us where
    e: "cpu_load_exit (snd (cpu_load_init True [5, 250005, 1270005])) =
      Inr ([Load_start] @ map Load_usage us @ [Load_stop])" "length us = 2" and
    u: "\<And>i. i < length [250005, 1270005 :: u64] \<Longrightarrow>
       let d = unat ([5, 250005, 1270005 :: u64] ! Suc i - [5, 250005, 1270005] ! i) in
          if d < 1010000 then unat (us ! i) = 100 - 100 * d div 1000000 \<and> unat (us ! i) \<le> 100
          else unat (us ! i) > 2 ^ 63" by auto
  from u [of 0] u [of 1] e show ?thesis by (auto simp: Let_def)
qed

end
