(* ===== verification/SeqTask.thy ===== *)
theory SeqTask
  imports Prelude
begin

text \<open>
  The task listing of \<open>seq-file-test.c\<close> (\<open>LinuxSeq\<close> adds what \<open>linux_seq.c\<close> does with it): a
  \<open>seq_file\<close> whose start, next and show functions walk the circular list of tasks. Tasks are
  numbered along the list; task 0 is \<open>init_task\<close>. A read of the file calls the iterator as the
  \<open>seq_file\<close> of the kernel does: it starts at the position reached so far, shows records until the
  buffer is full, and moves the position on by itself when \<open>next\<close> left it where it was.
\<close>

section \<open>The iterator\<close>

record task =
  comm :: string
  pid :: int

datatype seq_line = Seq_header | Seq_row string int nat

record seq_state =
  sq_pos :: nat                   \<comment> \<open>the position kept by the kernel\<close>
  sq_offset :: nat                \<comment> \<open>the static variable \<open>offset\<close>\<close>
  sq_out :: "seq_line list"

definition next_task :: "task list \<Rightarrow> nat \<Rightarrow> nat" where
  "next_task ts p = Suc p mod length ts"

definition l_start :: "task list \<Rightarrow> seq_state \<Rightarrow> nat option \<times> seq_state" where
  "l_start ts s =
     (let index = sq_pos s
      in if index = 0 then (Some 0, s\<lparr>sq_out := sq_out s @ [Seq_header]\<rparr>)
         else let p = (next_task ts ^^ index) 0 in if p = 0 then (None, s) else (Some p, s))"

definition l_next :: "task list \<Rightarrow> nat \<Rightarrow> seq_state \<Rightarrow> nat option \<times> seq_state" where
  "l_next ts p s =
     (let p = next_task ts p
      in if sq_pos s \<noteq> 0 \<and> p = 0 then (None, s)
         else (Some p, s\<lparr>sq_pos := Suc (sq_pos s), sq_offset := Suc (sq_pos s)\<rparr>))"

definition l_show :: "task list \<Rightarrow> nat \<Rightarrow> seq_state \<Rightarrow> seq_state" where
  "l_show ts p s = s\<lparr>sq_out := sq_out s @ [Seq_row (comm (ts ! p)) (pid (ts ! p)) (sq_offset s)]\<rparr>"

section \<open>A read of the file\<close>

definition seq_next :: "task list \<Rightarrow> nat \<Rightarrow> seq_state \<Rightarrow> nat option \<times> seq_state" where
  "seq_next ts p s =
     (let (q, t) = l_next ts p s in (q, if sq_pos t = sq_pos s then t\<lparr>sq_pos := Suc (sq_pos t)\<rparr> else t))"

text \<open>\<open>k\<close> is how many more records fit.\<close>

fun seq_fill :: "task list \<Rightarrow> nat \<Rightarrow> nat \<Rightarrow> seq_state \<Rightarrow> seq_state" where
  "seq_fill ts 0 p s = snd (seq_next ts p s)"
| "seq_fill ts (Suc k) p s =
     (case seq_next ts p s of (None, s) \<Rightarrow> s | (Some q, s) \<Rightarrow> seq_fill ts k q (l_show ts q s))"

definition seq_read :: "task list \<Rightarrow> seq_state \<Rightarrow> nat \<Rightarrow> seq_state" where
  "seq_read ts s k =
     (case l_start ts s of (None, s) \<Rightarrow> s | (Some p, s) \<Rightarrow> seq_fill ts k p (l_show ts p s))"

text \<open>The listing in one piece: the value left in \<open>offset\<close> stands in its first row.\<close>

fun seq_rows :: "nat \<Rightarrow> task list \<Rightarrow> seq_line list" where
  "seq_rows i [] = []"
| "seq_rows i (t # ts) = Seq_row (comm t) (pid t) i # seq_rows (Suc i) ts"

definition seq_listing :: "nat \<Rightarrow> task list \<Rightarrow> seq_line list" where
  "seq_listing off ts =
     (case ts of [] \<Rightarrow> [] | t # ts \<Rightarrow> Seq_row (comm t) (pid t) off # seq_rows 1 ts)"

section \<open>Lemmas\<close>

lemma seq_rows_nth: "j < length ts \<Longrightarrow> seq_rows i ts ! j = Seq_row (comm (ts ! j)) (pid (ts ! j)) (i + j)"
  by (induction ts arbitrary: i j) (auto simp: nth_Cons split: nat.split)

lemma length_seq_rows [simp]: "length (seq_rows i ts) = length ts"
  by (induction ts arbitrary: i) auto

lemma length_seq_listing [simp]: "length (seq_listing off ts) = length ts"
  by (cases ts) (auto simp: seq_listing_def)

lemma seq_listing_nth:
  "j < length ts \<Longrightarrow>
     seq_listing off ts ! j = Seq_row (comm (ts ! j)) (pid (ts ! j)) (if j = 0 then off else j)"
  by (cases ts) (auto simp: seq_listing_def nth_Cons seq_rows_nth split: nat.split)

lemma walk_tasks: "i \<le> length ts \<Longrightarrow> 0 < length ts \<Longrightarrow> (next_task ts ^^ i) 0 = i mod length ts"
proof (induction i)
  case (Suc i)
  then show ?case by (simp add: next_task_def mod_Suc_eq)
qed simp

text \<open>
  Halfway: the position is the number of rows shown, the rows are the first ones of the listing.
\<close>

definition seq_at :: "nat \<Rightarrow> task list \<Rightarrow> nat \<Rightarrow> seq_state \<Rightarrow> bool" where
  "seq_at off ts i s \<longleftrightarrow> sq_pos s = i \<and> sq_offset s = (if i = 0 then off else min (length ts - 1) i) \<and>
     sq_out s = (if i = 0 then [] else Seq_header # take i (seq_listing off ts))"

text \<open>Inside a read: row \<open>p\<close> was just shown.\<close>

definition seq_in :: "nat \<Rightarrow> task list \<Rightarrow> nat \<Rightarrow> seq_state \<Rightarrow> bool" where
  "seq_in off ts p s \<longleftrightarrow> p < length ts \<and> sq_pos s = p \<and> sq_offset s = (if p = 0 then off else p) \<and>
     sq_out s = Seq_header # take (Suc p) (seq_listing off ts)"

lemma seq_next_in:
  assumes "seq_in off ts p s" "2 \<le> length ts"
  shows "if Suc p < length ts
         then \<exists>t. seq_next ts p s = (Some (Suc p), t) \<and> seq_at off ts (Suc p) t \<and>
                seq_in off ts (Suc p) (l_show ts (Suc p) t)
         else \<exists>t. seq_next ts p s = (None, t) \<and> seq_at off ts (length ts) t"
proof (cases "Suc p < length ts")
  case True
  with assms(1) show ?thesis
    by (simp add: seq_next_def l_next_def next_task_def seq_in_def seq_at_def l_show_def
        take_Suc_conv_app_nth [of "Suc p"] seq_listing_nth)
next
  case False
  with assms have "Suc p = length ts" "0 < p" by (auto simp: seq_in_def)
  with assms(1) False show ?thesis
    by (auto simp: seq_next_def l_next_def next_task_def seq_in_def seq_at_def)
qed

lemma seq_fill_in:
  assumes "2 \<le> length ts"
  shows "seq_in off ts p s \<Longrightarrow> seq_at off ts (min (length ts) (Suc p + k)) (seq_fill ts k p s)"
proof (induction k arbitrary: p s)
  case 0
  with seq_next_in [OF this assms] show ?case
    by (cases "Suc p < length ts") (auto simp: seq_in_def min_def)
next
  case (Suc k)
  show ?case
  proof (cases "Suc p < length ts")
    case True
    with seq_next_in [OF Suc.prems assms] obtain t where
      "seq_next ts p s = (Some (Suc p), t)" "seq_in off ts (Suc p) (l_show ts (Suc p) t)" by auto
    with Suc.IH [of "Suc p"] show ?thesis by simp
  next
    case False
    with seq_next_in [OF Suc.prems assms] Suc.prems show ?thesis
      by (auto simp: seq_in_def min_def)
  qed
qed

lemma seq_read_at:
  assumes "seq_at off ts i s" "i \<le> length ts" "2 \<le> length ts"
  shows "seq_at off ts (min (length ts) (i + Suc k)) (seq_read ts s k)"
proof -
  consider "i = 0" | "0 < i" "i < length ts" | "i = length ts" using assms(2) by linarith
  then show ?thesis
  proof cases
    case 1
    let ?s = "l_show ts 0 (s\<lparr>sq_out := sq_out s @ [Seq_header]\<rparr>)"
    have l0: "seq_listing off ts ! 0 = Seq_row (comm (ts ! 0)) (pid (ts ! 0)) off"
      using assms(3) by (subst seq_listing_nth) auto
    have "seq_listing off ts \<noteq> []" using assms(3) length_seq_listing [of off ts] by fastforce
    then have "take (Suc 0) (seq_listing off ts) = [seq_listing off ts ! 0]"
      by (cases "seq_listing off ts") auto
    with 1 assms have "seq_in off ts 0 ?s"
      using l0 by (auto simp: seq_in_def seq_at_def l_show_def)
    from seq_fill_in [OF assms(3) this, of k] 1 assms(1) show ?thesis
      by (simp add: seq_read_def l_start_def seq_at_def)
  next
    case 2
    with assms(1) have "seq_in off ts i (l_show ts i s)"
      by (simp add: seq_in_def seq_at_def l_show_def take_Suc_conv_app_nth seq_listing_nth)
    from seq_fill_in [OF assms(3) this, of k] 2 assms show ?thesis
      by (auto simp: seq_read_def l_start_def seq_at_def walk_tasks)
  next
    case 3
    with assms show ?thesis by (auto simp: seq_read_def l_start_def seq_at_def walk_tasks)
  qed
qed

section \<open>Reading in pieces\<close>

definition seq_opened :: "nat \<Rightarrow> seq_state" where
  "seq_opened off = \<lparr>sq_pos = 0, sq_offset = off, sq_out = []\<rparr>"

text \<open>
  Reading the file in pieces of any sizes refines the listing in one piece: with at least
  two tasks, reads with room for \<open>k + 1\<close> rows each print the header once and then every task once,
  in order, as far as the reads reach, and nothing after the last one. Row \<open>i\<close> carries the number
  \<open>i\<close>, but the first carries what an earlier reader left.
\<close>

lemma seq_reads_list_tasks:
  assumes "2 \<le> length ts"
  shows "sq_out (foldl (seq_read ts) (seq_opened off) ks) =
    (if ks = [] then [] else Seq_header # take (sum_list (map Suc ks)) (seq_listing off ts))"
proof -
  have run: "seq_at off ts (min (length ts) (i + sum_list (map Suc ks))) (foldl (seq_read ts) s ks)"
    if "seq_at off ts i s" "i \<le> length ts" for i s
    using that
  proof (induction ks arbitrary: i s)
    case (Cons k ks)
    from seq_read_at [OF Cons.prems assms, of k]
    have "seq_at off ts (min (length ts) (i + Suc k)) (seq_read ts s k)" .
    from Cons.IH [OF this] have "seq_at off ts
        (min (length ts) (min (length ts) (i + Suc k) + sum_list (map Suc ks)))
        (foldl (seq_read ts) (seq_read ts s k) ks)" by simp
    moreover have "min (length ts) (min (length ts) (i + Suc k) + sum_list (map Suc ks)) =
        min (length ts) (i + sum_list (map Suc (k # ks)))" by simp
    ultimately show ?case by simp
  qed (simp add: min_def)
  have "seq_at off ts 0 (seq_opened off)" by (simp add: seq_at_def seq_opened_def)
  from run [OF this] have "seq_at off ts (min (length ts) (sum_list (map Suc ks)))
      (foldl (seq_read ts) (seq_opened off) ks)" by simp
  moreover have "take (min (length ts) m) (seq_listing off ts) = take m (seq_listing off ts)" for m
    using length_seq_listing [of off ts] by (simp add: min_def)
  ultimately show ?thesis using assms by (cases ks) (auto simp: seq_at_def)
qed

end
