(* ===== verification/LinuxSeq.thy ===== *)
theory LinuxSeq
  imports SeqTask
begin

text \<open>
  The task listing of \<open>linux_seq.c\<close>: the iterator of \<open>SeqTask\<close> with its messages to the kernel log,
  and what the two files differ in, the release of the open file. The kernel's \<open>seq_open\<close>, \<open>seq_release\<close>
  and \<open>single_release\<close> are modelled as their sources document them: an open allocates the record of
  the file, a release frees it, and \<open>single_release\<close> frees the table of operations too.
\<close>

section \<open>The iterator with its log\<close>

datatype seq_log = Start_log int | Next_log int | Stop_log | Create_failed | Init_log | Exit_log

record linux_seq = seq_state +
  ls_log :: "seq_log list"

definition ls_printk :: "seq_log \<Rightarrow> linux_seq \<Rightarrow> linux_seq" where
  "ls_printk m s = s\<lparr>ls_log := ls_log s @ [m]\<rparr>"

definition ls_start :: "task list \<Rightarrow> linux_seq \<Rightarrow> nat option \<times> linux_seq" where
  "ls_start ts s =
     (let index = sq_pos s
      in if index = 0
         then let s = s\<lparr>sq_out := sq_out s @ [Seq_header]\<rparr> in (Some 0, ls_printk (Start_log 0) s)
         else let p = (next_task ts ^^ index) 0
              in if p = 0 then (None, s) else (Some p, ls_printk (Start_log (pid (ts ! p))) s))"

definition ls_next :: "task list \<Rightarrow> nat \<Rightarrow> linux_seq \<Rightarrow> nat option \<times> linux_seq" where
  "ls_next ts p s =
     (let p = next_task ts p
      in if sq_pos s \<noteq> 0 \<and> p = 0 then (None, s)
         else let s = ls_printk (Next_log (pid (ts ! p))) s
              in (Some p, s\<lparr>sq_pos := Suc (sq_pos s), sq_offset := Suc (sq_pos s)\<rparr>))"

definition ls_stop :: "linux_seq \<Rightarrow> linux_seq" where
  "ls_stop s = ls_printk Stop_log s"

definition ls_show :: "task list \<Rightarrow> nat \<Rightarrow> linux_seq \<Rightarrow> linux_seq" where
  "ls_show ts p s = s\<lparr>sq_out := sq_out s @ [Seq_row (comm (ts ! p)) (pid (ts ! p)) (sq_offset s)]\<rparr>"

text \<open>A read, as in \<open>SeqTask\<close>; it always ends with a stop.\<close>

definition ls_advance :: "task list \<Rightarrow> nat \<Rightarrow> linux_seq \<Rightarrow> nat option \<times> linux_seq" where
  "ls_advance ts p s =
     (let (q, t) = ls_next ts p s
      in (q, if sq_pos t = sq_pos s then t\<lparr>sq_pos := Suc (sq_pos t)\<rparr> else t))"

fun ls_fill :: "task list \<Rightarrow> nat \<Rightarrow> nat \<Rightarrow> linux_seq \<Rightarrow> linux_seq" where
  "ls_fill ts 0 p s = snd (ls_advance ts p s)"
| "ls_fill ts (Suc k) p s =
     (case ls_advance ts p s of (None, s) \<Rightarrow> s | (Some q, s) \<Rightarrow> ls_fill ts k q (ls_show ts q s))"

definition ls_read :: "task list \<Rightarrow> linux_seq \<Rightarrow> nat \<Rightarrow> linux_seq" where
  "ls_read ts s k =
     ls_stop (case ls_start ts s of (None, s) \<Rightarrow> s | (Some p, s) \<Rightarrow> ls_fill ts k p (ls_show ts p s))"

section \<open>Open and release\<close>

text \<open>Where a table of operations lives: in the module's data, or on the heap.\<close>

datatype op_table = Static_table | Heap_table nat

definition exam_seq_open :: "(nat \<Rightarrow> bool) \<Rightarrow> op_table kmem \<Rightarrow> int \<times> nat option \<times> op_table kmem" where
  "exam_seq_open ok m =
     (case kmalloc ok Static_table m of (None, m) \<Rightarrow> (- 12, None, m) | (Some f, m) \<Rightarrow> (0, Some f, m))"

definition seq_release :: "nat \<Rightarrow> op_table kmem \<Rightarrow> op_table kmem outcome" where
  "seq_release f m = kfree f m"

definition single_release :: "nat \<Rightarrow> op_table kmem \<Rightarrow> op_table kmem outcome" where
  "single_release f m =
     bnd (kread f m) (\<lambda>op.
     bnd (seq_release f m) (\<lambda>m.
       case op of Static_table \<Rightarrow> Inl Double_free | Heap_table a \<Rightarrow> kfree a m))"

text \<open>The callbacks the two files register.\<close>

definition seq_test_proc_release :: "nat \<Rightarrow> op_table kmem \<Rightarrow> op_table kmem outcome" where
  "seq_test_proc_release = seq_release"

definition exam_proc_release :: "nat \<Rightarrow> op_table kmem \<Rightarrow> op_table kmem outcome" where
  "exam_proc_release = single_release"

text \<open>
  The load succeeds whether or not the file could be created; the unload removes it when it is
  there. The flag says whether the file exists.
\<close>

definition exam_seq_init :: "bool \<Rightarrow> int \<times> bool \<times> seq_log list" where
  "exam_seq_init created = (0, created, (if created then [] else [Create_failed]) @ [Init_log])"

definition exam_seq_exit :: "bool \<times> seq_log list \<Rightarrow> bool \<times> seq_log list" where
  "exam_seq_exit s = (False, snd s @ [Exit_log])"

section \<open>Lemmas\<close>

abbreviation seq_part :: "linux_seq \<Rightarrow> seq_state" where
  "seq_part \<equiv> seq_state.truncate"

lemmas seq_part_def = seq_state.truncate_def ls_printk_def

lemma seq_part_sel [simp]:
  "sq_pos (seq_part s) = sq_pos s" "sq_offset (seq_part s) = sq_offset s" "sq_out (seq_part s) = sq_out s"
  by (simp_all add: seq_part_def)

lemma ls_start_part: "map_prod id seq_part (ls_start ts s) = l_start ts (seq_part s)"
  by (simp add: ls_start_def l_start_def seq_part_def Let_def)

lemma ls_show_part: "seq_part (ls_show ts p s) = l_show ts p (seq_part s)"
  by (simp add: ls_show_def l_show_def seq_part_def)

lemma ls_advance_part: "map_prod id seq_part (ls_advance ts p s) = seq_next ts p (seq_part s)"
  by (simp add: ls_advance_def seq_next_def ls_next_def l_next_def seq_part_def Let_def)

lemma ls_fill_part: "seq_part (ls_fill ts k p s) = seq_fill ts k p (seq_part s)"
proof (induction k arbitrary: p s)
  case 0
  then show ?case by (simp add: ls_advance_part [symmetric])
next
  case (Suc k)
  then show ?case
    by (cases "ls_advance ts p s") (auto simp: ls_advance_part [symmetric] ls_show_part split: option.split)
qed

lemma ls_read_part: "seq_part (ls_read ts s k) = seq_read ts (seq_part s) k"
proof -
  have "seq_part (ls_stop t) = seq_part t" for t by (simp add: ls_stop_def seq_part_def)
  then show ?thesis
    by (cases "ls_start ts s")
       (auto simp: ls_read_def seq_read_def ls_start_part [symmetric] ls_show_part ls_fill_part split: option.split)
qed

lemma ls_reads_part: "seq_part (foldl (ls_read ts) s ks) = foldl (seq_read ts) (seq_part s) ks"
  by (induction ks arbitrary: s) (simp_all add: ls_read_part)

text \<open>Stops in the log.\<close>

definition stops :: "linux_seq \<Rightarrow> nat" where
  "stops s = length (filter ((=) Stop_log) (ls_log s))"

lemma ls_stops:
  "stops (snd (ls_start ts s)) = stops s" "stops (ls_show ts p s) = stops s"
  "stops (snd (ls_advance ts p s)) = stops s" "stops (ls_stop s) = Suc (stops s)"
  by (simp_all add: stops_def ls_start_def ls_show_def ls_advance_def ls_next_def ls_stop_def ls_printk_def Let_def)

lemma ls_fill_stops: "stops (ls_fill ts k p s) = stops s"
proof (induction k arbitrary: p s)
  case (Suc k)
  have "stops (snd (ls_advance ts p s)) = stops s" by (rule ls_stops)
  with Suc show ?case by (cases "ls_advance ts p s") (auto simp: ls_stops split: option.split)
qed (simp add: ls_stops)

lemma ls_read_stops: "stops (ls_read ts s k) = Suc (stops s)"
proof -
  have "stops (snd (ls_start ts s)) = stops s" by (rule ls_stops)
  then show ?thesis
    by (cases "ls_start ts s") (auto simp: ls_read_def ls_stops ls_fill_stops split: option.split)
qed

lemma ls_reads_stops: "stops (foldl (ls_read ts) s ks) = stops s + length ks"
  by (induction ks arbitrary: s) (simp_all add: ls_read_stops)

lemma opened_file:
  "exam_seq_open ok m = (r, Some f, m') \<Longrightarrow> f = brk m \<and> r = 0 \<and> m' = snd (kmalloc ok Static_table m) \<and> ok f \<and> cells m' f = Some Static_table"
  by (auto simp: exam_seq_open_def kmalloc_def split: if_splits)

section \<open>Property\<close>

definition ls_opened :: "nat \<Rightarrow> linux_seq" where
  "ls_opened off = \<lparr>sq_pos = 0, sq_offset = off, sq_out = [], ls_log = []\<rparr>"

text \<open>
  C33. Reading either file in pieces of any sizes refines the listing in one piece: with at least
  two tasks, reads with room for \<open>k + 1\<close> rows each print the header once and then every task once,
  in order, as far as the reads reach, and nothing after the last one. Row \<open>i\<close> carries the number
  \<open>i\<close>, but the first carries what an earlier reader left. Every read of \<open>linux_seq.c\<close> ends with one stop.
  Closing the file of \<open>seq-file-test.c\<close> gives back what its open took; closing the one of \<open>linux_seq.c\<close>
  frees a table that was never allocated.
\<close>

theorem seq_file_sessions:
  assumes "2 \<le> length ts" "exam_seq_open ok m = (r, Some f, m')" "kmem_ok m"
  shows "sq_out (foldl (seq_read ts) (seq_opened off) ks) =
      (if ks = [] then [] else Seq_header # take (sum_list (map Suc ks)) (seq_listing off ts)) \<and>
    sq_out (foldl (ls_read ts) (ls_opened off) ks) = sq_out (foldl (seq_read ts) (seq_opened off) ks) \<and>
    stops (foldl (ls_read ts) (ls_opened off) ks) = length ks \<and>
    (\<exists>m''. seq_test_proc_release f m' = Inr m'' \<and> cells m'' = cells m) \<and>
    exam_proc_release f m' = Inl Double_free"
proof -
  have "seq_part (ls_opened off) = seq_opened off" "stops (ls_opened off) = 0"
    by (simp_all add: ls_opened_def seq_opened_def seq_part_def stops_def)
  then have "sq_out (foldl (ls_read ts) (ls_opened off) ks) = sq_out (foldl (seq_read ts) (seq_opened off) ks)"
    "stops (foldl (ls_read ts) (ls_opened off) ks) = length ks"
    using ls_reads_part [of ts "ls_opened off" ks] ls_reads_stops [of ts "ls_opened off" ks]
      seq_part_sel(3) [of "foldl (ls_read ts) (ls_opened off) ks"] by auto
  moreover from opened_file [OF assms(2)] have f: "f = brk m" "ok f" "m' = snd (kmalloc ok Static_table m)" by auto
  have "cells m (brk m) = None" using assms(3) by (auto simp: kmem_ok_def live_def)
  with f have "\<exists>m''. seq_test_proc_release f m' = Inr m'' \<and> cells m'' = cells m"
    "exam_proc_release f m' = Inl Double_free"
    by (auto simp: seq_test_proc_release_def exam_proc_release_def single_release_def seq_release_def
        kmalloc_def kfree_def kread_def fun_upd_idem)
  ultimately show ?thesis using seq_reads_list_tasks [OF assms(1), of off ks] by blast
qed

lemma seq_file_sessions_witness:
  "sq_out (foldl (ls_read [\<lparr>comm = ''swapper'', pid = 0\<rparr>, \<lparr>comm = ''init'', pid = 1\<rparr>, \<lparr>comm = ''sh'', pid = 7\<rparr>])
       (ls_opened 1) [0, 4, 2]) =
     [Seq_header, Seq_row ''swapper'' 0 1, Seq_row ''init'' 1 1, Seq_row ''sh'' 7 2] \<and>
   (\<exists>r f m. exam_seq_open (\<lambda>_. True) kmem_empty = (r, Some f, m) \<and> exam_proc_release f m = Inl Double_free)"
proof -
  let ?ts = "[\<lparr>comm = ''swapper'', pid = 0\<rparr>, \<lparr>comm = ''init'', pid = 1\<rparr>, \<lparr>comm = ''sh'', pid = 7\<rparr>]"
  obtain r f m where o: "exam_seq_open (\<lambda>_. True) kmem_empty = (r, Some f, m)"
    by (simp add: exam_seq_open_def kmalloc_def)
  have "2 \<le> length ?ts" "kmem_ok (kmem_empty :: op_table kmem)" by (simp_all add: kmem_ok_def live_def kmem_empty_def)
  from seq_file_sessions [OF this(1) o this(2), of 1 "[0, 4, 2]"] o show ?thesis
    by (simp add: seq_listing_def)
qed

end
