(* ===== verification/CharDev.thy ===== *)
theory CharDev
  imports CText
begin

text \<open>
  The character devices: \<open>sema/sema_module.c\<close>, whose open and release take and give a semaphore,
  and \<open>cdev_driver.c\<close>, which reads a fixed text and prints what is written; and the debugfs file of
  \<open>debugfs_test1.c\<close>. What the kernel grants
  (device numbers, classes, devices, bytes copied from and to the user) is a parameter. A
  registration that is undone twice is a fault.
\<close>

section \<open>The semaphore device\<close>

definition ERESTARTSYS :: int where "ERESTARTSYS = 512"

text \<open>What a process is doing with the device.\<close>

datatype user = Closed | Waiting | Opened

text \<open>\<open>h_sem\<close> is the count of the semaphore once it is initialised.\<close>

record hello =
  h_chrdev :: bool
  h_class :: bool
  h_device :: bool
  h_sem :: "nat option"
  h_users :: "nat \<Rightarrow> user"

definition hello_down :: "hello \<Rightarrow> bool" where
  "hello_down s \<longleftrightarrow> (case h_sem s of None \<Rightarrow> False | Some n \<Rightarrow> 0 < n)"

text \<open>
  The open call of process \<open>i\<close>: it gets the semaphore, or waits for it; waiting on a semaphore that
  is not initialised follows a null list pointer. A waiting process goes on when the count is
  positive, and is sent back with an error when a signal interrupts it.
\<close>

definition hello_open :: "nat \<Rightarrow> hello \<Rightarrow> (int option \<times> hello) outcome" where
  "hello_open i s =
     (case h_sem s of
        None \<Rightarrow> Inl Null_deref
      | Some n \<Rightarrow>
          if 0 < n then Inr (Some 0, s\<lparr>h_sem := Some (n - 1), h_users := (h_users s)(i := Opened)\<rparr>)
          else Inr (None, s\<lparr>h_users := (h_users s)(i := Waiting)\<rparr>))"

definition hello_open_interrupted :: "nat \<Rightarrow> hello \<Rightarrow> int \<times> hello" where
  "hello_open_interrupted i s = (- ERESTARTSYS, s\<lparr>h_users := (h_users s)(i := Closed)\<rparr>)"

definition hello_release :: "nat \<Rightarrow> hello \<Rightarrow> (int \<times> hello) outcome" where
  "hello_release i s =
     (case h_sem s of
        None \<Rightarrow> Inl Null_deref
      | Some n \<Rightarrow> Inr (0, s\<lparr>h_sem := Some (Suc n), h_users := (h_users s)(i := Closed)\<rparr>))"

definition hello_zero :: hello where
  "hello_zero = \<lparr>h_chrdev = False, h_class = False, h_device = False, h_sem = None, h_users = (\<lambda>_. Closed)\<rparr>"

text \<open>
  The load, for the results of the three registrations (negative ones are errors), and the unload.
\<close>

definition hello_init :: "int \<Rightarrow> int \<Rightarrow> int \<Rightarrow> hello \<Rightarrow> int \<times> hello" where
  "hello_init result cls test_device s =
     (if result < 0 then (result, s)
      else let s = s\<lparr>h_chrdev := True\<rparr>
           in if cls < 0 then (cls, s\<lparr>h_chrdev := False\<rparr>)
              else let s = s\<lparr>h_class := True\<rparr>
                   in if test_device < 0
                      then (test_device, s\<lparr>h_class := False, h_chrdev := False\<rparr>)
                      else let s = s\<lparr>h_device := True\<rparr> in (0, s\<lparr>h_sem := Some 1\<rparr>))"

definition hello_exit :: "hello \<Rightarrow> hello outcome" where
  "hello_exit s =
     (if h_device s \<and> h_class s \<and> h_chrdev s
      then Inr (s\<lparr>h_device := False, h_class := False, h_chrdev := False\<rparr>) else Inl Double_free)"

text \<open>The processes call the device in any order.\<close>

inductive hello_step :: "hello \<Rightarrow> hello \<Rightarrow> bool" where
  open_call: "h_users s i = Closed \<Longrightarrow> hello_open i s = Inr (r, s') \<Longrightarrow> hello_step s s'"
| wake_up: "h_users s i = Waiting \<Longrightarrow> hello_down s \<Longrightarrow> hello_open i s = Inr (r, s') \<Longrightarrow> hello_step s s'"
| signal: "h_users s i = Waiting \<Longrightarrow> hello_open_interrupted i s = (r, s') \<Longrightarrow> hello_step s s'"
| release: "h_users s i = Opened \<Longrightarrow> hello_release i s = Inr (r, s') \<Longrightarrow> hello_step s s'"

inductive_cases hello_stepE: "hello_step s s'"

inductive hello_reach :: "hello \<Rightarrow> hello \<Rightarrow> bool" for s where
  start: "hello_reach s s"
| step: "hello_reach s t \<Longrightarrow> hello_step t u \<Longrightarrow> hello_reach s u"

lemmas hello_defs = hello_open_def hello_open_interrupted_def hello_release_def

text \<open>Either the semaphore is free and nobody has the device, or one process has it.\<close>

definition hello_inv :: "hello \<Rightarrow> bool" where
  "hello_inv s \<longleftrightarrow>
     (h_sem s = Some 1 \<and> (\<forall>i. h_users s i \<noteq> Opened)) \<or>
     (h_sem s = Some 0 \<and> (\<exists>i. h_users s i = Opened \<and> (\<forall>j. j \<noteq> i \<longrightarrow> h_users s j \<noteq> Opened)))"

lemma hello_inv_free: "h_sem s = Some 1 \<Longrightarrow> \<forall>i. h_users s i \<noteq> Opened \<Longrightarrow> hello_inv s"
  by (simp add: hello_inv_def)

lemma hello_inv_taken:
  "h_sem s = Some 0 \<Longrightarrow> h_users s i = Opened \<Longrightarrow> \<forall>j. j \<noteq> i \<longrightarrow> h_users s j \<noteq> Opened \<Longrightarrow> hello_inv s"
  by (auto simp: hello_inv_def)

lemma hello_inv_cases:
  assumes "hello_inv s"
  obtains (free) "h_sem s = Some 1" "\<forall>i. h_users s i \<noteq> Opened"
    | (taken) i where "h_sem s = Some 0" "h_users s i = Opened" "\<forall>j. j \<noteq> i \<longrightarrow> h_users s j \<noteq> Opened"
  using assms unfolding hello_inv_def by blast

lemma hello_open_inv:
  assumes "hello_inv s" "h_users s i \<noteq> Opened"
  shows "\<exists>r s'. hello_open i s = Inr (r, s') \<and> hello_inv s'"
  using assms(1)
proof (cases rule: hello_inv_cases)
  case free
  then have "hello_inv (s\<lparr>h_sem := Some 0, h_users := (h_users s)(i := Opened)\<rparr>)"
    by (intro hello_inv_taken [of _ i]) simp_all
  with free show ?thesis by (simp add: hello_open_def)
next
  case (taken j)
  with assms(2) have "hello_inv (s\<lparr>h_users := (h_users s)(i := Waiting)\<rparr>)"
    by (intro hello_inv_taken [of _ j]) auto
  with taken show ?thesis by (simp add: hello_open_def)
qed

lemma hello_interrupted_inv:
  assumes "hello_inv s" "h_users s i \<noteq> Opened"
  shows "hello_inv (snd (hello_open_interrupted i s))"
  using assms(1)
proof (cases rule: hello_inv_cases)
  case free
  then show ?thesis by (intro hello_inv_free) (simp_all add: hello_open_interrupted_def)
next
  case (taken j)
  with assms(2) show ?thesis
    by (intro hello_inv_taken [of _ j]) (auto simp: hello_open_interrupted_def)
qed

lemma hello_release_inv:
  assumes "hello_inv s" "h_users s i = Opened"
  shows "\<exists>s'. hello_release i s = Inr (0, s') \<and> hello_inv s' \<and> h_sem s' = Some 1"
  using assms(1)
proof (cases rule: hello_inv_cases)
  case free
  with assms(2) show ?thesis by simp
next
  case (taken j)
  with assms(2) have "j = i" by metis
  with taken have "hello_inv (s\<lparr>h_sem := Some 1, h_users := (h_users s)(i := Closed)\<rparr>)"
    by (intro hello_inv_free) auto
  with taken show ?thesis by (simp add: hello_release_def)
qed

lemma hello_step_inv: "hello_step s s' \<Longrightarrow> hello_inv s \<Longrightarrow> hello_inv s'"
proof (induction rule: hello_step.induct)
  case (open_call s i r s')
  then show ?case using hello_open_inv [of s i] by auto
next
  case (wake_up s i r s')
  then show ?case using hello_open_inv [of s i] by auto
next
  case (signal s i r s')
  then show ?case using hello_interrupted_inv [of s i] by auto
next
  case (release s i r s')
  then show ?case using hello_release_inv [of s i] by auto
qed

lemma hello_reach_inv: "hello_reach s t \<Longrightarrow> hello_inv s \<Longrightarrow> hello_inv t"
  by (induction rule: hello_reach.induct) (blast intro: hello_step_inv)+

text \<open>
  C34. After a load that succeeds, however the processes open, wait, are interrupted and release,
  no call faults and at most one process has the device open; while it is open the next open
  waits, and after its release the next open gets it.
\<close>

theorem sema_mutual_exclusion:
  assumes "hello_init result cls dev hello_zero = (0, s0)" "hello_reach s0 s"
  shows "(\<forall>i j. h_users s i = Opened \<and> h_users s j = Opened \<longrightarrow> i = j) \<and>
    (\<forall>k. \<exists>r s'. hello_open k s = Inr (r, s') \<and> (r = None \<longleftrightarrow> (\<exists>i. h_users s i = Opened))) \<and>
    (\<forall>i k. h_users s i = Opened \<longrightarrow>
       (\<exists>t u. hello_release i s = Inr (0, t) \<and> hello_open k t = Inr (Some 0, u)))"
proof -
  have "hello_inv s0"
    using assms(1) by (auto simp: hello_init_def hello_zero_def hello_inv_def Let_def split: if_splits)
  with assms(2) have inv: "hello_inv s" by (rule hello_reach_inv)
  have "\<exists>r s'. hello_open k s = Inr (r, s') \<and> (r = None \<longleftrightarrow> (\<exists>i. h_users s i = Opened))" for k
    using inv by (cases rule: hello_inv_cases) (auto simp: hello_open_def)
  moreover have "\<exists>t u. hello_release i s = Inr (0, t) \<and> hello_open k t = Inr (Some 0, u)"
    if "h_users s i = Opened" for i k
    using hello_release_inv [OF inv that] by (auto simp: hello_open_def)
  moreover have "i = j" if "h_users s i = Opened" "h_users s j = Opened" for i j
    using inv that by (cases rule: hello_inv_cases) (auto, metis)
  ultimately show ?thesis by blast
qed

lemma sema_mutual_exclusion_witness:
  "\<exists>s0 s. hello_init 0 0 0 hello_zero = (0, s0) \<and> hello_reach s0 s \<and> h_users s 4 = Opened \<and>
     h_users s 5 = Waiting \<and> (\<forall>j. h_users s j = Opened \<longrightarrow> j = 4)"
proof -
  obtain s0 where s0: "hello_init 0 0 0 hello_zero = (0, s0)" "h_sem s0 = Some 1" "h_users s0 = (\<lambda>_. Closed)"
    by (simp add: hello_init_def hello_zero_def)
  let ?s = "s0\<lparr>h_sem := Some 0, h_users := (\<lambda>_. Closed)(4 := Opened)\<rparr>"
  let ?t = "?s\<lparr>h_users := (\<lambda>_. Closed)(4 := Opened, 5 := Waiting)\<rparr>"
  have "hello_open 4 s0 = Inr (Some 0, ?s)" using s0 by (simp add: hello_open_def)
  moreover have "hello_open 5 ?s = Inr (None, ?t)" by (simp add: hello_open_def)
  moreover have "h_users s0 4 = Closed" "h_users ?s 5 = Closed" using s0 by simp_all
  ultimately have r: "hello_reach s0 ?t" by (meson hello_reach.intros hello_step.open_call)
  have "h_users ?t 4 = Opened" "h_users ?t 5 = Waiting" by simp_all
  with sema_mutual_exclusion [OF s0(1) r] s0(1) r show ?thesis by blast
qed

section \<open>The driver with a fixed text\<close>

definition KMAX_LEN :: nat where "KMAX_LEN = 32"

definition read_text :: string where
  "read_text = ''read test'' @ [NL] @ replicate (KMAX_LEN - 10) NUL"

text \<open>
  \<open>left\<close> is what \<open>copy_to_user\<close> or \<open>copy_from_user\<close> return: the number of bytes not copied, which
  is never negative; \<open>copy_from_user\<close> clears those bytes. A read returns its result and the bytes that reached the user.
\<close>

definition cdev_my_read :: "nat \<Rightarrow> nat \<Rightarrow> int \<times> string" where
  "cdev_my_read left sz =
     (let sz = (if KMAX_LEN < sz then KMAX_LEN else sz); rc = int left
      in if rc < 0 then (- 14, take (sz - left) read_text) else (int sz, take (sz - left) read_text))"

text \<open>
  A write prints its buffer as a string: the text up to the first null character. \<open>junk\<close> is what
  the buffer held before.
\<close>

definition cdev_my_write :: "string \<Rightarrow> nat \<Rightarrow> string \<Rightarrow> (int \<times> string) outcome" where
  "cdev_my_write junk left buf =
     (let sz = (if KMAX_LEN < length buf then KMAX_LEN else length buf); rc = int left;
          kbuf = take (sz - left) buf @ replicate (min left sz) NUL @ drop sz (take KMAX_LEN junk)
      in if rc < 0 then Inr (- 14, [])
         else if NUL \<in> set kbuf then Inr (int sz, c_str kbuf) else Inl Out_of_bounds)"

text \<open>The load and unload. \<open>class_destroy\<close> unregisters the class, which frees it.\<close>

record cdev_mod =
  cd_region :: bool
  cd_cdev :: bool
  cd_class :: bool
  cd_device :: bool

definition class_unregister :: "cdev_mod \<Rightarrow> cdev_mod outcome" where
  "class_unregister s = (if cd_class s then Inr (s\<lparr>cd_class := False\<rparr>) else Inl Use_after_free)"

definition class_destroy :: "cdev_mod \<Rightarrow> cdev_mod outcome" where
  "class_destroy s = class_unregister s"

definition cdev_del :: "cdev_mod \<Rightarrow> cdev_mod" where
  "cdev_del s = s\<lparr>cd_cdev := False\<rparr>"

definition unregister_chrdev_region :: "cdev_mod \<Rightarrow> cdev_mod" where
  "unregister_chrdev_region s = s\<lparr>cd_region := False\<rparr>"

definition cdev_zero :: cdev_mod where
  "cdev_zero = \<lparr>cd_region = False, cd_cdev = False, cd_class = False, cd_device = False\<rparr>"

definition cdev_my_init :: "int \<Rightarrow> int \<Rightarrow> int \<Rightarrow> int \<Rightarrow> cdev_mod \<Rightarrow> (int \<times> cdev_mod) outcome" where
  "cdev_my_init region add cls dev s =
     (if region < 0 then Inr (region, s)
      else let s = s\<lparr>cd_region := True\<rparr>
      in if add < 0 then Inr (add, unregister_chrdev_region s)
      else let s = s\<lparr>cd_cdev := True\<rparr>
      in if cls < 0 then Inr (cls, unregister_chrdev_region (cdev_del s))
      else let s = s\<lparr>cd_class := True\<rparr>
      in if dev < 0
         then bnd (class_destroy s) (\<lambda>s. Inr (dev, unregister_chrdev_region (cdev_del s)))
         else Inr (0, s\<lparr>cd_device := True\<rparr>))"

definition cdev_my_exit :: "cdev_mod \<Rightarrow> cdev_mod outcome" where
  "cdev_my_exit s =
     (let s = s\<lparr>cd_device := False\<rparr>
      in bnd (class_unregister s) (\<lambda>s.
         bnd (class_destroy s) (\<lambda>s. Inr (unregister_chrdev_region (cdev_del s)))))"

text \<open>
  C35. The driver loads all or nothing: an error leaves no registration behind. But its unload
  always faults, since the class is unregistered and then destroyed; a read reports all the bytes
  asked for even when none reached the user; and a write of 32 bytes without a null character
  reads past the buffer.
\<close>

theorem cdev_driver_defects:
  "(\<exists>ret s. cdev_my_init region add cls dev cdev_zero = Inr (ret, s) \<and>
      (if 0 \<le> region \<and> 0 \<le> add \<and> 0 \<le> cls \<and> 0 \<le> dev
       then ret = 0 \<and> s = \<lparr>cd_region = True, cd_cdev = True, cd_class = True, cd_device = True\<rparr>
       else ret < 0 \<and> s = cdev_zero)) \<and>
   cdev_my_exit s' = Inl Use_after_free \<and>
   cdev_my_read left sz = (int (min sz 32), take (min sz 32 - left) read_text) \<and>
   (32 \<le> length buf \<and> NUL \<notin> set buf \<longrightarrow> cdev_my_write junk 0 buf = Inl Out_of_bounds)"
proof (intro conjI impI)
  show "\<exists>ret s. cdev_my_init region add cls dev cdev_zero = Inr (ret, s) \<and>
      (if 0 \<le> region \<and> 0 \<le> add \<and> 0 \<le> cls \<and> 0 \<le> dev
       then ret = 0 \<and> s = \<lparr>cd_region = True, cd_cdev = True, cd_class = True, cd_device = True\<rparr>
       else ret < 0 \<and> s = cdev_zero)"
    by (cases "region < 0"; cases "add < 0"; cases "cls < 0"; cases "dev < 0")
       (simp_all add: cdev_my_init_def cdev_zero_def unregister_chrdev_region_def cdev_del_def
        class_destroy_def class_unregister_def)
  show "cdev_my_exit s' = Inl Use_after_free"
    by (simp add: cdev_my_exit_def class_destroy_def class_unregister_def)
  show "cdev_my_read left sz = (int (min sz 32), take (min sz 32 - left) read_text)"
    by (simp add: cdev_my_read_def KMAX_LEN_def min_def)
  assume "32 \<le> length buf \<and> NUL \<notin> set buf"
  then show "cdev_my_write junk 0 buf = Inl Out_of_bounds"
    by (auto simp: cdev_my_write_def KMAX_LEN_def Let_def dest: in_set_takeD split: if_splits)
qed

lemma cdev_driver_defects_witness:
  "cdev_my_write [] 0 (replicate 40 CHR ''A'') = Inl Out_of_bounds \<and> cdev_my_read 7 5 = (5, [])"
  using cdev_driver_defects [of 0 0 0 0 cdev_zero 7 5 "replicate 40 CHR ''A''" "[]"] by (simp add: NUL_def)

section \<open>The debugfs file\<close>

text \<open>
  The static buffer of \<open>debugfs_test1.c\<close>, 100 characters, written as a whole and read through
  \<open>simple_read_from_buffer\<close>. \<open>left\<close> is again what the copy could not do; then the
  write fails, with the copied bytes and nulls in the buffer.
\<close>

definition BUF_SIZE :: nat where "BUF_SIZE = 100"

definition debugfs_write :: "nat \<Rightarrow> string \<Rightarrow> string \<Rightarrow> int \<times> string" where
  "debugfs_write left user_buf buf =
     (let cnt = length user_buf
      in if BUF_SIZE - 1 < cnt then (- 22, buf)
         else let buf = take (cnt - left) user_buf @ replicate (min left cnt) NUL @ drop cnt buf
         in if left \<noteq> 0 then (- 14, buf) else (int cnt, buf[cnt := NUL]))"

text \<open>What a read of \<open>cnt\<close> bytes at \<open>pos\<close> delivers, and the position after it.\<close>

definition simple_read :: "nat \<Rightarrow> nat \<Rightarrow> string \<Rightarrow> string \<times> nat" where
  "simple_read cnt pos from = (let out = take cnt (drop pos from) in (out, pos + length out))"

definition debugfs_read :: "nat \<Rightarrow> nat \<Rightarrow> string \<Rightarrow> string \<times> nat" where
  "debugfs_read cnt pos buf = simple_read cnt pos (c_str buf)"

fun debugfs_reads :: "nat list \<Rightarrow> nat \<Rightarrow> string \<Rightarrow> string" where
  "debugfs_reads [] pos buf = []"
| "debugfs_reads (n # ns) pos buf = (let (out, pos) = debugfs_read n pos buf in out @ debugfs_reads ns pos buf)"

lemma debugfs_reads_eq: "debugfs_reads ns pos buf = take (sum_list ns) (drop pos (c_str buf))"
proof (induction ns arbitrary: pos)
  case (Cons n ns)
  show ?case
    using Cons [of "pos + length (take n (drop pos (c_str buf)))"]
    by (simp add: debugfs_read_def simple_read_def Let_def take_add drop_drop add.commute min_def)
qed simp

text \<open>An accepted write is what the reads then deliver, in pieces of any sizes, up to its first null.\<close>

lemma debugfs_round_trip:
  assumes "length buf = BUF_SIZE" "length cs < BUF_SIZE" "length cs \<le> sum_list ns"
  shows "\<exists>buf'. debugfs_write 0 cs buf = (int (length cs), buf') \<and> length buf' = BUF_SIZE \<and>
     debugfs_reads ns 0 buf' = c_str cs"
proof -
  let ?b = "(cs @ drop (length cs) buf)[length cs := NUL]"
  have b: "?b = cs @ NUL # drop (Suc (length cs)) buf"
    using assms(1,2) by (simp add: list_update_append Cons_nth_drop_Suc [symmetric])
  have "c_str (cs @ NUL # r) = c_str cs" for r by (induction cs) (simp_all add: c_str_def)
  then have "c_str ?b = c_str cs" unfolding b .
  moreover have "length (c_str cs) \<le> sum_list ns"
    using assms(3) length_takeWhile_le le_trans unfolding c_str_def by blast
  ultimately have "debugfs_reads ns 0 ?b = c_str cs" by (simp add: debugfs_reads_eq)
  moreover have "length ?b = BUF_SIZE" using assms(1,2) by simp
  moreover have "debugfs_write 0 cs buf = (int (length cs), ?b)"
    using assms(2) by (simp add: debugfs_write_def Let_def)
  ultimately show ?thesis by blast
qed

lemma debugfs_refused:
  "BUF_SIZE \<le> length cs \<Longrightarrow> debugfs_write left cs buf = (- 22, buf)"
  by (simp add: debugfs_write_def BUF_SIZE_def)

text \<open>The load leaves a directory and a file, or nothing.\<close>

definition debugfs_init :: "bool \<Rightarrow> bool \<Rightarrow> int \<times> bool \<times> bool" where
  "debugfs_init dir file =
     (if \<not> dir then (- 12, False, False) else if \<not> file then (- 12, False, False) else (0, True, True))"

definition debugfs_exit :: "bool \<times> bool \<Rightarrow> bool \<times> bool" where
  "debugfs_exit s = (False, False)"

end
