(* ===== verification/PowerKey.thy ===== *)
theory PowerKey
  imports SteFrame
begin

text \<open>
  The power key handler, \<open>powerkey.c\<close>: an input handler that allocates and opens a handle for
  every device it is connected to, logs presses of the power key, and gives the handle back when
  it is disconnected. Its two listings (not called at present) count the processes by state and
  print the memory. The results of the input core are parameters.
\<close>

section \<open>Handles\<close>

record input_handle =
  ih_dev :: nat
  ih_open :: bool

text \<open>\<open>pk_handles\<close> are the handles on the heap, \<open>pk_list\<close> those registered with the input core.\<close>

record powerkey =
  pk_handles :: "input_handle kmem"
  pk_list :: "nat list"
  pk_presses :: nat

definition EV_KEY :: nat where "EV_KEY = 1"
definition KEY_POWER :: nat where "KEY_POWER = 116"

definition power_key_event :: "nat \<Rightarrow> nat \<Rightarrow> int \<Rightarrow> powerkey \<Rightarrow> powerkey" where
  "power_key_event ty code value s =
     (if ty = EV_KEY \<and> code = KEY_POWER \<and> value = 1 then s\<lparr>pk_presses := pk_presses s + 1\<rparr> else s)"

text \<open>\<open>reg\<close> and \<open>opn\<close> are the results of registering and of opening.\<close>

definition power_key_connect :: "(nat \<Rightarrow> bool) \<Rightarrow> int \<Rightarrow> int \<Rightarrow> nat \<Rightarrow> powerkey \<Rightarrow> (int \<times> powerkey) outcome" where
  "power_key_connect ok reg opn dev s =
     (let (handle, m) = kmalloc ok \<lparr>ih_dev = dev, ih_open = False\<rparr> (pk_handles s); s = s\<lparr>pk_handles := m\<rparr>
      in case handle of
           None \<Rightarrow> Inr (- 12, s)
         | Some h \<Rightarrow>
             if reg \<noteq> 0 then bnd (kfree h (pk_handles s)) (\<lambda>m. Inr (reg, s\<lparr>pk_handles := m\<rparr>))
             else let s = s\<lparr>pk_list := h # pk_list s\<rparr>
             in if opn \<noteq> 0
                then let s = s\<lparr>pk_list := removeAll h (pk_list s)\<rparr>
                     in bnd (kfree h (pk_handles s)) (\<lambda>m. Inr (opn, s\<lparr>pk_handles := m\<rparr>))
                else bnd (kwrite h \<lparr>ih_dev = dev, ih_open = True\<rparr> (pk_handles s)) (\<lambda>m. Inr (0, s\<lparr>pk_handles := m\<rparr>)))"

definition power_key_disconnect :: "nat \<Rightarrow> powerkey \<Rightarrow> powerkey outcome" where
  "power_key_disconnect h s =
     bnd (kread h (pk_handles s)) (\<lambda>ih.
     bnd (kwrite h (ih\<lparr>ih_open := False\<rparr>) (pk_handles s)) (\<lambda>m.
     let s = s\<lparr>pk_handles := m, pk_list := removeAll h (pk_list s)\<rparr>
     in bnd (kfree h (pk_handles s)) (\<lambda>m. Inr (s\<lparr>pk_handles := m\<rparr>))))"

definition power_key_init :: powerkey where
  "power_key_init = \<lparr>pk_handles = kmem_empty, pk_list = [], pk_presses = 0\<rparr>"

text \<open>Unregistering the handler disconnects every handle that is registered.\<close>

definition power_key_exit :: "powerkey \<Rightarrow> powerkey outcome" where
  "power_key_exit s = foldM power_key_disconnect (pk_list s) s"

section \<open>The listings\<close>

record task_counts =
  n_total :: nat
  n_running :: nat
  n_sleeping :: nat
  n_stopped :: nat
  n_zombie :: nat

definition count_state :: "kernel \<Rightarrow> task \<Rightarrow> task_counts \<Rightarrow> task_counts" where
  "count_state K t c =
     (let c = c\<lparr>n_total := n_total c + 1\<rparr>
      in if t_state t = TASK_RUNNING K then c\<lparr>n_running := n_running c + 1\<rparr>
         else if t_state t AND TASK_UNINTERRUPTIBLE K \<noteq> 0 then c\<lparr>n_sleeping := n_sleeping c + 1\<rparr>
         else if t_state t AND TASK_INTERRUPTIBLE K \<noteq> 0 then c\<lparr>n_sleeping := n_sleeping c + 1\<rparr>
         else if t_exit_state t = EXIT_ZOMBIE K then c\<lparr>n_zombie := n_zombie c + 1\<rparr>
         else if t_state t = TASK_STOPPED K \<or> t_state t = TASK_TRACED K then c\<lparr>n_stopped := n_stopped c + 1\<rparr>
         else c)"

definition print_proc_stats :: "kernel \<Rightarrow> task list \<Rightarrow> task_counts" where
  "print_proc_stats K ts =
     fold (count_state K) ts \<lparr>n_total = 0, n_running = 0, n_sleeping = 0, n_stopped = 0, n_zombie = 0\<rparr>"

text \<open>Every task is counted once in the total and in at most one class.\<close>

lemma print_proc_stats_total:
  "n_total (print_proc_stats K ts) = length ts \<and>
   n_running (print_proc_stats K ts) + n_sleeping (print_proc_stats K ts) + n_stopped (print_proc_stats K ts)
     + n_zombie (print_proc_stats K ts) \<le> length ts"
proof -
  have "n_total (fold (count_state K) ts c) = n_total c + length ts \<and>
     n_running (fold (count_state K) ts c) + n_sleeping (fold (count_state K) ts c)
       + n_stopped (fold (count_state K) ts c) + n_zombie (fold (count_state K) ts c)
     \<le> n_running c + n_sleeping c + n_stopped c + n_zombie c + length ts" for c
  proof (induction ts arbitrary: c)
    case (Cons t ts)
    from Cons [of "count_state K t c"] show ?case by (auto simp: count_state_def Let_def split: if_splits)
  qed simp
  from this [of "\<lparr>n_total = 0, n_running = 0, n_sleeping = 0, n_stopped = 0, n_zombie = 0\<rparr>"]
  show ?thesis by (simp add: print_proc_stats_def)
qed

text \<open>The five numbers of the memory listing, in megabytes.\<close>

definition print_meminfo :: "sysinfo \<Rightarrow> u64 list" where
  "print_meminfo si =
     (let u = ucast (mem_unit si);
          cached = nr_file_pages si - total_swapcache_pages si - bufferram si;
          sreclaimable = nr_slab_reclaimable si
      in [totalram si * u div 1024 div 1024, freeram si * u div 1024 div 1024,
          (bufferram si + cached + sreclaimable) * u div 1024 div 1024,
          totalswap si * u div 1024 div 1024, freeswap si * u div 1024 div 1024])"

text \<open>They are the numbers of \<open>ste_top.c\<close>.\<close>

lemma print_meminfo_ste:
  "fst (ste_mem_usage si s) =
     (case print_meminfo si of [t, f, c, st, sf] \<Rightarrow> [Mem_line t f c, Swap_line st sf] | _ \<Rightarrow> [])"
  by (simp add: print_meminfo_def ste_mem_usage_def Let_def)

section \<open>Devices come and go\<close>

datatype key_event =
    Connect int int nat
  | Disconnect nat
  | Key nat nat int

text \<open>Only a registered handle is disconnected, and only to such a handle are events passed.\<close>

definition key_step :: "(nat \<Rightarrow> bool) \<Rightarrow> key_event \<Rightarrow> powerkey \<Rightarrow> powerkey outcome" where
  "key_step ok e s =
     (case e of
        Connect reg opn dev \<Rightarrow> bnd (power_key_connect ok reg opn dev s) (\<lambda>(_, s). Inr s)
      | Disconnect h \<Rightarrow> if h \<in> set (pk_list s) then power_key_disconnect h s else Inr s
      | Key ty code value \<Rightarrow> if pk_list s \<noteq> [] then Inr (power_key_event ty code value s) else Inr s)"

text \<open>The registered handles are the live ones, and each is open.\<close>

definition pkI :: "powerkey \<Rightarrow> bool" where
  "pkI s \<longleftrightarrow> kmem_ok (pk_handles s) \<and> distinct (pk_list s) \<and> set (pk_list s) = live (pk_handles s) \<and>
     (\<forall>h ih. cells (pk_handles s) h = Some ih \<longrightarrow> ih_open ih)"

lemma disconnect_ok:
  assumes "pkI s" "h \<in> set (pk_list s)"
  shows "\<exists>s'. power_key_disconnect h s = Inr s' \<and> pkI s' \<and> pk_list s' = removeAll h (pk_list s)"
proof -
  from assms obtain ih where ih: "cells (pk_handles s) h = Some ih" by (auto simp: pkI_def live_def)
  let ?m = "(pk_handles s)\<lparr>cells := (cells (pk_handles s))(h := None)\<rparr>"
  let ?s = "s\<lparr>pk_handles := ?m, pk_list := removeAll h (pk_list s)\<rparr>"
  have "power_key_disconnect h s = Inr ?s"
    using ih by (simp add: power_key_disconnect_def kread_def kwrite_def kfree_def Let_def)
  moreover have "pkI ?s"
    using assms(1) by (auto simp: pkI_def live_def kmem_ok_def distinct_removeAll split: if_splits)
  ultimately show ?thesis by simp
qed

lemma connect_ok:
  assumes "pkI s"
  shows "\<exists>r s'. power_key_connect ok reg opn dev s = Inr (r, s') \<and> pkI s' \<and>
     (if r = 0 then \<exists>h. pk_list s' = h # pk_list s else pk_list s' = pk_list s)"
proof -
  let ?a = "brk (pk_handles s)"
  have fresh: "?a \<notin> live (pk_handles s)" "cells (pk_handles s) ?a = None"
    using assms by (auto simp: pkI_def kmem_ok_def live_def)
  consider "\<not> ok ?a" | "ok ?a" "reg \<noteq> 0" | "ok ?a" "reg = 0" "opn \<noteq> 0" | "ok ?a" "reg = 0" "opn = 0" by blast
  then show ?thesis
    by cases
       (use assms fresh in \<open>auto simp: power_key_connect_def kmalloc_def kfree_def kwrite_def Let_def
          pkI_def live_def kmem_ok_def less_Suc_eq fun_upd_idem dom_def split: if_splits\<close>)
qed

lemma key_step_ok: "pkI s \<Longrightarrow> \<exists>s'. key_step ok e s = Inr s' \<and> pkI s'"
proof (cases e)
  case (Connect reg opn dev)
  assume "pkI s"
  from connect_ok [OF this, of ok reg opn dev] Connect show ?thesis by (auto simp: key_step_def)
next
  case (Disconnect h)
  assume "pkI s"
  with disconnect_ok [of s h] Disconnect show ?thesis by (auto simp: key_step_def)
next
  case (Key ty code v)
  assume "pkI s"
  with Key show ?thesis by (auto simp: key_step_def power_key_event_def pkI_def)
qed

lemma key_run_ok: "pkI s \<Longrightarrow> \<exists>s'. foldM (key_step ok) es s = Inr s' \<and> pkI s'"
proof (induction es arbitrary: s)
  case (Cons e es)
  from key_step_ok [OF Cons.prems] obtain t where "key_step ok e s = Inr t" "pkI t" by blast
  with Cons.IH [of t] show ?case by auto
qed simp

lemma exit_ok: "pkI s \<Longrightarrow> hs = pk_list s \<Longrightarrow> \<exists>s'. foldM power_key_disconnect hs s = Inr s' \<and> pkI s' \<and> pk_list s' = []"
proof (induction hs arbitrary: s)
  case (Cons h hs)
  from disconnect_ok [OF Cons.prems(1), of h] Cons.prems(2) obtain t where
    t: "power_key_disconnect h s = Inr t" "pkI t" "pk_list t = removeAll h (pk_list s)"
    by (metis list.set_intros(1))
  moreover have "hs = pk_list t"
    using Cons.prems t(3) by (auto simp: pkI_def) (metis distinct.simps(2) removeAll.simps(2) removeAll_id)
  ultimately show ?case using Cons.IH [of t] by auto
qed simp



end
