(* ===== verification/Kfifo.thy ===== *)
theory Kfifo
  imports Prelude
begin

text \<open>
  The queue demo \<open>kfifo.c\<close>: nodes go into a \<open>kfifo\<close> one at a time, are peeked at, and come out two
  at a time. The demo relies on the contract of a bounded byte queue (\<open>byte_fifo\<close>); the kernel's
  \<open>kfifo\<close>, a ring whose two 32-bit indices are never reduced but wrap, is shown to keep it.
\<close>

type_synonym byte = "8 word"

section \<open>The contract of a bounded queue\<close>

text \<open>
  A put takes as many bytes as fit, a get hands out as many as there are, oldest first; both
  return how many.
\<close>

locale byte_fifo =
  fixes put :: "'b list \<Rightarrow> 'q \<Rightarrow> nat \<times> 'q"
    and get :: "nat \<Rightarrow> 'q \<Rightarrow> 'b list \<times> 'q"
    and elems :: "'q \<Rightarrow> 'b list"
    and capacity :: "'q \<Rightarrow> nat"
    and ok :: "'q \<Rightarrow> bool"
  assumes put_law: "ok q \<Longrightarrow> put bs q = (n, q') \<Longrightarrow>
      n = min (length bs) (capacity q - length (elems q)) \<and> elems q' = elems q @ take n bs \<and>
      capacity q' = capacity q \<and> ok q'"
    and get_law: "ok q \<Longrightarrow> get k q = (bs, q') \<Longrightarrow>
      bs = take k (elems q) \<and> elems q' = drop k (elems q) \<and> capacity q' = capacity q \<and> ok q'"
    and bounded: "ok q \<Longrightarrow> length (elems q) \<le> capacity q"
begin

text \<open>Blocks that fit are all taken, in order.\<close>

lemma put_blocks:
  assumes "ok q" "length (elems q) + length (concat bss) \<le> capacity q"
  shows "elems (fold (\<lambda>bs q. snd (put bs q)) bss q) = elems q @ concat bss \<and>
    ok (fold (\<lambda>bs q. snd (put bs q)) bss q) \<and>
    capacity (fold (\<lambda>bs q. snd (put bs q)) bss q) = capacity q"
  using assms
proof (induction bss arbitrary: q)
  case (Cons bs bss)
  obtain n q' where p: "put bs q = (n, q')" by fastforce
  with put_law [OF Cons.prems(1) p] Cons.prems(2) have
    "elems q' = elems q @ bs" "capacity q' = capacity q" "ok q'" by auto
  with Cons.IH [of q'] Cons.prems(2) p show ?case by auto
qed simp

lemma put_fits:
  assumes "ok q" "length (elems q) + length bs \<le> capacity q"
  shows "\<exists>q'. put bs q = (length bs, q') \<and> elems q' = elems q @ bs \<and> capacity q' = capacity q \<and> ok q'"
  using put_law [OF assms(1), of bs] assms(2) by (cases "put bs q") auto

text \<open>Getting everything in pieces.\<close>

lemma get_some: "ok q \<Longrightarrow> 0 < k \<Longrightarrow> elems q \<noteq> [] \<Longrightarrow> length (elems (snd (get k q))) < length (elems q)"
  using get_law [of q k] by (cases "get k q") auto

end

section \<open>The ring\<close>

record 'b kfifo =
  kf_in :: u32
  kf_out :: u32
  kf_mask :: u32
  kf_data :: "'b list"

definition kfifo_size :: "'b kfifo \<Rightarrow> u32" where
  "kfifo_size q = kf_mask q + 1"

definition kfifo_len :: "'b kfifo \<Rightarrow> u32" where
  "kfifo_len q = kf_in q - kf_out q"

definition kfifo_avail :: "'b kfifo \<Rightarrow> u32" where
  "kfifo_avail q = kfifo_size q - kfifo_len q"

definition kfifo_is_empty :: "'b kfifo \<Rightarrow> bool" where
  "kfifo_is_empty q \<longleftrightarrow> kf_in q = kf_out q"

definition slot :: "'b kfifo \<Rightarrow> u32 \<Rightarrow> nat \<Rightarrow> nat" where
  "slot q base i = unat ((base + of_nat i) AND kf_mask q)"

definition kfifo_in :: "'b list \<Rightarrow> 'b kfifo \<Rightarrow> nat \<times> 'b kfifo" where
  "kfifo_in bs q =
     (let n = min (length bs) (unat (kfifo_avail q))
      in (n, q\<lparr>kf_data := fold (\<lambda>i d. d[slot q (kf_in q) i := bs ! i]) [0..<n] (kf_data q),
               kf_in := kf_in q + of_nat n\<rparr>))"

definition kfifo_out_peek :: "nat \<Rightarrow> 'b kfifo \<Rightarrow> 'b list" where
  "kfifo_out_peek k q =
     map (\<lambda>i. kf_data q ! slot q (kf_out q) i) [0..<min k (unat (kfifo_len q))]"

definition kfifo_out :: "nat \<Rightarrow> 'b kfifo \<Rightarrow> 'b list \<times> 'b kfifo" where
  "kfifo_out k q =
     (kfifo_out_peek k q, q\<lparr>kf_out := kf_out q + of_nat (min k (unat (kfifo_len q)))\<rparr>)"

definition roundup_pow_of_two :: "nat \<Rightarrow> nat" where
  "roundup_pow_of_two n = hd (filter ((\<le>) n) (map ((^) 2) [0..<32]))"

text \<open>
  The allocation: its result, the queue with \<open>junk\<close> in the fresh memory, and the address of its data.
\<close>

definition kfifo_alloc ::
  "(nat \<Rightarrow> bool) \<Rightarrow> (nat \<Rightarrow> 'b) \<Rightarrow> nat \<Rightarrow> unit kmem \<Rightarrow> int \<times> 'b kfifo \<times> nat \<times> unit kmem" where
  "kfifo_alloc ok junk sz m =
     (let sz = roundup_pow_of_two sz; q = \<lparr>kf_in = 0, kf_out = 0, kf_mask = 0, kf_data = []\<rparr>
      in if sz < 2 then (- 22, q, 0, m)
         else case kmalloc ok () m of
                (None, m) \<Rightarrow> (- 12, q, 0, m)
              | (Some a, m) \<Rightarrow> (0, q\<lparr>kf_mask := of_nat (sz - 1), kf_data := map junk [0..<sz]\<rparr>, a, m))"

section \<open>The ring keeps the contract\<close>

definition kfifo_elems :: "'b kfifo \<Rightarrow> 'b list" where
  "kfifo_elems q = map (\<lambda>i. kf_data q ! slot q (kf_out q) i) [0..<unat (kfifo_len q)]"

definition kfifo_ok :: "'b kfifo \<Rightarrow> bool" where
  "kfifo_ok q \<longleftrightarrow> (\<exists>k<32. kf_mask q = mask k \<and> length (kf_data q) = 2 ^ k \<and> unat (kfifo_len q) \<le> 2 ^ k)"

lemma length_kfifo_elems [simp]: "length (kfifo_elems q) = unat (kfifo_len q)"
  by (simp add: kfifo_elems_def)

lemma unat_pow2: "k < 32 \<Longrightarrow> unat ((2 :: u32) ^ k) = 2 ^ k"
proof -
  assume "k < 32"
  then have "(2::nat) ^ k < 2 ^ 32" by (rule power_strict_increasing) simp
  moreover have "(2 :: u32) ^ k = of_nat (2 ^ k)" by simp
  ultimately show ?thesis by (simp only: unat_of_nat) simp
qed

lemma slot_mask:
  assumes "kf_mask q = mask k" "k < 32"
  shows "slot q x i = (unat x + i) mod 2 ^ k"
proof -
  have "slot q x i = unat (x + of_nat i) mod 2 ^ k"
    by (simp add: slot_def assms(1) take_bit_eq_mask [symmetric] unsigned_take_bit_eq take_bit_nat_def)
  also have "\<dots> = (unat x + i mod 2 ^ 32) mod 2 ^ 32 mod 2 ^ k"
    by (simp add: unat_word_ariths unat_of_nat)
  also have "\<dots> = (unat x + i) mod 2 ^ 32 mod 2 ^ k" by (simp add: mod_add_right_eq)
  also have "\<dots> = (unat x + i) mod 2 ^ k"
    using assms(2) by (intro mod_mod_cancel le_imp_power_dvd) simp
  finally show ?thesis .
qed

lemma slots_distinct:
  assumes "i \<noteq> j" "i < 2 ^ k" "j < 2 ^ k"
  shows "((x::nat) + i) mod 2 ^ k \<noteq> (x + j) mod 2 ^ k"
  using assms
proof (induction i j rule: linorder_wlog)
  case (le i j)
  then have "\<not> 2 ^ k dvd (x + j) - (x + i)" by (auto dest!: dvd_imp_le)
  with le show ?case using mod_eq_dvd_iff_nat [of "x + i" "x + j" "2 ^ k"] by auto
next
  case (sym i j)
  then show ?case by metis
qed

text \<open>Writing at different places.\<close>

lemma fold_update_length [simp]: "length (fold (\<lambda>i d. d[p i := f i]) is d) = length d"
  by (induction "is" arbitrary: d) auto

lemma fold_update_other: "j \<notin> p ` set is \<Longrightarrow> fold (\<lambda>i d. d[p i := f i]) is d ! j = d ! j"
  by (induction "is" arbitrary: d) auto

lemma fold_update_at:
  assumes "inj_on p (set is)" "i \<in> set is" "p i < length d"
  shows "fold (\<lambda>i d. d[p i := f i]) is d ! p i = f i"
  using assms
proof (induction "is" arbitrary: d)
  case (Cons a "is")
  show ?case
  proof (cases "i \<in> set is")
    case True
    with Cons show ?thesis by simp
  next
    case False
    with Cons.prems have "i = a" "p i \<notin> p ` set is" by (auto simp: inj_on_def)
    with Cons.prems(3) show ?thesis by (simp add: fold_update_other)
  qed
qed simp

lemma kfifo_in_law:
  assumes "kfifo_ok q" "kfifo_in bs q = (n, q')"
  shows "n = min (length bs) (unat (kfifo_size q) - unat (kfifo_len q)) \<and>
    kfifo_elems q' = kfifo_elems q @ take n bs \<and> kfifo_size q' = kfifo_size q \<and> kfifo_ok q'"
proof -
  from assms(1) obtain k where k: "k < 32" "kf_mask q = mask k" "length (kf_data q) = 2 ^ k"
    "unat (kfifo_len q) \<le> 2 ^ k" by (auto simp: kfifo_ok_def)
  have "(2::nat) ^ k < 2 ^ 32" using k(1) by (rule power_strict_increasing) simp
  then have sz: "unat (kfifo_size q) = 2 ^ k"
    by (simp add: kfifo_size_def k(1,2) mask_eq_exp_minus_1 unat_pow2)
  have av: "unat (kfifo_avail q) = 2 ^ k - unat (kfifo_len q)"
    using k(4) sz by (simp add: kfifo_avail_def unat_sub_if')
  let ?L = "unat (kfifo_len q)" and ?d = "fold (\<lambda>i d. d[slot q (kf_in q) i := bs ! i]) [0..<n] (kf_data q)"
  have n: "n = min (length bs) (2 ^ k - ?L)" and q': "q' = q\<lparr>kf_data := ?d, kf_in := kf_in q + of_nat n\<rparr>"
    using assms(2) av by (auto simp: kfifo_in_def Let_def)
  have nL: "?L + n \<le> 2 ^ k" using n k(4) by auto
  have len: "kfifo_len q' = kfifo_len q + of_nat n" by (simp add: q' kfifo_len_def)
  then have lenN: "unat (kfifo_len q') = ?L + n"
    using nL \<open>(2::nat) ^ k < 2 ^ 32\<close> by (simp add: unat_word_ariths unat_of_nat)
  have out: "kf_out q' = kf_out q" "kf_mask q' = kf_mask q" by (simp_all add: q')
  have ins: "slot q (kf_in q) j = slot q (kf_out q) (?L + j)" for j
  proof -
    have "kf_in q = kf_out q + of_nat ?L" by (simp add: kfifo_len_def)
    then show ?thesis by (simp add: slot_def add.assoc)
  qed
  have inj: "inj_on (slot q (kf_out q)) {..<2 ^ k}"
    by (rule inj_onI) (metis lessThan_iff slot_mask [OF k(2,1)] slots_distinct)
  have "kfifo_elems q' ! i = (kfifo_elems q @ take n bs) ! i" if i: "i < ?L + n" for i
  proof -
    have e: "kfifo_elems q' ! i = ?d ! slot q (kf_out q) i"
      using i lenN by (simp add: kfifo_elems_def slot_def q')
    show ?thesis
    proof (cases "i < ?L")
      case True
      have "slot q (kf_out q) i \<noteq> slot q (kf_in q) j" if "j < n" for j
        using inj_onD [OF inj, of i "?L + j"] that True nL by (auto simp: ins)
      then have "?d ! slot q (kf_out q) i = kf_data q ! slot q (kf_out q) i"
        by (intro fold_update_other) (metis atLeastLessThan_iff imageE set_upt)
      moreover have "kfifo_elems q ! i = kf_data q ! slot q (kf_out q) i"
        using True by (simp add: kfifo_elems_def)
      ultimately show ?thesis using True by (simp add: e nth_append)
    next
      case False
      let ?j = "i - ?L"
      have j: "?j < n" "slot q (kf_out q) i = slot q (kf_in q) ?j" using False i by (auto simp: ins)
      have "inj_on (slot q (kf_in q)) (set [0..<n])"
      proof (rule inj_onI)
        fix x y
        assume "x \<in> set [0..<n]" "y \<in> set [0..<n]" "slot q (kf_in q) x = slot q (kf_in q) y"
        with inj_onD [OF inj, of "?L + x" "?L + y"] nL show "x = y" by (simp add: ins)
      qed
      moreover have "slot q (kf_in q) ?j < length (kf_data q)" by (simp add: slot_mask [OF k(2,1)] k(3))
      ultimately have "?d ! slot q (kf_in q) ?j = bs ! ?j" using j(1) by (intro fold_update_at) auto
      with j False n show ?thesis by (simp add: e nth_append)
    qed
  qed
  moreover have "n \<le> length bs" using n by simp
  ultimately have "kfifo_elems q' = kfifo_elems q @ take n bs"
    by (intro nth_equalityI) (auto simp: lenN)
  moreover have "kfifo_ok q'" using k nL lenN by (auto simp: kfifo_ok_def out) (auto simp: q')
  ultimately show ?thesis using n sz by (simp add: kfifo_size_def out)
qed

lemma kfifo_out_law:
  assumes "kfifo_ok q" "kfifo_out m q = (bs, q')"
  shows "bs = take m (kfifo_elems q) \<and> kfifo_elems q' = drop m (kfifo_elems q) \<and>
    kfifo_size q' = kfifo_size q \<and> kfifo_ok q'"
proof -
  let ?L = "unat (kfifo_len q)"
  let ?n = "min m ?L"
  have q': "q' = q\<lparr>kf_out := kf_out q + of_nat ?n\<rparr>" and bs: "bs = kfifo_out_peek m q"
    using assms(2) by (auto simp: kfifo_out_def)
  have "?n < 2 ^ 32" using unsigned_less [of "kfifo_len q", where 'a = nat] by simp
  then have N: "unat (of_nat ?n :: u32) = ?n" by (simp add: unat_of_nat)
  have "kfifo_len q' = kfifo_len q - of_nat ?n" by (simp add: q' kfifo_len_def)
  then have len: "unat (kfifo_len q') = ?L - m"
    using N by (simp add: unat_sub_if' del: of_nat_min)
  have "slot q (kf_out q') i = slot q (kf_out q) (?n + i)" for i
    by (simp add: q' slot_def add.assoc del: of_nat_min)
  moreover have "slot q' x i = slot q x i" for x i by (simp add: slot_def q')
  ultimately have "kfifo_elems q' ! i = drop m (kfifo_elems q) ! i" if "i < ?L - m" for i
    using that by (simp add: kfifo_elems_def len) (simp add: q' less_diff_conv add.commute)
  then have "kfifo_elems q' = drop m (kfifo_elems q)" by (intro nth_equalityI) (auto simp: len)
  moreover have "bs = take m (kfifo_elems q)"
    by (intro nth_equalityI) (auto simp: bs kfifo_out_peek_def kfifo_elems_def)
  moreover have "kfifo_ok q'" using assms(1) by (auto simp: kfifo_ok_def len) (auto simp: q')
  ultimately show ?thesis by (simp add: kfifo_size_def q')
qed

interpretation kf: byte_fifo kfifo_in kfifo_out kfifo_elems "\<lambda>q. unat (kfifo_size q)" kfifo_ok
proof unfold_locales
  fix q :: "'b kfifo" and bs n q'
  assume "kfifo_ok q" "kfifo_in bs q = (n, q')"
  then show "n = min (length bs) (unat (kfifo_size q) - length (kfifo_elems q)) \<and>
      kfifo_elems q' = kfifo_elems q @ take n bs \<and> unat (kfifo_size q') = unat (kfifo_size q) \<and> kfifo_ok q'"
    using kfifo_in_law by auto
next
  fix q :: "'b kfifo" and m bs q'
  assume "kfifo_ok q" "kfifo_out m q = (bs, q')"
  then show "bs = take m (kfifo_elems q) \<and> kfifo_elems q' = drop m (kfifo_elems q) \<and>
      unat (kfifo_size q') = unat (kfifo_size q) \<and> kfifo_ok q'"
    using kfifo_out_law by metis
next
  fix q :: "'b kfifo"
  assume "kfifo_ok q"
  then obtain k where k: "k < 32" "kf_mask q = mask k" "unat (kfifo_len q) \<le> 2 ^ k"
    by (auto simp: kfifo_ok_def)
  then have "unat (kfifo_size q) = 2 ^ k"
    by (simp add: kfifo_size_def mask_eq_exp_minus_1 unat_pow2)
  with k(3) show "length (kfifo_elems q) \<le> unat (kfifo_size q)" by simp
qed

section \<open>The demo\<close>

text \<open>A node is an \<open>int\<close>: four bytes, the lowest first.\<close>

definition node_bytes :: "u32 \<Rightarrow> byte list" where
  "node_bytes v = map (\<lambda>k. ucast (drop_bit (8 * k) v)) [0, 1, 2, 3]"

fun nodes_of :: "byte list \<Rightarrow> u32 list" where
  "nodes_of (b0 # b1 # b2 # b3 # bs) =
     (ucast b0 OR push_bit 8 (ucast b1) OR push_bit 16 (ucast b2) OR push_bit 24 (ucast b3)) # nodes_of bs"
| "nodes_of _ = []"

datatype kf_msg =
    Alloc_fail int | In_ret nat | Put_fail | Size_msg u32 | Len_msg u32 | Avail_msg u32
  | Peek_ret nat | Peek_msg int | Out_ret nat | Out_msg int | Exit_msg

text \<open>The buffer has room for ten nodes.\<close>

definition to_buf :: "byte list \<Rightarrow> u32 list outcome" where
  "to_buf bs = (if length bs \<le> 4 * 10 then Inr (nodes_of bs) else Inl Out_of_bounds)"

definition kf_put :: "u32 \<Rightarrow> kf_msg list \<times> byte kfifo \<Rightarrow> kf_msg list \<times> byte kfifo" where
  "kf_put v = (\<lambda>(log, q).
     let (ret, q) = kfifo_in (node_bytes v) q
     in (log @ [In_ret ret] @ (if ret = 0 then [Put_fail] else []), q))"

function kf_drain :: "kf_msg list \<Rightarrow> byte kfifo \<Rightarrow> (kf_msg list \<times> byte kfifo) outcome" where
  "kf_drain log q =
     (if kfifo_is_empty q then Inr (log, q)
      else let (bs, q) = kfifo_out (4 * 2) q
           in case to_buf bs of
                Inl e \<Rightarrow> Inl e
              | Inr vs \<Rightarrow> kf_drain (log @ Out_ret (length bs) # map (\<lambda>v. Out_msg (sint v)) vs) q)"
  by pat_completeness auto
termination
proof (relation "measure (\<lambda>(log, q). unat (kfifo_len q))")
  fix q q' :: "byte kfifo" and log x vs bs
  assume "\<not> kfifo_is_empty q" "x = kfifo_out (4 * 2) q" "(bs, q') = x"
  then have q': "kfifo_len q' = kfifo_len q - of_nat (min 8 (unat (kfifo_len q)))" and "kfifo_len q \<noteq> 0"
    by (auto simp: kfifo_out_def kfifo_len_def kfifo_is_empty_def)
  from \<open>kfifo_len q \<noteq> 0\<close> have "0 < unat (kfifo_len q)" by (simp add: unat_gt_0)
  moreover have "unat (of_nat (min 8 (unat (kfifo_len q))) :: u32) = min 8 (unat (kfifo_len q))"
    using unsigned_less [of "kfifo_len q", where 'a = nat] by (simp add: unat_of_nat del: of_nat_min)
  ultimately show "((log @ Out_ret (length bs) # map (\<lambda>v. Out_msg (sint v)) vs, q'), (log, q))
      \<in> measure (\<lambda>(log, q). unat (kfifo_len q))"
    by (simp add: q' unat_sub_if' del: of_nat_min)
qed simp

declare kf_drain.simps [simp del]

text \<open>The load, for the array \<open>a\<close> of the nodes; sizes are in bytes.\<close>

definition testkfifo_run ::
  "u32 list \<Rightarrow> (nat \<Rightarrow> bool) \<Rightarrow> (nat \<Rightarrow> byte) \<Rightarrow> unit kmem \<Rightarrow> (int \<times> kf_msg list \<times> unit kmem) outcome" where
  "testkfifo_run a ok junk m =
     (let (ret, q, d, m) = kfifo_alloc ok junk (4 * length a) m
      in if ret \<noteq> 0 then Inr (0, [Alloc_fail ret], m)
         else let (log, q) = fold kf_put a ([], q);
                  log = log @ [Size_msg (kfifo_size q), Len_msg (kfifo_len q), Avail_msg (kfifo_avail q)];
                  bs = kfifo_out_peek (4 * length a) q
              in bnd (to_buf bs) (\<lambda>vs.
                 bnd (kf_drain (log @ Peek_ret (length bs) # map (\<lambda>v. Peek_msg (sint v)) vs) q) (\<lambda>(log, q).
                 bnd (kfree d m) (\<lambda>m. Inr (0, log, m)))))"

definition testkfifo_init ::
  "(nat \<Rightarrow> bool) \<Rightarrow> (nat \<Rightarrow> byte) \<Rightarrow> unit kmem \<Rightarrow> (int \<times> kf_msg list \<times> unit kmem) outcome" where
  "testkfifo_init ok junk m = testkfifo_run [3, 56, 34, 79, 28, 1, 7] ok junk m"

definition testkfifo_exit :: "kf_msg list" where
  "testkfifo_exit = [Exit_msg]"

section \<open>What it prints\<close>

lemma node_round_trip: "nodes_of (node_bytes v @ bs) = v # nodes_of bs"
proof -
  have "ucast (ucast v :: byte) OR push_bit 8 (ucast (ucast (drop_bit 8 v) :: byte)) OR
      push_bit 16 (ucast (ucast (drop_bit 16 v) :: byte)) OR
      push_bit 24 (ucast (ucast (drop_bit 24 v) :: byte)) = v"
    (is "?l = v")
  proof (rule bit_word_eqI)
    fix n
    assume "n < LENGTH(32)"
    then consider "n < 8" | "8 \<le> n" "n < 16" | "16 \<le> n" "n < 24" | "24 \<le> n" "n < 32" by force
    then show "bit ?l n = bit v n" by cases (auto simp: bit_simps)
  qed
  then show ?thesis by (simp add: node_bytes_def)
qed

lemma length_node_bytes [simp]: "length (node_bytes v) = 4"
  by (simp add: node_bytes_def)

lemma nodes_of_concat [simp]: "nodes_of (concat (map node_bytes vs)) = vs"
  by (induction vs) (simp_all add: node_round_trip)

lemma length_nodes [simp]: "length (concat (map node_bytes vs)) = 4 * length vs"
  by (induction vs) auto

fun out_msgs :: "u32 list \<Rightarrow> kf_msg list" where
  "out_msgs (v # w # vs) = [Out_ret 8, Out_msg (sint v), Out_msg (sint w)] @ out_msgs vs"
| "out_msgs [v] = [Out_ret 4, Out_msg (sint v)]"
| "out_msgs [] = []"

lemma kfifo_empty_elems: "kfifo_is_empty q \<longleftrightarrow> kfifo_elems q = []"
proof -
  have "kfifo_elems q = [] \<longleftrightarrow> unat (kfifo_len q) = 0" by (metis length_0_conv length_kfifo_elems)
  then show ?thesis by (simp add: kfifo_is_empty_def kfifo_len_def unat_eq_0)
qed

lemma kf_drain_all:
  assumes "kfifo_ok q" "kfifo_elems q = concat (map node_bytes vs)"
  shows "\<exists>q'. kf_drain log q = Inr (log @ out_msgs vs, q')"
  using assms
proof (induction vs arbitrary: log q rule: out_msgs.induct)
  case (1 v w vs)
  obtain bs q' where o: "kfifo_out 8 q = (bs, q')" by fastforce
  have q': "bs = node_bytes v @ node_bytes w" "kfifo_elems q' = concat (map node_bytes vs)" "kfifo_ok q'"
    using kf.get_law [OF 1(2) o] 1(3) by auto
  from 1(1) [OF q'(3,2)] obtain r where
    "kf_drain (log @ [Out_ret 8, Out_msg (sint v), Out_msg (sint w)]) q' =
       Inr ((log @ [Out_ret 8, Out_msg (sint v), Out_msg (sint w)]) @ out_msgs vs, r)" by blast
  moreover have "nodes_of bs = [v, w]" using nodes_of_concat [of "[v, w]"] by (simp add: q')
  moreover have "\<not> kfifo_is_empty q" by (simp add: kfifo_empty_elems 1(3) node_bytes_def)
  ultimately show ?case
    by (subst kf_drain.simps) (simp add: o to_buf_def q'(1))
next
  case (2 v)
  obtain bs q' where o: "kfifo_out 8 q = (bs, q')" by fastforce
  have q': "bs = node_bytes v" "kfifo_elems q' = []" "kfifo_ok q'"
    using kf.get_law [OF 2(1) o] 2(2) by auto
  have "nodes_of bs = [v]" using nodes_of_concat [of "[v]"] by (simp add: q')
  moreover have "\<not> kfifo_is_empty q" by (simp add: kfifo_empty_elems 2(2) node_bytes_def)
  moreover have "kf_drain l q' = Inr (l, q')" for l
    by (subst kf_drain.simps) (simp add: kfifo_empty_elems q'(2))
  ultimately show ?case
    by (subst kf_drain.simps) (simp add: o to_buf_def q'(1))
next
  case 3
  then show ?case by (subst kf_drain.simps) (simp add: kfifo_empty_elems)
qed

lemma kf_put_all:
  assumes "kfifo_ok q" "length (kfifo_elems q) + 4 * length vs \<le> unat (kfifo_size q)"
  shows "\<exists>q'. fold kf_put vs (log, q) = (log @ replicate (length vs) (In_ret 4), q') \<and>
    kfifo_elems q' = kfifo_elems q @ concat (map node_bytes vs) \<and> kfifo_ok q' \<and>
    unat (kfifo_size q') = unat (kfifo_size q)"
  using assms
proof (induction vs arbitrary: log q)
  case (Cons v vs)
  from kf.put_fits [OF Cons.prems(1), of "node_bytes v"] Cons.prems(2) obtain q' where
    q': "kfifo_in (node_bytes v) q = (4, q')" "kfifo_elems q' = kfifo_elems q @ node_bytes v"
      "unat (kfifo_size q') = unat (kfifo_size q)" "kfifo_ok q'" by auto
  from Cons.IH [OF q'(4), of "log @ [In_ret 4]"] Cons.prems(2) q'(2,3) obtain r where
    r: "fold kf_put vs (log @ [In_ret 4], q') = ((log @ [In_ret 4]) @ replicate (length vs) (In_ret 4), r)"
      "kfifo_elems r = kfifo_elems q' @ concat (map node_bytes vs)" "kfifo_ok r"
      "unat (kfifo_size r) = unat (kfifo_size q')" 
    using length_kfifo_elems [of q'] by auto
  moreover have "kf_put v (log, q) = (log @ [In_ret 4], q')" by (simp add: kf_put_def q'(1))
  ultimately show ?case using q'(2,3) by simp
qed auto

lemma roundup_pow_of_two_power:
  assumes "0 < n" "n \<le> 2 ^ 31"
  shows "\<exists>k<32. roundup_pow_of_two n = 2 ^ k \<and> n \<le> 2 ^ k"
proof -
  let ?ps = "filter ((\<le>) n) (map ((^) 2) [0..<32])"
  have "2 ^ 31 \<in> set ?ps" using assms(2) by (auto intro: image_eqI [of _ _ 31])
  then have "?ps \<noteq> []" by fastforce
  then have "hd ?ps \<in> set ?ps" by (rule hd_in_set)
  then show ?thesis by (auto simp: roundup_pow_of_two_def)
qed

lemma kfifo_alloc_ok:
  assumes "2 \<le> sz" "sz \<le> 2 ^ 31" "ok (brk m)"
  shows "\<exists>q. kfifo_alloc ok junk sz m = (0, q, brk m, snd (kmalloc ok () m)) \<and> kfifo_ok q \<and>
    kfifo_elems q = [] \<and> unat (kfifo_size q) = roundup_pow_of_two sz \<and> sz \<le> roundup_pow_of_two sz"
proof -
  from roundup_pow_of_two_power [of sz] assms(1,2) obtain k where
    k: "k < 32" "roundup_pow_of_two sz = 2 ^ k" "sz \<le> 2 ^ k" by auto
  have "(of_nat (2 ^ k - 1) :: u32) = mask k" by (simp add: of_nat_diff mask_eq_exp_minus_1)
  then show ?thesis
    using k assms(1,3) by (auto simp: kfifo_alloc_def kmalloc_def kfifo_ok_def kfifo_len_def
        kfifo_elems_def kfifo_size_def mask_eq_exp_minus_1 unat_pow2 Let_def)
qed

lemma kmalloc_kfree:
  assumes "kmem_ok m" "ok (brk m)"
  shows "\<exists>m'. kfree (brk m) (snd (kmalloc ok x m)) = Inr m' \<and> cells m' = cells m \<and> brk m' = Suc (brk m)"
proof -
  have "cells m (brk m) = None" using assms(1) by (auto simp: kmem_ok_def live_def)
  then show ?thesis using assms(2) by (simp add: kmalloc_def kfree_def fun_upd_idem)
qed

section \<open>Property\<close>

text \<open>
  The ring is a bounded queue, whatever its indices: while the room is a power of two, a put
  appends the bytes that fit and a get removes the oldest ones, also when an index wraps past
  \<open>2 ^ 32\<close> or the ring's end.
\<close>

lemma kfifo_refines_queue:
  assumes "kfifo_ok q"
  shows "(let (n, t) = kfifo_in bs q in
      n = min (length bs) (unat (kfifo_size q) - length (kfifo_elems q)) \<and>
      kfifo_elems t = kfifo_elems q @ take n bs \<and> kfifo_ok t) \<and>
    (let (cs, t) = kfifo_out m q in
      cs = take m (kfifo_elems q) \<and> kfifo_elems t = drop m (kfifo_elems q) \<and> kfifo_ok t) \<and>
    kfifo_out_peek m q = take m (kfifo_elems q) \<and> (kfifo_is_empty q \<longleftrightarrow> kfifo_elems q = [])"
  using kfifo_in_law [OF assms, of bs] kfifo_out_law [OF assms, of m] kfifo_empty_elems [of q]
  by (auto simp: kfifo_out_def split: prod.split)

text \<open>
  C37. The demo, for any array of up to ten values: when the queue is refused it says so; otherwise
  every value goes in whole, the sizes add up to the next power of two, the peek shows every value
  in order and leaves it there, and the loop ends, handing the values out in order two at a time.
  The memory is given back in either case.
\<close>

theorem kfifo_demo_prints:
  assumes "a \<noteq> []" "length a \<le> 10" "kmem_ok m"
  shows "\<exists>m'. testkfifo_run a ok junk m =
      Inr (0,
        if ok (brk m)
        then replicate (length a) (In_ret 4) @
          [Size_msg (of_nat (roundup_pow_of_two (4 * length a))), Len_msg (of_nat (4 * length a)),
           Avail_msg (of_nat (roundup_pow_of_two (4 * length a) - 4 * length a)), Peek_ret (4 * length a)] @
          map (\<lambda>v. Peek_msg (sint v)) a @ out_msgs a
        else [Alloc_fail (- 12)], m') \<and> cells m' = cells m"
proof (cases "ok (brk m)")
  case True
  let ?n = "4 * length a" and ?sz = "roundup_pow_of_two (4 * length a)"
  from assms(1,2) have n: "2 \<le> ?n" "?n \<le> 2 ^ 31" by (cases a; simp)+
  from kfifo_alloc_ok [where ok = ok and m = m, OF n True] obtain q where
    q: "kfifo_alloc ok junk ?n m = (0, q, brk m, snd (kmalloc ok () m))" "kfifo_ok q" "kfifo_elems q = []"
      "unat (kfifo_size q) = ?sz" "?n \<le> ?sz" by blast
  from kf_put_all [OF q(2), of a "[]"] q(3-5) obtain t where
    t: "fold kf_put a ([], q) = (replicate (length a) (In_ret 4), t)"
      "kfifo_elems t = concat (map node_bytes a)" "kfifo_ok t" "unat (kfifo_size t) = ?sz" by auto
  have len: "unat (kfifo_len t) = ?n" using length_kfifo_elems [of t] t(2) by simp
  have pk: "kfifo_out_peek ?n t = concat (map node_bytes a)"
    using kfifo_out_law [OF t(3), of ?n] t(2) by (simp add: kfifo_out_def)
  have "kfifo_len t = of_nat ?n" "kfifo_size t = of_nat ?sz"
    using len t(4) by (metis of_nat_unat ucast_id)+
  moreover from this q(5) have "kfifo_avail t = of_nat (?sz - ?n)" by (simp add: kfifo_avail_def of_nat_diff)
  moreover obtain q' where "kf_drain (replicate (length a) (In_ret 4) @
      [Size_msg (kfifo_size t), Len_msg (kfifo_len t), Avail_msg (kfifo_avail t)] @
      Peek_ret ?n # map (\<lambda>v. Peek_msg (sint v)) a) t =
      Inr ((replicate (length a) (In_ret 4) @
      [Size_msg (kfifo_size t), Len_msg (kfifo_len t), Avail_msg (kfifo_avail t)] @
      Peek_ret ?n # map (\<lambda>v. Peek_msg (sint v)) a) @ out_msgs a, q')"
    using kf_drain_all [OF t(3,2)] by blast
  moreover obtain m' where "kfree (brk m) (snd (kmalloc ok () m)) = Inr m'" "cells m' = cells m"
    using kmalloc_kfree [where ok = ok, OF assms(3) True] by blast
  ultimately show ?thesis
    using True assms(2) by (simp add: testkfifo_run_def q(1) t(1) pk to_buf_def)
next
  case False
  from assms(1,2) have n: "0 < 4 * length a" "4 * length a \<le> 2 ^ 31" by simp_all
  from roundup_pow_of_two_power [OF this] assms(1) have "\<not> roundup_pow_of_two (4 * length a) < 2"
    by (cases a) auto
  with False show ?thesis by (simp add: testkfifo_run_def kfifo_alloc_def kmalloc_def Let_def)
qed

lemma kfifo_demo_prints_witness:
  "\<exists>m'. testkfifo_init (\<lambda>_. True) (\<lambda>_. 0) kmem_empty =
     Inr (0, replicate 7 (In_ret 4) @ [Size_msg 32, Len_msg 28, Avail_msg 4, Peek_ret 28] @
       map Peek_msg [3, 56, 34, 79, 28, 1, 7] @
       [Out_ret 8, Out_msg 3, Out_msg 56, Out_ret 8, Out_msg 34, Out_msg 79, Out_ret 8, Out_msg 28, Out_msg 1,
        Out_ret 4, Out_msg 7], m')"
proof -
  let ?a = "[3, 56, 34, 79, 28, 1, 7] :: u32 list"
  have a: "?a \<noteq> []" "length ?a \<le> 10" "kmem_ok (kmem_empty :: unit kmem)"
    by (simp_all add: kmem_ok_def live_def kmem_empty_def)
  from kfifo_demo_prints [where ok = "\<lambda>_. True" and junk = "\<lambda>_. 0", OF a] obtain m' where
    "testkfifo_init (\<lambda>_. True) (\<lambda>_. 0) kmem_empty = Inr (0, replicate (length ?a) (In_ret 4) @
      [Size_msg (of_nat (roundup_pow_of_two (4 * length ?a))), Len_msg (of_nat (4 * length ?a)),
       Avail_msg (of_nat (roundup_pow_of_two (4 * length ?a) - 4 * length ?a)), Peek_ret (4 * length ?a)] @
      map (\<lambda>v. Peek_msg (sint v)) ?a @ out_msgs ?a, m')"
    unfolding testkfifo_init_def if_True by blast
  moreover have "roundup_pow_of_two (4 * length ?a) = 32" by (simp add: roundup_pow_of_two_def upt_rec)
  moreover have "replicate 7 (In_ret 4) = replicate (length ?a) (In_ret 4)"
    by (simp only: list.size) (simp add: eval_nat_numeral)
  ultimately show ?thesis by simp
qed

end
