(* ===== verification/Irq.thy ===== *)
theory Irq
  imports Prelude
begin

text \<open>
  The virtual interrupt of \<open>interrupt_register_module.c\<close> and its trigger \<open>interrupt_trigger_module.c\<close>.
  The interrupt core is modelled as documented: a line that is not shared has at most one handler,
  registered with a device cookie, and \<open>free_irq\<close> removes the handler whose cookie it is given and
  only warns when there is none. Which line the processor's vector 33 belongs to is a parameter.
\<close>

definition VIRTUAL_IRQ :: nat where "VIRTUAL_IRQ = 13"

datatype cookie = Null_cookie | Handler_cookie

datatype irq_msg =
    Handler_msg nat | Simulating_msg nat | Register_failed nat int | Registered_msg nat
  | Unregistered_msg nat | Already_free nat | Trigger_msg | Trigger_exit_msg

text \<open>\<open>ir_text\<close>: whether the module, and so its handler, is in memory.\<close>

record irqs =
  ir_lines :: "nat \<rightharpoonup> cookie"
  ir_text :: bool
  ir_log :: "irq_msg list"

definition ir_say :: "irq_msg \<Rightarrow> irqs \<Rightarrow> irqs" where
  "ir_say m s = s\<lparr>ir_log := ir_log s @ [m]\<rparr>"

definition request_irq :: "nat \<Rightarrow> cookie \<Rightarrow> irqs \<Rightarrow> int \<times> irqs" where
  "request_irq irq dev s =
     (case ir_lines s irq of
        Some _ \<Rightarrow> (- 16, s)
      | None \<Rightarrow> (0, s\<lparr>ir_lines := (ir_lines s)(irq \<mapsto> dev)\<rparr>))"

definition free_irq :: "nat \<Rightarrow> cookie \<Rightarrow> irqs \<Rightarrow> irqs" where
  "free_irq irq dev s =
     (if ir_lines s irq = Some dev then s\<lparr>ir_lines := (ir_lines s)(irq := None)\<rparr>
      else ir_say (Already_free irq) s)"

section \<open>The modules\<close>

definition irq_handler :: "nat \<Rightarrow> irqs \<Rightarrow> irqs" where
  "irq_handler irq s = ir_say (Handler_msg irq) s"

text \<open>An interrupt on a line calls its handler; the handler of a removed module is gone.\<close>

definition do_irq :: "nat \<Rightarrow> irqs \<Rightarrow> irqs outcome" where
  "do_irq irq s =
     (case ir_lines s irq of
        None \<Rightarrow> Inr s
      | Some _ \<Rightarrow> if ir_text s then Inr (irq_handler irq s) else Inl Use_after_free)"

definition trigger_virtual_irq :: "(nat \<Rightarrow> nat option) \<Rightarrow> irqs \<Rightarrow> irqs outcome" where
  "trigger_virtual_irq line_of s =
     (let s = ir_say (Simulating_msg VIRTUAL_IRQ) s
      in case line_of 33 of None \<Rightarrow> Inr s | Some irq \<Rightarrow> do_irq irq s)"

definition irq_module_init :: "irqs \<Rightarrow> int \<times> irqs" where
  "irq_module_init s =
     (let (result, s) = request_irq VIRTUAL_IRQ Null_cookie s
      in if result \<noteq> 0 then (- 5, ir_say (Register_failed VIRTUAL_IRQ result) s)
         else (0, ir_say (Registered_msg VIRTUAL_IRQ) s))"

definition irq_module_exit :: "irqs \<Rightarrow> irqs" where
  "irq_module_exit s =
     ir_say (Unregistered_msg VIRTUAL_IRQ) (free_irq VIRTUAL_IRQ Handler_cookie s)"

definition trigger_module_init :: "(nat \<Rightarrow> nat option) \<Rightarrow> irqs \<Rightarrow> (int \<times> irqs) outcome" where
  "trigger_module_init line_of s =
     bnd (trigger_virtual_irq line_of (ir_say Trigger_msg s)) (\<lambda>s. Inr (0, s))"

definition trigger_module_exit :: "irqs \<Rightarrow> irqs" where
  "trigger_module_exit s = ir_say Trigger_exit_msg s"

section \<open>Runs\<close>

text \<open>
  Loads, unloads and interrupts in any order. A load that fails leaves the module out; the trigger
  needs the exported function, so it runs only while the module is in memory.
\<close>

datatype irq_event = Load | Unload | Interrupt nat | Trigger

definition irq_step :: "(nat \<Rightarrow> nat option) \<Rightarrow> irq_event \<Rightarrow> irqs \<Rightarrow> irqs outcome" where
  "irq_step line_of ev s =
     (case ev of
        Load \<Rightarrow>
          if ir_text s then Inr s
          else let (ret, s) = irq_module_init (s\<lparr>ir_text := True\<rparr>) in Inr (s\<lparr>ir_text := (ret = 0)\<rparr>)
      | Unload \<Rightarrow> if ir_text s then Inr ((irq_module_exit s)\<lparr>ir_text := False\<rparr>) else Inr s
      | Interrupt irq \<Rightarrow> do_irq irq s
      | Trigger \<Rightarrow>
          if ir_text s
          then bnd (trigger_module_init line_of s) (\<lambda>(ret, s). Inr (trigger_module_exit s)) else Inr s)"

lemmas irq_defs = irq_step_def do_irq_def irq_module_init_def irq_module_exit_def request_irq_def
  free_irq_def ir_say_def irq_handler_def trigger_module_init_def trigger_module_exit_def
  trigger_virtual_irq_def

text \<open>After an unload: the handler of the removed module is still registered, and nothing else is.\<close>

definition dangling :: "irqs \<Rightarrow> bool" where
  "dangling s \<longleftrightarrow> \<not> ir_text s \<and> ir_lines s = [VIRTUAL_IRQ \<mapsto> Null_cookie]"

lemma dangling_step:
  assumes "dangling s"
  shows "if ev = Interrupt VIRTUAL_IRQ then irq_step line_of ev s = Inl Use_after_free
    else \<exists>t. irq_step line_of ev s = Inr t \<and> dangling t"
  using assms by (cases ev) (auto simp: irq_defs dangling_def)

lemma dangling_run:
  "dangling s \<Longrightarrow>
     (if Interrupt VIRTUAL_IRQ \<in> set evs then foldM (irq_step line_of) evs s = Inl Use_after_free
      else \<exists>t. foldM (irq_step line_of) evs s = Inr t \<and> dangling t)"
proof (induction evs arbitrary: s)
  case (Cons ev evs)
  show ?case
  proof (cases "ev = Interrupt VIRTUAL_IRQ")
    case True
    with dangling_step [OF Cons.prems, of ev line_of] show ?thesis by simp
  next
    case False
    with dangling_step [OF Cons.prems, of ev line_of] obtain t where
      "irq_step line_of ev s = Inr t" "dangling t" by auto
    with False Cons.IH [of t] show ?thesis by auto
  qed
qed simp

text \<open>While the module is loaded: interrupts, and triggers, are handled.\<close>

definition serving :: "irqs \<Rightarrow> bool" where
  "serving s \<longleftrightarrow> ir_text s \<and> ir_lines s = [VIRTUAL_IRQ \<mapsto> Null_cookie]"

lemma serving_step:
  assumes "serving s" "ev \<noteq> Unload"
  shows "\<exists>t. irq_step line_of ev s = Inr t \<and> serving t"
  using assms by (cases ev) (auto simp: irq_defs serving_def Let_def split: option.split)

lemma serving_run:
  "serving s \<Longrightarrow> Unload \<notin> set evs \<Longrightarrow> \<exists>t. foldM (irq_step line_of) evs s = Inr t \<and> serving t"
proof (induction evs arbitrary: s)
  case (Cons ev evs)
  with serving_step [of s ev line_of] show ?case by auto
qed simp

section \<open>Property\<close>

definition irq_free :: irqs where
  "irq_free = \<lparr>ir_lines = Map.empty, ir_text = False, ir_log = []\<rparr>"

text \<open>
  C38. The module frees its line with another cookie than it registered, so nothing is freed.
  Loaded once, it serves its line through any loads, interrupts and triggers without a fault. After
  its first unload the line keeps the handler of the removed module: no later load succeeds, and
  whatever else happens, the run faults exactly when an interrupt on the line arrives.
\<close>

theorem irq_unload_dangles:
  assumes "Unload \<notin> set before"
  shows "(\<exists>s. foldM (irq_step line_of) (Load # before) irq_free = Inr s \<and> ir_text s \<and>
      do_irq VIRTUAL_IRQ s = Inr (irq_handler VIRTUAL_IRQ s)) \<and>
    (if Interrupt VIRTUAL_IRQ \<in> set after
     then foldM (irq_step line_of) (Load # before @ Unload # after) irq_free = Inl Use_after_free
     else \<exists>s. foldM (irq_step line_of) (Load # before @ Unload # after) irq_free = Inr s \<and>
       \<not> ir_text s \<and> fst (irq_module_init s) = - 5)"
proof -
  obtain l where l: "irq_step line_of Load irq_free = Inr l" "serving l"
    by (simp add: irq_defs irq_free_def serving_def)
  from serving_run [OF l(2) assms, of line_of] obtain s where
    s: "foldM (irq_step line_of) before l = Inr s" "serving s" by blast
  then have 1: "foldM (irq_step line_of) (Load # before) irq_free = Inr s" "ir_text s"
    "do_irq VIRTUAL_IRQ s = Inr (irq_handler VIRTUAL_IRQ s)"
    by (simp_all add: l(1) do_irq_def serving_def)
  obtain t where t: "irq_step line_of Unload s = Inr t" "dangling t"
    using s(2) by (simp add: irq_defs serving_def dangling_def)
  have run: "foldM (irq_step line_of) (Load # before @ Unload # after) irq_free = foldM (irq_step line_of) after t"
    by (simp add: l(1) foldM_append s(1) t(1))
  have "fst (irq_module_init u) = - 5" if "dangling u" for u
    using that by (simp add: irq_defs dangling_def)
  with dangling_run [OF t(2), of after line_of] 1 show ?thesis
    unfolding run by (auto simp: dangling_def)
qed

lemma irq_unload_dangles_witness:
  "foldM (irq_step (\<lambda>_. Some 1)) [Load, Interrupt 13, Trigger, Unload, Load, Interrupt 13] irq_free = Inl Use_after_free"
  using irq_unload_dangles [of "[Interrupt 13, Trigger]" "\<lambda>_. Some 1" "[Load, Interrupt 13]"]
  by (simp add: VIRTUAL_IRQ_def)

end
