(* ===== verification/Listings.thy ===== *)
theory Listings
  imports Prelude
begin

text \<open>
  Modules that print once when they are loaded: the task listings \<open>kernel_module.c\<close>,
  \<open>for_each_process.c\<close>, \<open>cpu_rq.c\<close> and \<open>all_cpu.c\<close>, the memory report \<open>mem.c\<close> and the first demos
  \<open>hds.c\<close> and \<open>hello.c\<close>. The task list and the memory counters of the kernel are input.
\<close>

datatype list_msg =
    Text string
  | Name_pid string int
  | Times string int nat u64 u64
  | Cpu_header nat
  | Rq_task string int
  | Current nat int string
  | Megabytes string u64
  | Sum int

record listed =
  t_comm :: string
  t_pid :: int
  t_cpu :: nat
  t_utime :: u64
  t_stime :: u64

section \<open>Listings of tasks\<close>

definition kernel_module_init :: "listed list \<Rightarrow> int \<times> list_msg list" where
  "kernel_module_init tasks =
     (0, fold (\<lambda>p log. log @ [Name_pid (t_comm p) (t_pid p)]) tasks [Text ''kernel_module_init''])"

definition kernel_module_exit :: "list_msg list" where
  "kernel_module_exit = [Text ''kernel_module_exit'']"

definition list_tasks_init :: "listed list \<Rightarrow> int \<times> list_msg list" where
  "list_tasks_init tasks =
     (0, fold (\<lambda>p log. let utime = t_utime p; stime = t_stime p
                       in log @ [Times (t_comm p) (t_pid p) (t_cpu p) utime stime])
           tasks [Text ''Listing current tasks:''])"

definition list_tasks_exit :: "list_msg list" where
  "list_tasks_exit = [Text ''Unloading module.'']"

text \<open>The threads of the system, once per possible CPU.\<close>

definition list_runqueue_init :: "nat list \<Rightarrow> listed list \<Rightarrow> int \<times> list_msg list" where
  "list_runqueue_init possible threads =
     (0, fold (\<lambda>cpu log.
           fold (\<lambda>p log. if t_cpu p = cpu then log @ [Rq_task (t_comm p) (t_pid p)] else log)
             threads (log @ [Cpu_header cpu]))
         possible [])"

definition list_runqueue_exit :: "list_msg list" where
  "list_runqueue_exit = [Text ''Removing module'']"

text \<open>
  \<open>all_cpu.c\<close>: the load calls every other CPU and then its own, \<open>here\<close>, and does it again after a
  second, without end. The tasks running in the \<open>i\<close>-th second are given by \<open>cur i\<close>.
\<close>

definition get_current_task_info :: "(nat \<Rightarrow> listed) \<Rightarrow> nat \<Rightarrow> list_msg" where
  "get_current_task_info cur cpu = Current cpu (t_pid (cur cpu)) (t_comm (cur cpu))"

definition all_cpu_round :: "nat list \<Rightarrow> nat \<Rightarrow> (nat \<Rightarrow> listed) \<Rightarrow> list_msg list" where
  "all_cpu_round online here cur =
     map (get_current_task_info cur) (filter (\<lambda>c. c \<noteq> here) online) @ [get_current_task_info cur here]"

partial_function (option) all_cpu_loop ::
  "nat list \<Rightarrow> nat \<Rightarrow> (nat \<Rightarrow> nat \<Rightarrow> listed) \<Rightarrow> nat \<Rightarrow> list_msg list \<Rightarrow> (int \<times> list_msg list) option" where
  "all_cpu_loop online here cur i log =
     all_cpu_loop online here cur (Suc i) (log @ all_cpu_round online here (cur i))"

definition all_cpu_init :: "nat list \<Rightarrow> nat \<Rightarrow> (nat \<Rightarrow> nat \<Rightarrow> listed) \<Rightarrow> (int \<times> list_msg list) option" where
  "all_cpu_init online here cur =
     all_cpu_loop online here cur 0 [Text ''Module to get current tasks on all CPUs.'']"

section \<open>The memory report and the first demos\<close>

record sysinfo =
  totalram :: u64
  freeram :: u64
  bufferram :: u64
  mem_unit :: u32

definition megabytes :: "u64 \<Rightarrow> u32 \<Rightarrow> u64" where
  "megabytes pages unit = pages * ucast unit div 1024 div 1024"

definition meminfo_init :: "sysinfo \<Rightarrow> int \<times> list_msg list" where
  "meminfo_init si =
     (0, [Text ''Loaded meminfo module.'',
          Megabytes ''Total RAM'' (megabytes (totalram si) (mem_unit si)),
          Megabytes ''Free RAM'' (megabytes (freeram si) (mem_unit si)),
          Megabytes ''Buffer RAM'' (megabytes (bufferram si) (mem_unit si))])"

definition meminfo_exit :: "list_msg list" where
  "meminfo_exit = [Text ''Unloaded meminfo module.'']"

definition hds_init :: "int \<times> list_msg list" where
  "hds_init = (let total = fold (\<lambda>i total. total + i) [1..10] 0 in (0, [Text ''Hello kernel'', Sum total]))"

definition hds_exit :: "list_msg list" where
  "hds_exit = [Text ''Goodbye kernel'']"

definition hello_module_init :: "int \<times> list_msg list" where
  "hello_module_init = (0, [Text ''HELLO LINUX MODULE''])"

definition hello_module_exit :: "list_msg list" where
  "hello_module_exit = [Text ''GOODBYE LINUX'']"

section \<open>Lemmas\<close>

lemma fold_snoc: "fold (\<lambda>p log. log @ [f p]) ps log = log @ map f ps"
  by (induction ps arbitrary: log) auto

lemma fold_snoc_if: "fold (\<lambda>p log. if P p then log @ [f p] else log) ps log = log @ map f (filter P ps)"
  by (induction ps arbitrary: log) auto

lemma kernel_module_lists:
  "kernel_module_init ts = (0, Text ''kernel_module_init'' # map (\<lambda>p. Name_pid (t_comm p) (t_pid p)) ts)"
  "list_tasks_init ts =
     (0, Text ''Listing current tasks:'' #
        map (\<lambda>p. Times (t_comm p) (t_pid p) (t_cpu p) (t_utime p) (t_stime p)) ts)"
  by (simp_all add: kernel_module_init_def list_tasks_init_def fold_snoc)

lemma unat_megabytes:
  assumes "unat pages * unat unit < 2 ^ 64"
  shows "unat (megabytes pages unit) = unat pages * unat unit div 1024 div 1024"
proof -
  have "unat unit < 2 ^ 64" using unsigned_less [of unit, where 'a = nat] by simp
  then have "unat (ucast unit :: u64) = unat unit" by (simp add: unsigned_ucast_eq take_bit_nat_eq_self)
  with assms show ?thesis by (simp add: megabytes_def unat_div unat_word_ariths)
qed

lemma hds_sum: "hds_init = (0, [Text ''Hello kernel'', Sum 55])"
  by (simp add: hds_init_def Let_def upto.simps)

lemma all_cpu_loop_never: "all_cpu_loop online here cur i log = Some r \<Longrightarrow> False"
  using all_cpu_loop.raw_induct [where P = "\<lambda>_ _ _ _ _ _. False"] by blast

lemma runqueue_sections:
  "snd (list_runqueue_init cpus ts) =
     concat (map (\<lambda>cpu. Cpu_header cpu # map (\<lambda>p. Rq_task (t_comm p) (t_pid p)) (filter (\<lambda>p. t_cpu p = cpu) ts)) cpus)"
proof -
  have "fold (\<lambda>cpu log. fold (\<lambda>p log. if t_cpu p = cpu then log @ [Rq_task (t_comm p) (t_pid p)] else log)
            ts (log @ [Cpu_header cpu])) cpus log =
      log @ concat (map (\<lambda>cpu. Cpu_header cpu # map (\<lambda>p. Rq_task (t_comm p) (t_pid p)) (filter (\<lambda>p. t_cpu p = cpu) ts)) cpus)"
    for log
    by (induction cpus arbitrary: log) (simp_all add: fold_snoc_if)
  then show ?thesis by (simp add: list_runqueue_init_def)
qed

text \<open>The tasks of a log with the CPU whose header they stand under.\<close>

fun under :: "nat \<Rightarrow> list_msg list \<Rightarrow> (nat \<times> string \<times> int) list" where
  "under c [] = []"
| "under c (Cpu_header d # ms) = under d ms"
| "under c (Rq_task n p # ms) = (c, n, p) # under c ms"
| "under c (_ # ms) = under c ms"

lemma under_tasks:
  "under c (map (\<lambda>p. Rq_task (t_comm p) (t_pid p)) ts @ ms) = map (\<lambda>p. (c, t_comm p, t_pid p)) ts @ under c ms"
  by (induction ts) auto

lemma under_sections:
  "under c (concat (map (\<lambda>cpu. Cpu_header cpu # map (\<lambda>p. Rq_task (t_comm p) (t_pid p)) (filter (\<lambda>p. t_cpu p = cpu) ts)) cpus)) =
     concat (map (\<lambda>cpu. map (\<lambda>p. (cpu, t_comm p, t_pid p)) (filter (\<lambda>p. t_cpu p = cpu) ts)) cpus)"
  by (induction cpus arbitrary: c) (simp_all add: under_tasks)

lemma mset_by_cpu:
  assumes "distinct cpus" "\<forall>p\<in>set ts. t_cpu p \<in> set cpus"
  shows "mset (concat (map (\<lambda>cpu. map (\<lambda>p. (cpu, t_comm p, t_pid p)) (filter (\<lambda>p. t_cpu p = cpu) ts)) cpus)) =
    mset (map (\<lambda>p. (t_cpu p, t_comm p, t_pid p)) ts)"
  using assms(2)
proof (induction ts)
  case (Cons t ts)
  have "mset (concat (map (\<lambda>cpu. map (\<lambda>p. (cpu, t_comm p, t_pid p)) (filter (\<lambda>p. t_cpu p = cpu) (t # ts))) ds)) =
      (if t_cpu t \<in> set ds then {#(t_cpu t, t_comm t, t_pid t)#} else {#}) +
      mset (concat (map (\<lambda>cpu. map (\<lambda>p. (cpu, t_comm p, t_pid p)) (filter (\<lambda>p. t_cpu p = cpu) ts)) ds))"
    if "distinct ds" for ds
    using that by (induction ds) auto
  from this [OF assms(1)] Cons show ?case by simp
qed simp

section \<open>What the loads do\<close>

text \<open>
  The listing of \<open>cpu_rq.c\<close> shows every thread exactly once, under the header of the CPU it is
  on, when each thread's CPU is a possible one; a load of \<open>all_cpu.c\<close> never returns.
\<close>

lemma runqueues_listed:
  assumes "distinct cpus" "\<forall>p\<in>set ts. t_cpu p \<in> set cpus"
  shows "mset (under c (snd (list_runqueue_init cpus ts))) = mset (map (\<lambda>p. (t_cpu p, t_comm p, t_pid p)) ts) \<and>
    all_cpu_init online here cur = None"
proof
  show "mset (under c (snd (list_runqueue_init cpus ts))) = mset (map (\<lambda>p. (t_cpu p, t_comm p, t_pid p)) ts)"
    using mset_by_cpu [OF assms] by (simp only: runqueue_sections under_sections)
  show "all_cpu_init online here cur = None"
    using all_cpu_loop_never unfolding all_cpu_init_def by (meson not_Some_eq)
qed

end
