(* ===== verification/Minimal.thy ===== *)
theory Minimal
  imports CharDev SysfsAttr
begin

text \<open>
  The smallest modules and programs: \<open>kobject_test.c\<close>, two objects in sysfs with one file each;
  \<open>sysctl_test1.c\<close>, an integer behind a sysctl; \<open>sema/test.c\<close>, the program that exercises the
  semaphore device of \<open>sema/sema_module.c\<close>; \<open>test_input_event.c\<close>, which prints the events of an
  input device; and \<open>acct.c\<close>, which makes one system call. What the kernel grants is a parameter. An object made with
  \<open>kobject_create_and_add\<close> has the kernel's own type, whose file operations look for the functions
  behind the attribute, in a \<open>kobj_attribute\<close>; an attribute that is not part of one has none there.
\<close>

section \<open>Two objects in sysfs\<close>

text \<open>
  \<open>kt_objs\<close> has the reference count of every object the kernel allocated, \<open>kt_self\<close> the one of the
  static object of the module, \<open>kt_parent\<close> its parent. The directories and files are those of the
  allocated (\<open>top\<close>) and of the static object (\<open>sub\<close>); \<open>kt_text\<close>: the module is in memory.
\<close>

datatype kt_msg = Kt_init | Kt_exit | Kt_show | Kt_store

record kobject_test =
  kt_objs :: "nat kmem"
  kt_pkobj :: "nat option"
  kt_self :: nat
  kt_parent :: "nat option"
  kt_top_dir :: bool
  kt_top_file :: bool
  kt_sub_dir :: bool
  kt_sub_file :: bool
  kt_text :: bool
  kt_log :: "kt_msg list"

definition kt_say :: "kt_msg \<Rightarrow> kobject_test \<Rightarrow> kobject_test" where
  "kt_say m s = s\<lparr>kt_log := kt_log s @ [m]\<rparr>"

definition kobject_ref :: "nat option \<Rightarrow> nat kmem \<Rightarrow> nat kmem" where
  "kobject_ref p m =
     (case p of None \<Rightarrow> m | Some a \<Rightarrow> m\<lparr>cells := (cells m)(a := map_option Suc (cells m a))\<rparr>)"

definition kobject_unref :: "nat option \<Rightarrow> nat kmem \<Rightarrow> nat kmem outcome" where
  "kobject_unref p m =
     (case p of
        None \<Rightarrow> Inr m
      | Some a \<Rightarrow> bnd (kread a m) (\<lambda>n. if n \<le> 1 then kfree a m else kwrite a (n - 1) m))"

text \<open>A file of an object without a directory is refused.\<close>

definition sysfs_create_file :: "bool \<Rightarrow> int \<Rightarrow> int" where
  "sysfs_create_file dir res = (if dir then res else - EINVAL)"

definition test_attr_show :: "kobject_test \<Rightarrow> (int \<times> string) \<times> kobject_test" where
  "test_attr_show s = ((0, []), kt_say Kt_show s)"

definition test_attr_store :: "string \<Rightarrow> nat \<Rightarrow> kobject_test \<Rightarrow> int \<times> kobject_test" where
  "test_attr_store page len s = (123, kt_say Kt_store s)"

text \<open>
  The load, for the results of the four calls. The result of the load is the one of the last call.
\<close>

definition kobject_test_init :: "bool \<Rightarrow> int \<Rightarrow> int \<Rightarrow> int \<Rightarrow> kobject_test \<Rightarrow> int \<times> kobject_test" where
  "kobject_test_init created add sub_res top_res s =
     (let s = kt_say Kt_init s;
          (p, m) = kmalloc (\<lambda>_. created) 1 (kt_objs s);
          s = s\<lparr>kt_objs := m, kt_pkobj := p, kt_top_dir := p \<noteq> None, kt_self := 1\<rparr>;
          s = (if add = 0
               then s\<lparr>kt_sub_dir := True, kt_parent := p, kt_objs := kobject_ref p (kt_objs s)\<rparr>
               else s\<lparr>kt_sub_dir := False, kt_parent := None\<rparr>);
          s = s\<lparr>kt_sub_file := sysfs_create_file (kt_sub_dir s) sub_res = 0\<rparr>;
          ret = sysfs_create_file (kt_top_dir s) top_res
      in (ret, s\<lparr>kt_top_file := ret = 0\<rparr>))"

text \<open>
  \<open>kobject_del\<close> removes the directory with its files and gives back the reference on the parent,
  not the one on the object itself.
\<close>

definition kobject_test_exit :: "kobject_test \<Rightarrow> kobject_test outcome" where
  "kobject_test_exit s =
     (let s = kt_say Kt_exit s; s = s\<lparr>kt_sub_file := False\<rparr>; s = s\<lparr>kt_sub_dir := False\<rparr>
      in bnd (kobject_unref (kt_parent s) (kt_objs s)) (\<lambda>m.
         Inr (s\<lparr>kt_objs := m, kt_parent := None, kt_top_dir := False, kt_top_file := False\<rparr>)))"

text \<open>The kernel around them: a load that fails and an unload take the module out of memory.\<close>

definition kt_insmod :: "bool \<Rightarrow> int \<Rightarrow> int \<Rightarrow> int \<Rightarrow> kobject_test \<Rightarrow> int \<times> kobject_test" where
  "kt_insmod created add sub_res top_res s =
     (let (ret, s) = kobject_test_init created add sub_res top_res (s\<lparr>kt_text := True\<rparr>)
      in (ret, s\<lparr>kt_text := ret = 0\<rparr>))"

definition kt_rmmod :: "kobject_test \<Rightarrow> kobject_test outcome" where
  "kt_rmmod s = bnd (kobject_test_exit s) (\<lambda>s. Inr (s\<lparr>kt_text := False\<rparr>))"

definition kt_sub_write :: "string \<Rightarrow> kobject_test \<Rightarrow> (int \<times> kobject_test) outcome" where
  "kt_sub_write buf s =
     (if \<not> kt_sub_file s then Inr (- 2, s)
      else if kt_text s then Inr (test_attr_store buf (length buf) s) else Inl Use_after_free)"

definition kt_sub_read :: "kobject_test \<Rightarrow> ((int \<times> string) \<times> kobject_test) outcome" where
  "kt_sub_read s =
     (if \<not> kt_sub_file s then Inr ((- 2, []), s)
      else if kt_text s then Inr (test_attr_show s) else Inl Use_after_free)"

definition kt_top_read :: "kobject_test \<Rightarrow> ((int \<times> string) \<times> kobject_test) outcome" where
  "kt_top_read s =
     (if \<not> kt_top_file s then Inr ((- 2, []), s)
      else if kt_text s then Inl Out_of_bounds else Inl Use_after_free)"

definition kt_zero :: kobject_test where
  "kt_zero = \<lparr>kt_objs = \<lparr>cells = Map.empty, brk = 0\<rparr>, kt_pkobj = None, kt_self = 0, kt_parent = None,
     kt_top_dir = False, kt_top_file = False, kt_sub_dir = False, kt_sub_file = False,
     kt_text = False, kt_log = []\<rparr>"

lemmas kt_defs = kt_insmod_def kt_rmmod_def kobject_test_init_def kobject_test_exit_def kt_say_def
  kmalloc_def kobject_ref_def kobject_unref_def kread_def kwrite_def sysfs_create_file_def

text \<open>
  A load that is granted everything and an unload leave no directory, but the allocated object
  stays, once per load: only the references on it as a parent are given back.
\<close>

lemma kt_cycle:
  "\<exists>t u. kt_insmod True 0 0 0 s = (0, t) \<and> kt_rmmod t = Inr u \<and>
     cells (kt_objs u) = (cells (kt_objs s))(brk (kt_objs s) \<mapsto> 1) \<and>
     brk (kt_objs u) = Suc (brk (kt_objs s)) \<and>
     kt_self u = 1 \<and> \<not> kt_top_dir u \<and> \<not> kt_sub_dir u \<and> \<not> kt_top_file u \<and> \<not> kt_sub_file u"
  by (simp add: kt_defs)

fun kt_cycles :: "nat \<Rightarrow> kobject_test \<Rightarrow> kobject_test outcome" where
  "kt_cycles 0 s = Inr s"
| "kt_cycles (Suc n) s = bnd (kt_rmmod (snd (kt_insmod True 0 0 0 s))) (kt_cycles n)"

lemma kt_cycles_leak:
  "\<exists>t. kt_cycles n s = Inr t \<and> brk (kt_objs t) = brk (kt_objs s) + n \<and>
     (\<forall>a. cells (kt_objs t) a =
        (if brk (kt_objs s) \<le> a \<and> a < brk (kt_objs s) + n then Some 1 else cells (kt_objs s) a))"
proof (induction n arbitrary: s)
  case (Suc n)
  obtain t' u where u: "kt_insmod True 0 0 0 s = (0, t')" "kt_rmmod t' = Inr u"
    "cells (kt_objs u) = (cells (kt_objs s))(brk (kt_objs s) \<mapsto> 1)"
    "brk (kt_objs u) = Suc (brk (kt_objs s))" using kt_cycle by blast
  from Suc.IH [of u] obtain t where "kt_cycles n u = Inr t" "brk (kt_objs t) = brk (kt_objs u) + n"
    "\<forall>a. cells (kt_objs t) a = (if brk (kt_objs u) \<le> a \<and> a < brk (kt_objs u) + n then Some 1 else cells (kt_objs u) a)"
    by blast
  with u show ?case by auto
qed auto

text \<open>
  The files of the module: the one of the static object reads empty and takes any text for 123
  characters; a read of the other one leaves the attribute. \<open>n\<close> loads and unloads leave \<open>n\<close>
  objects allocated. When the first object is refused the load fails, with the static object and
  its file left in sysfs: the next read of it runs in a module that is gone.
\<close>

lemma kobject_test_defects:
  "(\<exists>s. kt_insmod True 0 0 0 kt_zero = (0, s) \<and>
      (\<forall>buf. \<exists>s'. kt_sub_write buf s = Inr (123, s')) \<and> (\<exists>s'. kt_sub_read s = Inr ((0, []), s')) \<and>
      kt_top_read s = Inl Out_of_bounds) \<and>
   (\<exists>t. kt_cycles n kt_zero = Inr t \<and> live (kt_objs t) = {..<n}) \<and>
   (\<exists>s. kt_insmod False 0 0 top_res kt_zero = (- EINVAL, s) \<and> kt_sub_read s = Inl Use_after_free)"
proof -
  have "\<exists>s. kt_insmod True 0 0 0 kt_zero = (0, s) \<and>
      (\<forall>buf. \<exists>s'. kt_sub_write buf s = Inr (123, s')) \<and> (\<exists>s'. kt_sub_read s = Inr ((0, []), s')) \<and>
      kt_top_read s = Inl Out_of_bounds"
    by (simp add: kt_defs kt_sub_write_def kt_sub_read_def kt_top_read_def test_attr_show_def test_attr_store_def)
  moreover obtain t where t: "kt_cycles n kt_zero = Inr t"
    "\<forall>a. cells (kt_objs t) a = (if 0 \<le> a \<and> a < 0 + n then Some 1 else None)"
    using kt_cycles_leak [of n kt_zero] by (auto simp: kt_zero_def)
  then have "live (kt_objs t) = {..<n}" by (auto simp: live_def split: if_splits)
  moreover have "\<exists>s. kt_insmod False 0 0 top_res kt_zero = (- EINVAL, s) \<and> kt_sub_read s = Inl Use_after_free"
    by (simp add: kt_defs kt_sub_read_def EINVAL_def)
  ultimately show ?thesis using t(1) by blast
qed

section \<open>An integer behind a sysctl\<close>

text \<open>\<open>register_sysctl_table\<close> may be refused; writes follow the number parser of the kernel.\<close>

record sysctl_test =
  my_sysctl_value :: int
  my_sysctl_header :: bool

definition mymodule_init :: "bool \<Rightarrow> sysctl_test \<Rightarrow> int \<times> sysctl_test" where
  "mymodule_init ok s =
     (let s = s\<lparr>my_sysctl_header := ok\<rparr> in if \<not> my_sysctl_header s then (- ENOMEM, s) else (0, s))"

definition mymodule_exit :: "sysctl_test \<Rightarrow> sysctl_test" where
  "mymodule_exit s = s\<lparr>my_sysctl_header := False\<rparr>"

section \<open>The program that takes the semaphore\<close>

text \<open>
  The program of process \<open>i\<close> up to its sleep and after it. An open that waits prints nothing yet;
  the program goes on when the kernel serves it. A failed open returns -1 to the program, and
  \<open>perror\<close> prints the text of the error.
\<close>

definition before_text :: string where "before_text = ''before open'' @ [NL] @ '' ''"
definition ok_text :: string where "ok_text = ''open ok ,sleep......'' @ [NL] @ '' ''"
definition woken_text :: string where "woken_text = ''wake up from sleep!'' @ [NL] @ '' ''"

definition sema_test_opened :: "(int \<Rightarrow> string) \<Rightarrow> int \<Rightarrow> string list" where
  "sema_test_opened strerror fd =
     (if fd < 0 then [''open fail '' @ [NL] @ '': '' @ strerror (- fd) @ [NL]] else [ok_text])"

definition sema_test_start ::
    "(int \<Rightarrow> string) \<Rightarrow> nat \<Rightarrow> hello \<Rightarrow> (string list \<times> hello) outcome" where
  "sema_test_start strerror i s =
     bnd (hello_open i s) (\<lambda>(r, s).
       Inr (before_text # (case r of None \<Rightarrow> [] | Some fd \<Rightarrow> sema_test_opened strerror fd), s))"

definition sema_test_finish :: "nat \<Rightarrow> hello \<Rightarrow> (string list \<times> hello) outcome" where
  "sema_test_finish i s = bnd (hello_release i s) (\<lambda>(_, s). Inr ([woken_text], s))"

text \<open>
  Two runs of the program one after the other, as its comment says: the first does not wait, the
  second waits until the first is done, and the device is free afterwards.
\<close>

lemma sema_two_tests:
  assumes "hello_inv s" "\<forall>k. h_users s k \<noteq> Opened" "i \<noteq> j"
  shows "\<exists>s1 s2 s3 s4 s5.
     sema_test_start strerror i s = Inr ([before_text, ok_text], s1) \<and>
     sema_test_start strerror j s1 = Inr ([before_text], s2) \<and> h_users s2 j = Waiting \<and>
     sema_test_finish i s2 = Inr ([woken_text], s3) \<and>
     hello_open j s3 = Inr (Some 0, s4) \<and>
     sema_test_finish j s4 = Inr ([woken_text], s5) \<and> hello_down s5"
proof -
  from assms(1,2) have "h_sem s = Some 1" by (cases rule: hello_inv_cases) auto
  with assms(3) show ?thesis
    by (simp add: sema_test_start_def sema_test_finish_def sema_test_opened_def hello_open_def
        hello_release_def hello_down_def)
qed

section \<open>The events of an input device\<close>

record input_event =
  ev_sec :: int
  ev_usec :: int
  ev_type :: int
  ev_code :: int
  ev_value :: int

definition EV_SYN :: int where "EV_SYN = 0"

definition event_line :: "input_event \<Rightarrow> string" where
  "event_line e = ''Event: time '' @ show_int (ev_sec e) @ ''.'' @ show_int (ev_usec e) @
     '', type '' @ show_int (ev_type e) @ '', code '' @ show_int (ev_code e) @
     '',value '' @ show_int (ev_value e) @ [NL]"

text \<open>The loop over the results of \<open>read\<close>; one that is not a whole event prints nothing.\<close>

fun event_loop :: "input_event option list \<Rightarrow> string list" where
  "event_loop [] = []"
| "event_loop (None # rs) = event_loop rs"
| "event_loop (Some e # rs) =
     (if ev_type e \<noteq> EV_SYN then event_line e # event_loop rs else event_loop rs)"

definition default_path :: string where
  "default_path = ''/dev/input/by-path/pci-0000:00:14.0-usb-0:7:1.0-event-mouse''"

text \<open>The program, for the result of \<open>open\<close>: the exit status if it exits, and what it prints.\<close>

definition event_main ::
    "string list \<Rightarrow> (string \<Rightarrow> int) \<Rightarrow> input_event option list \<Rightarrow> nat option \<times> string list" where
  "event_main argv opn reads =
     (let path = (if 1 < length argv then argv ! 1 else default_path)
      in if opn path < 0
         then (Some 1, [''This is a input device demo.'' @ [NL],
            ''Fail to open device:'' @ path @ ''.'' @ [NL] @
            ''Please confirm the path or you have permission to do this.'' @ [NL]])
         else (None, [''This is a input device demo.'' @ [NL],
            ''Test device: '' @ path @ ''.'' @ [NL] @ ''Waiting for input...'' @ [NL]] @ event_loop reads))"

lemma event_loop_append: "event_loop (rs @ rs') = event_loop rs @ event_loop rs'"
  by (induction rs rule: event_loop.induct) auto

text \<open>Separators do not change what is shown, wherever they come.\<close>

lemma event_loop_lines:
  "event_loop rs = map event_line (filter (\<lambda>e. ev_type e \<noteq> EV_SYN) (List.map_filter id rs))"
  by (induction rs rule: event_loop.induct) (auto simp: map_filter_simps)

section \<open>Switching process accounting on\<close>

text \<open>
  For the result of the system call, a negated error number when it fails: the exit status, what
  goes to the error output and what to the output. The loop at the end counts and does nothing.
\<close>

definition acct_main :: "(string \<Rightarrow> int) \<Rightarrow> (int \<Rightarrow> string) \<Rightarrow> nat \<times> string list \<times> string list" where
  "acct_main acct strerror =
     (let r = acct ''acct_test.txt''
      in (0, if r < 0 then [''acct: '' @ strerror (- r) @ [NL]] else [], [''sadqweq'']))"

end
