(* ===== verification/TaskDump.thy ===== *)
theory TaskDump
  imports SoftWdt LoadWdt2 CText
begin

text \<open>
  What the load watchdogs print of the tasks that run when a timeout is reported:
  \<open>get_current_task_info\<close> of \<open>load_softwdt.c\<close> and \<open>load_softwdt2.c\<close> and
  \<open>ste_get_current_task_info\<close> of \<open>load_softwdt3.c\<close>, with the works that call them on every CPU.
  The task of each CPU is input. A cross call runs its function on the other CPUs one after the
  other, in some order, since the functions hold a lock while they print.
\<close>

section \<open>The task of one CPU\<close>

text \<open>A kernel thread has no memory descriptor.\<close>

record cur_task =
  ct_pid :: int
  ct_comm :: string
  ct_nice :: int
  ct_utime :: u64
  ct_stime :: u64
  ct_rss :: "u64 option"

datatype dump_msg = Task_text string | Stack_of nat

definition task_rss :: "cur_task \<Rightarrow> u64" where
  "task_rss t = (case ct_rss t of None \<Rightarrow> 0 | Some rss \<Rightarrow> rss)"

definition phys_kb :: "u64 \<Rightarrow> cur_task \<Rightarrow> u64" where
  "phys_kb page_size t = (let rss = task_rss t in if rss \<noteq> 0 then rss * (page_size div 1024) else 0)"

definition task_line :: "string \<Rightarrow> string \<Rightarrow> u64 \<Rightarrow> nat \<Rightarrow> cur_task \<Rightarrow> string" where
  "task_line prefix label page_size cpu t =
     prefix @ ''CPU: '' @ show_int (int cpu) @ '', Current Task PID: '' @ show_int (ct_pid t) @
     '', '' @ label @ '': '' @ ct_comm t @ '', Nice: '' @ show_int (ct_nice t) @
     '', CPU Time: '' @ show_int (uint (ct_utime t + ct_stime t)) @
     '', Physical Memory: '' @ show_int (uint (phys_kb page_size t)) @ '' KB'' @ [NL]"

definition stat_get_current_task_info :: "u64 \<Rightarrow> (nat \<Rightarrow> cur_task) \<Rightarrow> nat \<Rightarrow> dump_msg list" where
  "stat_get_current_task_info page_size cur cpu = [Task_text (task_line [] ''Name'' page_size cpu (cur cpu))]"

definition lwd_get_current_task_info :: "u64 \<Rightarrow> (nat \<Rightarrow> cur_task) \<Rightarrow> nat \<Rightarrow> dump_msg list" where
  "lwd_get_current_task_info page_size cur cpu =
     [Task_text (task_line [] ''Name'' page_size cpu (cur cpu)), Stack_of cpu]"

definition ste_get_current_task_info :: "u64 \<Rightarrow> (nat \<Rightarrow> cur_task) \<Rightarrow> nat \<Rightarrow> dump_msg list" where
  "ste_get_current_task_info page_size cur cpu =
     [Task_text (task_line ''ste_softwdt_load_monitor: '' ''Comm'' page_size cpu (cur cpu)),
      Task_text ''ste_softwdt_load_monitor: dump_stack'', Stack_of cpu]"

section \<open>Every CPU\<close>

text \<open>\<open>order\<close> lists the online CPUs in the order they answer; \<open>here\<close> is the CPU of the caller.\<close>

definition smp_call_function :: "(nat \<Rightarrow> 'm list) \<Rightarrow> nat \<Rightarrow> nat list \<Rightarrow> 'm list" where
  "smp_call_function f here order = concat (map f (filter (\<lambda>c. c \<noteq> here) order))"

definition on_each_cpu :: "(nat \<Rightarrow> 'm list) \<Rightarrow> nat list \<Rightarrow> 'm list" where
  "on_each_cpu f order = concat (map f order)"

definition stat_dump :: "u64 \<Rightarrow> (nat \<Rightarrow> cur_task) \<Rightarrow> nat \<Rightarrow> nat list \<Rightarrow> dump_msg list" where
  "stat_dump page_size cur here order =
     smp_call_function (stat_get_current_task_info page_size cur) here order @
     stat_get_current_task_info page_size cur here"

definition get_task_info :: "u64 \<Rightarrow> (nat \<Rightarrow> cur_task) \<Rightarrow> nat \<Rightarrow> nat list \<Rightarrow> dump_msg list" where
  "get_task_info page_size cur here order =
     smp_call_function (lwd_get_current_task_info page_size cur) here order @
     lwd_get_current_task_info page_size cur here"

definition ste_handle_sleepable_task :: "u64 \<Rightarrow> (nat \<Rightarrow> cur_task) \<Rightarrow> nat list \<Rightarrow> dump_msg list" where
  "ste_handle_sleepable_task page_size cur order =
     on_each_cpu (ste_get_current_task_info page_size cur) order"

lemma mset_cross_call:
  "here \<in> set order \<Longrightarrow> distinct order \<Longrightarrow>
     mset (smp_call_function f here order @ f here) = mset (on_each_cpu f order)"
proof (induction order)
  case (Cons c order)
  show ?case
  proof (cases "c = here")
    case True
    with Cons.prems have "filter (\<lambda>c. c \<noteq> here) order = order" by (auto intro: filter_True)
    with True show ?thesis by (simp add: smp_call_function_def on_each_cpu_def)
  next
    case False
    with Cons show ?thesis by (simp add: smp_call_function_def on_each_cpu_def)
  qed
qed simp

text \<open>The stacks that are dumped: those of the online CPUs, each once, in every version that dumps them.\<close>

definition stacks :: "dump_msg list \<Rightarrow> nat list" where
  "stacks ms = List.map_filter (\<lambda>m. case m of Stack_of c \<Rightarrow> Some c | _ \<Rightarrow> None) ms"

lemma stacks_simps [simp]:
  "stacks [] = []" "stacks (Stack_of c # ms) = c # stacks ms" "stacks (Task_text t # ms) = stacks ms"
  "stacks (ms @ ms') = stacks ms @ stacks ms'"
  by (simp_all add: stacks_def map_filter_simps) (simp add: List.map_filter_def)

lemma ste_stacks: "stacks (ste_handle_sleepable_task page_size cur order) = order"
  by (induction order) (simp_all add: ste_handle_sleepable_task_def on_each_cpu_def ste_get_current_task_info_def)

lemma lwd_stacks:
  "stacks (get_task_info page_size cur here order) = filter (\<lambda>c. c \<noteq> here) order @ [here]"
proof -
  have "stacks (concat (map (lwd_get_current_task_info page_size cur) cs)) = cs" for cs
    by (induction cs) (simp_all add: lwd_get_current_task_info_def)
  then show ?thesis
    by (simp add: get_task_info_def smp_call_function_def) (simp add: lwd_get_current_task_info_def)
qed

lemma dump_each_cpu_once:
  assumes "here \<in> set order" "distinct order"
  shows "mset (stacks (get_task_info page_size cur here order)) = mset order \<and>
     stacks (ste_handle_sleepable_task page_size cur order) = order \<and>
     mset (stat_dump page_size cur here order) =
       mset (map (\<lambda>c. Task_text (task_line [] ''Name'' page_size c (cur c))) order)"
proof -
  have "mset (filter (\<lambda>c. c \<noteq> here) order @ [here]) = mset order"
    using mset_cross_call [OF assms, of "\<lambda>c. [c]"] by (simp add: smp_call_function_def on_each_cpu_def)
  moreover have "on_each_cpu (stat_get_current_task_info page_size cur) order =
      map (\<lambda>c. Task_text (task_line [] ''Name'' page_size c (cur c))) order"
    by (induction order) (simp_all add: on_each_cpu_def stat_get_current_task_info_def)
  ultimately show ?thesis
    using mset_cross_call [OF assms, of "stat_get_current_task_info page_size cur"]
    by (simp add: ste_stacks lwd_stacks stat_dump_def)
qed

text \<open>The memory printed is exact while it fits; a kernel thread has none.\<close>

lemma phys_kb_exact:
  assumes "unat (task_rss t) * (unat page_size div 1024) < 2 ^ 64"
  shows "unat (phys_kb page_size t) = unat (task_rss t) * (unat page_size div 1024)"
proof -
  have "unat (page_size div 1024) = unat page_size div 1024" by (simp add: unat_div)
  with assms show ?thesis
    by (simp add: phys_kb_def Let_def unat_word_ariths(2) del: unat_div)
qed

section \<open>Reports and dumps\<close>

text \<open>
  The queued work runs: the queue has it at most once. While it does not run, reports add no
  dump, so a monitor whose queue is stuck prints any number of usage reports but then one dump,
  of the tasks running at that later time.
\<close>

definition run_sleepable ::
    "u64 \<Rightarrow> (nat \<Rightarrow> cur_task) \<Rightarrow> nat list \<Rightarrow> softwdt \<Rightarrow> dump_msg list \<times> softwdt" where
  "run_sleepable page_size cur order s =
     (if wd_aux s then (ste_handle_sleepable_task page_size cur order, s\<lparr>wd_aux := False\<rparr>) else ([], s))"

lemma run_sleepable_step:
  "wd_aux s \<Longrightarrow> wd_step feed timeout lat (now, s) (now, snd (run_sleepable page_size cur order s))"
  by (simp add: run_sleepable_def wd_step.report)

lemma reports_queue_one:
  assumes "foldM ste_report ons s = Inr t" "ons \<noteq> []"
  shows "wd_aux t"
  using assms
proof (induction ons arbitrary: s)
  case (Cons on ons)
  then show ?case by (cases ons) (auto simp: bnd_eq_Inr ste_report_def)
qed simp

lemma one_dump_for_many_reports:
  assumes "foldM ste_report ons s = Inr t" "ons \<noteq> []"
  shows "stacks (fst (run_sleepable page_size cur order t)) = order \<and>
     fst (run_sleepable page_size cur order (snd (run_sleepable page_size cur order t))) = []"
  using reports_queue_one [OF assms] by (simp add: run_sleepable_def ste_stacks)

end
