(* ===== verification/Spec2Isabelle.thy ===== *)
theory Spec2Isabelle
  imports LoadWdt2 SteWriters ProcCpuUsage TopView Shadow Livepatch SysfsAttr StatWork TimerMods LinuxSeq CharDev PowerKey Kfifo Irq Listings Minimal TaskDump
begin

text \<open>
  A verification library for the kernel modules and tools of this repository.

  \<^bold>\<open>The program.\<close> The repository is a collection of independent C programs. Its core are monitors
  of CPU time: \<open>src/ste_top.c\<close> (a kernel module that prints a process table on a write to
  \<open>/proc/kernel_top\<close>), \<open>src/top.c\<close> (the user-space top of Android), three generations of a load
  watchdog (\<open>src/load_softwdt.c\<close>, \<open>src/load_softwdt2.c\<close>, \<open>src/load_softwdt3.c\<close>),
  \<open>src/process_cpu_usage.c\<close>, \<open>src/per_cpu_usage.c\<close>, \<open>src/cpu_usage2.c\<close>, \<open>src/cpu_usage3.c\<close> and
  \<open>src/cpu.c\<close>. Beside them stand demos of kernel interfaces: live patches with shadow variables
  and with callbacks, sysfs attributes, \<open>seq_file\<close>, character devices, a semaphore, a kernel FIFO, a
  shared interrupt. The modules do not call each other; they share the kernel interfaces they use,
  and the live patches replace functions of their module.

  \<^bold>\<open>Theories.\<close>
  \<^item> \<open>Prelude\<close>: words of the C widths, faults and the sequencing of steps that may fault, loops
    over lists, an allocator whose requests can be refused (contract \<open>allocator\<close>, extended to
    \<open>checked_allocator\<close>, interpreted on \<open>kmalloc\<close> and \<open>kfree\<close>), arrays behind pointers, rounded shares.
  \<^item> \<open>CpuTimes\<close>: the CPU line of \<open>ste_top.c\<close> and \<open>cpu_usage3.c\<close>; \<open>CpuPercent\<close>: the percentages of
    \<open>cpu_usage2.c\<close> and \<open>cpu.c\<close>.
  \<^item> \<open>WdCore\<close>: what the watchdogs share, their step relation and the contracts \<open>watchdog\<close>,
    \<open>rearming_watchdog\<close> and \<open>giving_up_watchdog\<close>; \<open>SoftWdt\<close>, \<open>LoadWdt2\<close> and \<open>StatWork\<close> interpret them on
    \<open>load_softwdt3.c\<close>, \<open>load_softwdt2.c\<close> and \<open>load_softwdt.c\<close>. \<open>StatWork\<close> also has the work of
    \<open>per_cpu_usage.c\<close> and \<open>cpu_usage.c\<close>, which parse \<open>/proc/stat\<close> the same way. \<open>TaskDump\<close>: what the
    watchdogs print of the running tasks. \<open>TimerMods\<close>: the loads, timers and unloads of
    \<open>cpu_usage2.c\<close>, \<open>cpu_usage.c\<close> and \<open>per_cpu_usage.c\<close>, the three instances of the contract
    \<open>self_timer\<close>, and the thread of \<open>cpu.c\<close>.
  \<^item> \<open>KHash\<close>: the kernel hash tables; \<open>SteProcs\<close>: \<open>procs_hlp\<close> and \<open>procs_refresh\<close> of \<open>ste_top.c\<close> with
    its two hash tables and its growing array; \<open>SteFrame\<close>: what \<open>ste_top.c\<close> prints, its frame and
    its unload; \<open>SteWriters\<close>: several writers of its file at once; \<open>ProcCpuUsage\<close>: \<open>process_cpu_usage.c\<close>.
  \<^item> \<open>CText\<close>: the C string functions, \<open>fgets\<close>, \<open>atoi\<close>, \<open>sscanf\<close> and decimal printing. \<open>TopArgs\<close>,
    \<open>TopRead\<close>, \<open>TopPool\<close>, \<open>TopProcs\<close> and \<open>TopView\<close>: the options, the parsers of \<open>/proc\<close> files, the pool of
    records (another instance of \<open>allocator\<close>), the snapshots, and the view with the main loop of \<open>top.c\<close>.
  \<^item> \<open>Shadow\<close>: \<open>livepatch-shadow-mod.c\<close> with \<open>livepatch-shadow-fix1.c\<close> and \<open>livepatch-shadow-fix2.c\<close>.
    \<open>Livepatch\<close>: the order in which the kernel's live patch core calls the callbacks of
    \<open>livepatch-callbacks-demo.c\<close> over the target modules \<open>livepatch-callbacks-mod.c\<close> and
    \<open>livepatch-callbacks-busymod.c\<close>, as a step relation, and \<open>livepatch-sample.c\<close>.
  \<^item> \<open>SysfsAttr\<close>: \<open>kobject-example.c\<close> and \<open>kset-example.c\<close>, each file an instance of the contract
    \<open>int_file\<close>.
  \<^item> \<open>SeqTask\<close>: the iterator of \<open>seq-file-test.c\<close>; \<open>LinuxSeq\<close>: the one of \<open>linux_seq.c\<close>, which also logs
    its calls, with open and release, refined to \<open>SeqTask\<close>.
  \<^item> \<open>CharDev\<close>: \<open>sema/sema_module.c\<close>, \<open>cdev_driver.c\<close> and \<open>debugfs_test1.c\<close>; \<open>PowerKey\<close>: \<open>powerkey.c\<close>.
  \<^item> \<open>Kfifo\<close>: \<open>kfifo.c\<close> on a ring of bytes, the instance of the contract \<open>byte_fifo\<close>; \<open>Irq\<close>:
    \<open>interrupt_register_module.c\<close>; \<open>Listings\<close>: the modules that print a listing once and return;
    \<open>Minimal\<close>: \<open>kobject_test.c\<close>, \<open>sysctl_test1.c\<close> and the three test programs.

  A definition has the name of the C function it translates; where two files use one name it has
  a prefix. The state of a module is a record of its static variables, the objects on the heap
  are cells of an allocator, every undefined step of C is a fault, and what a function prints is
  part of the state or of the result.

  \<^bold>\<open>What is shown.\<close> For the process tables of \<open>ste_top.c\<close> and \<open>top.c\<close>: after any number of refreshes
  each process is shown once with the CPU time it spent since the refresh before, sorted and
  complete, and what memory is held (\<open>SteProcs\<close>, \<open>SteFrame\<close>, \<open>TopView\<close>); what becomes of it when writers
  overlap in their sleep or in the middle of a refresh (\<open>SteWriters\<close>). For the percentages: exact
  values, bounds, insensitivity to counters that wrap (\<open>CpuTimes\<close>, \<open>CpuPercent\<close>, \<open>SoftWdt\<close>). For the
  watchdogs: a promptly served one never counts a timeout in any reachable state, a stuck one
  keeps trying or gives up, what every load and unload leaves behind. For the parsers: round trips
  with the text the kernel prints. For the demos: the account of leaked memory under live patches,
  the contract and refinement of the sysfs files, reading in pieces refines the listing in one
  piece, each pre callback followed by its post callback or its undoing in every order of loads
  and patches, what a queue gives back is what was put in, mutual exclusion, loads that succeed whole or leave nothing. Where the code falls short
  of its purpose, a theorem states what it does instead; the manifest lists these findings.

  \<^bold>\<open>Bounds and fuel.\<close> Counters are 64-bit words and wrap; percentages are stated under the bound
  that keeps \<open>100 * total\<close> below \<open>2 ^ 64\<close>. No fuel is used: loops are recursions over lists or numbers, and
  the main loop of \<open>top.c\<close>, which may run forever, is a partial function whose returning is
  characterised.

  \<^bold>\<open>Parameters.\<close> Which requests of the allocator are granted, the contents of \<open>/proc\<close> and of fresh
  memory, \<open>sort\<close>, \<open>qsort\<close>, \<open>kstrtoint\<close>, \<open>msecs_to_jiffies\<close>, the page size and the user names are
  arguments. Timers, works, hash tables, kobjects, shadow variables, \<open>seq_file\<close>, semaphores,
  the live patch core, kernel FIFOs and interrupt lines behave as the kernel's documentation says.

  \<^bold>\<open>Not modelled.\<close> Spin locks, RCU and the memory model; handlers interleaved at a finer grain than the steps
  named in \<open>SteWriters\<close>, \<open>SoftWdt\<close> and \<open>TimerMods\<close>; overflow of the \<open>int\<close> counters of processes; the
  width of printed columns. \<open>process_info.c\<close> does not compile as it uses undeclared variables.
\<close>

end
